(* ===== verification/Kernel_Prelude.thy ===== *)
theory Kernel_Prelude
  imports Main "HOL-Library.Word"
begin

unbundle bit_operations_syntax

text \<open>
  What every component of the development shares: the C integer types of
  \<^verbatim>\<open>kernel/types.h\<close> as machine words, byte-addressed memory, the outcome type
  of a kernel function (it returns, it panics, or its thread has to sleep), and
  the generic facts about words, lists and outcomes that the component theories
  use through the simplifier and the collections \<open>res_simps\<close> and \<open>mem_simps\<close>.
\<close>

section \<open>C integers and memory\<close>

type_synonym uint8 = "8 word"
type_synonym uint16 = "16 word"
type_synonym uint32 = "32 word"
type_synonym uint64 = "64 word"

type_synonym memory = "uint64 \<Rightarrow> uint8"

named_theorems res_simps \<open>unfolding rules for outcomes\<close>
named_theorems mem_simps \<open>closed forms of the byte-moving loops\<close>

section \<open>Outcomes of kernel functions\<close>

text \<open>
  \<open>Ret x\<close>: the C function returns, with result and new state in \<open>x\<close>.
  \<open>Panic msg\<close>: it calls \<^verbatim>\<open>panic(msg)\<close>, which never returns.
  \<open>Blocked\<close>: the thread would have to sleep until another thread acts.
\<close>

datatype 'a res = Ret 'a | Panic string | Blocked

primrec seq :: "'a res \<Rightarrow> ('a \<Rightarrow> 'b res) \<Rightarrow> 'b res" where
  "seq (Ret x) f = f x"
| "seq (Panic s) f = Panic s"
| "seq Blocked f = Blocked"

lemma seq_Ret_iff [res_simps]: "seq m f = Ret y \<longleftrightarrow> (\<exists>x. m = Ret x \<and> f x = Ret y)"
  by (cases m) auto

lemma seq_RetE [elim]:
  assumes "seq m f = Ret y"
  obtains x where "m = Ret x" "f x = Ret y"
  using assms by (auto simp: seq_Ret_iff)

lemma seq_assoc [simp]: "seq (seq m f) g = seq m (\<lambda>x. seq (f x) g)"
  by (cases m) auto

lemma seq_Ret_right [simp]: "seq m Ret = m"
  by (cases m) auto

lemma seq_cong [fundef_cong]:
  "m = m' \<Longrightarrow> (\<And>x. m' = Ret x \<Longrightarrow> f x = g x) \<Longrightarrow> seq m f = seq m' g"
  by (cases m') auto

section \<open>Words\<close>

lemma unat_lt_2p64: "unat (x :: uint64) < 18446744073709551616"
  by (rule order_less_le_trans [OF unsigned_less]) simp

lemma unat_lt_2p32: "unat (x :: uint32) < 4294967296"
  by (rule order_less_le_trans [OF unsigned_less]) simp

lemma unat_lt_2p16: "unat (x :: uint16) < 65536"
  by (rule order_less_le_trans [OF unsigned_less]) simp

lemma unat_lt_2p8: "unat (x :: uint8) < 256"
  by (rule order_less_le_trans [OF unsigned_less]) simp

lemma unat_of_nat_u64: "unat (of_nat n :: uint64) = n mod 18446744073709551616"
  by (simp add: unat_of_nat)

lemma unat_of_nat_u64_small [simp]:
  "n < 18446744073709551616 \<Longrightarrow> unat (of_nat n :: uint64) = n"
  by (simp add: unat_of_nat)

lemma word_offset_eq: "unat (x - b :: uint64) = n \<longleftrightarrow> n < 2 ^ 64 \<and> x = b + of_nat n"
  by (auto simp: unat_of_nat unat_lt_2p64)

section \<open>String literals\<close>

definition bytes_of :: "string \<Rightarrow> uint8 list" where
  "bytes_of s = map (\<lambda>c. of_nat (of_char c)) s"

section \<open>Loops\<close>

text \<open>A counted loop whose body may panic or block.\<close>

primrec foldM :: "('i \<Rightarrow> 's \<Rightarrow> 's res) \<Rightarrow> 'i list \<Rightarrow> 's \<Rightarrow> 's res" where
  "foldM f [] s = Ret s"
| "foldM f (i # is) s = seq (f i s) (foldM f is)"

lemma foldM_append [simp]: "foldM f (is @ js) s = seq (foldM f is s) (foldM f js)"
  by (induction "is" arbitrary: s) (auto cong: seq_cong)

lemma foldM_invariant:
  assumes "foldM f is s = Ret s'" "P s"
    and "\<And>i s s'. i \<in> set is \<Longrightarrow> P s \<Longrightarrow> f i s = Ret s' \<Longrightarrow> P s'"
  shows "P s'"
  using assms
proof (induction "is" arbitrary: s)
  case (Cons i "is")
  then obtain s1 where "f i s = Ret s1" "foldM f is s1 = Ret s'" by (auto simp: seq_Ret_iff)
  then show ?case using Cons.IH [of s1] Cons.prems by auto
qed simp

section \<open>Sixty-four bit loads and stores\<close>

text \<open>Little-endian, as on RISC-V.\<close>

definition ld64 :: "memory \<Rightarrow> uint64 \<Rightarrow> uint64" where
  "ld64 m a =
     ucast (m a) OR push_bit 8 (ucast (m (a + 1))) OR push_bit 16 (ucast (m (a + 2)))
     OR push_bit 24 (ucast (m (a + 3))) OR push_bit 32 (ucast (m (a + 4)))
     OR push_bit 40 (ucast (m (a + 5))) OR push_bit 48 (ucast (m (a + 6)))
     OR push_bit 56 (ucast (m (a + 7)))"

definition st64 :: "memory \<Rightarrow> uint64 \<Rightarrow> uint64 \<Rightarrow> memory" where
  "st64 m a v = (\<lambda>x. if unat (x - a) < 8 then ucast (drop_bit (8 * unat (x - a)) v) else m x)"

lemma st64_other: "8 \<le> unat (x - a) \<Longrightarrow> st64 m a v x = m x"
  by (simp add: st64_def)

lemma bit_u8_ge: "8 \<le> i \<Longrightarrow> \<not> bit (b :: uint8) i"
  using bit_imp_le_length [of b i] by auto

lemma bit_ld64:
  assumes "n < 64"
  shows "bit (ld64 m a) n \<longleftrightarrow> bit (m (a + of_nat (n div 8))) (n mod 8)"
proof -
  define q r where "q = n div 8" and "r = n mod 8"
  have n: "n = 8 * q + r" and r: "r < 8" by (simp_all add: q_def r_def)
  have "q < 8" using assms by (simp add: q_def)
  then consider "q = 0" | "q = 1" | "q = 2" | "q = 3" | "q = 4" | "q = 5" | "q = 6" | "q = 7"
    by arith
  then have "bit (ld64 m a) (8 * q + r) \<longleftrightarrow> bit (m (a + of_nat q)) r"
    using r by cases (simp_all add: ld64_def bit_simps bit_u8_ge)
  then show ?thesis by (simp add: n flip: q_def r_def) (simp add: q_def r_def)
qed

lemma ld64_st64 [simp]: "ld64 (st64 m a v) a = v"
proof (rule bit_word_eqI)
  fix n assume "n < LENGTH(64)"
  then have n: "n < 64" by simp
  define q r where "q = n div 8" and "r = n mod 8"
  have nq: "n = 8 * q + r" and r: "r < 8" by (simp_all add: q_def r_def)
  have q: "q < 8" using n by (simp add: q_def)
  then have "unat (of_nat q :: uint64) = q" by (intro unat_of_nat_u64_small) simp
  then show "bit (ld64 (st64 m a v) a) n = bit v n"
    using n q r by (simp add: bit_ld64 st64_def bit_simps nq)
qed

lemma ld64_cong: "(\<And>i. i < 8 \<Longrightarrow> m (a + of_nat i) = m' (a + of_nat i)) \<Longrightarrow> ld64 m a = ld64 m' a"
proof -
  assume eq: "\<And>i. i < 8 \<Longrightarrow> m (a + of_nat i) = m' (a + of_nat i)"
  have "m a = m' a" "m (a + 1) = m' (a + 1)" "m (a + 2) = m' (a + 2)" "m (a + 3) = m' (a + 3)"
    "m (a + 4) = m' (a + 4)" "m (a + 5) = m' (a + 5)" "m (a + 6) = m' (a + 6)" "m (a + 7) = m' (a + 7)"
    using eq [of 0] eq [of 1] eq [of 2] eq [of 3] eq [of 4] eq [of 5] eq [of 6] eq [of 7] by simp_all
  then show ?thesis by (simp add: ld64_def)
qed

end
