(* ===== verification/Cstring.thy ===== *)
theory Cstring
  imports Kernel_Prelude
begin

text \<open>
  \<^verbatim>\<open>kernel/string.c\<close>: the byte-moving and string routines every other part of
  the kernel calls. Memory is a function from 64-bit addresses to bytes, pointers
  are addresses, and each loop is a recursion over the number of bytes left. The
  closed forms (\<open>memset_apply\<close>, \<open>memmove_apply\<close>) are what the other
  theories rewrite with.
\<close>

section \<open>Filling and comparing\<close>

function memset_from :: "memory \<Rightarrow> uint64 \<Rightarrow> uint8 \<Rightarrow> nat \<Rightarrow> nat \<Rightarrow> memory" where
  "memset_from m dst c i n =
     (if i < n then memset_from (m(dst + of_nat i := c)) dst c (Suc i) n else m)"
  by pat_completeness auto
termination
  by (relation "measure (\<lambda>(m, dst, c, i, n). n - i)") auto

definition memset :: "memory \<Rightarrow> uint64 \<Rightarrow> uint32 \<Rightarrow> uint32 \<Rightarrow> memory" where
  "memset m dst c n = memset_from m dst (ucast c) 0 (unat n)"

text \<open>The result is the C \<^verbatim>\<open>int\<close>: the difference of the first two bytes that differ.\<close>

primrec memcmp :: "memory \<Rightarrow> uint64 \<Rightarrow> uint64 \<Rightarrow> nat \<Rightarrow> int" where
  "memcmp m s1 s2 0 = 0"
| "memcmp m s1 s2 (Suc n) =
     (if m s1 \<noteq> m s2 then uint (m s1) - uint (m s2) else memcmp m (s1 + 1) (s2 + 1) n)"

section \<open>Moving\<close>

primrec copy_backward :: "memory \<Rightarrow> uint64 \<Rightarrow> uint64 \<Rightarrow> nat \<Rightarrow> memory" where
  "copy_backward m d s 0 = m"
| "copy_backward m d s (Suc n) = copy_backward (m(d - 1 := m (s - 1))) (d - 1) (s - 1) n"

primrec copy_forward :: "memory \<Rightarrow> uint64 \<Rightarrow> uint64 \<Rightarrow> nat \<Rightarrow> memory" where
  "copy_forward m d s 0 = m"
| "copy_forward m d s (Suc n) = copy_forward (m(d := m s)) (d + 1) (s + 1) n"

definition memmove :: "memory \<Rightarrow> uint64 \<Rightarrow> uint64 \<Rightarrow> uint32 \<Rightarrow> memory" where
  "memmove m dst src n =
     (if n = 0 then m
      else if src < dst \<and> src + ucast n > dst
      then copy_backward m (dst + ucast n) (src + ucast n) (unat n)
      else copy_forward m dst src (unat n))"

definition memcpy :: "memory \<Rightarrow> uint64 \<Rightarrow> uint64 \<Rightarrow> uint32 \<Rightarrow> memory" where
  "memcpy m dst src n = memmove m dst src n"

section \<open>Strings\<close>

primrec strncmp :: "memory \<Rightarrow> uint64 \<Rightarrow> uint64 \<Rightarrow> nat \<Rightarrow> int" where
  "strncmp m p q 0 = 0"
| "strncmp m p q (Suc n) =
     (if m p \<noteq> 0 \<and> m p = m q then strncmp m (p + 1) (q + 1) n
      else uint (m p) - uint (m q))"

primrec zero_rest :: "memory \<Rightarrow> uint64 \<Rightarrow> nat \<Rightarrow> memory" where
  "zero_rest m s 0 = m"
| "zero_rest m s (Suc n) = zero_rest (m(s := 0)) (s + 1) n"

primrec strncpy :: "memory \<Rightarrow> uint64 \<Rightarrow> uint64 \<Rightarrow> nat \<Rightarrow> memory" where
  "strncpy m s t 0 = m"
| "strncpy m s t (Suc n) =
     (let m' = m(s := m t)
      in if m t \<noteq> 0 then strncpy m' (s + 1) (t + 1) n else zero_rest m' (s + 1) n)"

text \<open>
  \<open>safestrcpy_loop\<close> is the loop entered with \<open>n\<close> bytes of the destination left,
  the last of which is kept for the terminator.
\<close>

fun safestrcpy_loop :: "memory \<Rightarrow> uint64 \<Rightarrow> uint64 \<Rightarrow> nat \<Rightarrow> memory" where
  "safestrcpy_loop m s t 0 = m"
| "safestrcpy_loop m s t (Suc 0) = m(s := 0)"
| "safestrcpy_loop m s t (Suc (Suc n)) =
     (let m' = m(s := m t)
      in if m t \<noteq> 0 then safestrcpy_loop m' (s + 1) (t + 1) (Suc n) else m'(s + 1 := 0))"

definition safestrcpy :: "memory \<Rightarrow> uint64 \<Rightarrow> uint64 \<Rightarrow> int \<Rightarrow> memory" where
  "safestrcpy m s t n = (if n \<le> 0 then m else safestrcpy_loop m s t (nat n))"

partial_function (option) strlen_from :: "memory \<Rightarrow> uint64 \<Rightarrow> nat \<Rightarrow> nat option" where
  "strlen_from m s n = (if m (s + of_nat n) = 0 then Some n else strlen_from m s (Suc n))"

definition strlen :: "memory \<Rightarrow> uint64 \<Rightarrow> nat option" where
  "strlen m s = strlen_from m s 0"

section \<open>Closed forms\<close>

declare memset_from.simps [simp del]

lemma memset_from_apply:
  "n \<le> 2 ^ 64 \<Longrightarrow>
   memset_from m dst c i n x = (if i \<le> unat (x - dst) \<and> unat (x - dst) < n then c else m x)"
proof (induction m dst c i n rule: memset_from.induct)
  case (1 m dst c i n)
  show ?case
  proof (cases "i < n")
    case True
    have "unat (x - dst) = i \<longleftrightarrow> x = dst + of_nat i"
      using True "1.prems" by (simp add: word_offset_eq)
    with True "1.IH" "1.prems" show ?thesis
      by (auto simp: memset_from.simps [of m dst c i n] fun_upd_def)
  next
    case False
    then show ?thesis by (auto simp: memset_from.simps [of m dst c i n])
  qed
qed

lemma memset_apply [mem_simps]:
  "memset m dst c n x = (if unat (x - dst) < unat n then ucast c else m x)"
proof -
  have "unat n \<le> 2 ^ 64" using less_imp_le [OF unat_lt_2p32 [of n]] by simp
  then show ?thesis by (simp add: memset_def memset_from_apply)
qed

lemma memset_eq [code]:
  "memset m dst c n = (\<lambda>x. if unat (x - dst) < unat n then ucast c else m x)"
  by (rule ext) (rule memset_apply)

lemma copy_forward_other:
  "(\<And>k. k < n \<Longrightarrow> x \<noteq> d + of_nat k) \<Longrightarrow> copy_forward m d s n x = m x"
proof (induction n arbitrary: m d s)
  case (Suc n)
  have "x \<noteq> d" using Suc.prems [of 0] by simp
  moreover have "x \<noteq> d + 1 + of_nat k" if "k < n" for k
    using Suc.prems [of "Suc k"] that by (simp add: algebra_simps)
  ultimately show ?case using Suc.IH by simp
qed simp

lemma copy_backward_other:
  "(\<And>k. k < n \<Longrightarrow> x \<noteq> d - of_nat (Suc k)) \<Longrightarrow> copy_backward m d s n x = m x"
proof (induction n arbitrary: m d s)
  case (Suc n)
  have "x \<noteq> d - 1" using Suc.prems [of 0] by simp
  moreover have "x \<noteq> d - 1 - of_nat (Suc k)" if "k < n" for k
    using Suc.prems [of "Suc k"] that by (simp add: algebra_simps)
  ultimately show ?case using Suc.IH by simp
qed simp

text \<open>
  A copy never reads a byte it has already overwritten: \<open>s + k \<noteq> d + j\<close> for the
  positions \<open>j\<close> written before position \<open>k\<close> is read.
\<close>

lemma copy_forward_at:
  "(\<And>j k. j < k \<Longrightarrow> k < n \<Longrightarrow> s + of_nat k \<noteq> d + of_nat j) \<Longrightarrow>
   (\<And>j k. j < k \<Longrightarrow> k < n \<Longrightarrow> d + of_nat k \<noteq> d + of_nat j) \<Longrightarrow>
   k < n \<Longrightarrow> copy_forward m d s n (d + of_nat k) = m (s + of_nat k)"
proof (induction n arbitrary: m d s k)
  case (Suc n)
  show ?case
  proof (cases k)
    case 0
    have "d \<noteq> d + 1 + of_nat j" if "j < n" for j
      using Suc.prems(2) [of 0 "Suc j"] that by (simp add: algebra_simps)
    then show ?thesis using 0 by (simp add: copy_forward_other)
  next
    case (Suc k')
    have shift: "s + 1 + of_nat k' \<noteq> d + 1 + of_nat j" if "j < k'" "k' < n" for j k'
      using Suc.prems(1) [of "Suc j" "Suc k'"] that by (simp add: algebra_simps)
    have dist: "d + 1 + of_nat k' \<noteq> d + 1 + of_nat j" if "j < k'" "k' < n" for j k'
      using Suc.prems(2) [of "Suc j" "Suc k'"] that by (simp add: algebra_simps)
    have k': "k' < n" using Suc \<open>k < Suc n\<close> by simp
    have "copy_forward (m(d := m s)) (d + 1) (s + 1) n (d + 1 + of_nat k')
        = (m(d := m s)) (s + 1 + of_nat k')"
      by (rule Suc.IH [OF shift dist k'])
    moreover have "s + of_nat (Suc k') \<noteq> d"
      using Suc.prems(1) [of 0 "Suc k'"] k' by simp
    ultimately show ?thesis using Suc by (simp add: algebra_simps)
  qed
qed simp

lemma copy_backward_at:
  "(\<And>j k. j < k \<Longrightarrow> k < n \<Longrightarrow> s - of_nat (Suc k) \<noteq> d - of_nat (Suc j)) \<Longrightarrow>
   (\<And>j k. j < k \<Longrightarrow> k < n \<Longrightarrow> d - of_nat (Suc k) \<noteq> d - of_nat (Suc j)) \<Longrightarrow>
   k < n \<Longrightarrow> copy_backward m d s n (d - of_nat (Suc k)) = m (s - of_nat (Suc k))"
proof (induction n arbitrary: m d s k)
  case (Suc n)
  show ?case
  proof (cases k)
    case 0
    have "d - 1 \<noteq> d - 1 - of_nat (Suc j)" if "j < n" for j
      using Suc.prems(2) [of 0 "Suc j"] that by (simp add: algebra_simps)
    then show ?thesis using 0 by (simp add: copy_backward_other)
  next
    case (Suc k')
    have shift: "s - 1 - of_nat (Suc k') \<noteq> d - 1 - of_nat (Suc j)" if "j < k'" "k' < n" for j k'
      using Suc.prems(1) [of "Suc j" "Suc k'"] that by (simp add: algebra_simps)
    have dist: "d - 1 - of_nat (Suc k') \<noteq> d - 1 - of_nat (Suc j)" if "j < k'" "k' < n" for j k'
      using Suc.prems(2) [of "Suc j" "Suc k'"] that by (simp add: algebra_simps)
    have k': "k' < n" using Suc \<open>k < Suc n\<close> by simp
    have "copy_backward (m(d - 1 := m (s - 1))) (d - 1) (s - 1) n (d - 1 - of_nat (Suc k'))
        = (m(d - 1 := m (s - 1))) (s - 1 - of_nat (Suc k'))"
      by (rule Suc.IH [OF shift dist k'])
    moreover have "s - 1 - of_nat (Suc k') \<noteq> d - 1"
      using Suc.prems(1) [of 0 "Suc k'"] k' by (simp add: algebra_simps)
    ultimately show ?thesis using Suc by (simp add: algebra_simps)
  qed
qed simp

lemma of_nat_u64_eq_iff:
  "j < 18446744073709551616 \<Longrightarrow> k < 18446744073709551616 \<Longrightarrow>
   (of_nat j :: uint64) = of_nat k \<longleftrightarrow> j = k"
  by (metis unat_of_nat_u64_small)

lemma unat_add_of_nat_u64:
  "unat (p :: uint64) + k < 18446744073709551616 \<Longrightarrow> unat (p + of_nat k) = unat p + k"
  by (simp add: unat_word_ariths unat_of_nat)

lemma ucast_u32_u64: "(ucast (n :: uint32) :: uint64) = of_nat (unat n)"
  by (simp add: unsigned_ucast_eq)

lemma memmove_at:
  fixes n :: uint32
  assumes src: "unat src + unat n < 2 ^ 64" and dst: "unat dst + unat n < 2 ^ 64"
    and i: "i < unat n"
  shows "memmove m dst src n (dst + of_nat i) = m (src + of_nat i)"
proof -
  define N where "N = unat n"
  have un: "(ucast n :: uint64) = of_nat N" by (simp only: N_def ucast_u32_u64)
  have N64: "N < 18446744073709551616"
    unfolding N_def by (rule order_less_trans [OF unat_lt_2p32]) simp
  have n0: "n \<noteq> 0" using i by auto
  have iN: "i < N" using i by (simp add: N_def)
  have s: "unat (src + of_nat k) = unat src + k" and d: "unat (dst + of_nat k) = unat dst + k"
    if "k \<le> N" for k
    using that src dst by (simp_all add: unat_add_of_nat_u64 N_def)
  have mm: "memmove m dst src n =
      (if src < dst \<and> src + of_nat N > dst
       then copy_backward m (dst + of_nat N) (src + of_nat N) N else copy_forward m dst src N)"
    using n0 un by (simp add: memmove_def N_def)
  have dist: "dst + of_nat k \<noteq> dst + of_nat j" if "j < k" "k < N" for j k
    using that N64 by (simp add: of_nat_u64_eq_iff)
  show ?thesis
  proof (cases "src < dst \<and> src + of_nat N > dst")
    case True
    then have lt: "unat src < unat dst" by (simp add: word_less_nat_alt)
    have bk: "p + of_nat N - of_nat (Suc k) = p + of_nat (N - Suc k)" if "k < N" for k and p :: "uint64"
      using that by (simp add: of_nat_diff)
    have "src + of_nat N - of_nat (Suc k) \<noteq> dst + of_nat N - of_nat (Suc j)" if jk: "j < k" "k < N" for j k
    proof -
      have "unat src + (N - Suc k) \<noteq> unat dst + (N - Suc j)" using lt jk by simp
      then have "src + of_nat (N - Suc k) \<noteq> dst + of_nat (N - Suc j)"
        using s [of "N - Suc k"] d [of "N - Suc j"] by (metis diff_le_self)
      then show ?thesis using bk jk by simp
    qed
    moreover have "dst + of_nat N - of_nat (Suc k) \<noteq> dst + of_nat N - of_nat (Suc j)"
      if "j < k" "k < N" for j k
      using dist [of j k] that by auto
    ultimately have "copy_backward m (dst + of_nat N) (src + of_nat N) N
        (dst + of_nat N - of_nat (Suc (N - Suc i))) = m (src + of_nat N - of_nat (Suc (N - Suc i)))"
      using iN by (intro copy_backward_at) auto
    moreover have "N - Suc i < N" "N - Suc (N - Suc i) = i" using iN by auto
    ultimately show ?thesis using True by (simp only: mm bk simp_thms if_True)
  next
    case False
    then have sep: "unat dst \<le> unat src \<or> unat src + N \<le> unat dst"
      using s [of N] by (auto simp: word_less_nat_alt)
    have "src + of_nat k \<noteq> dst + of_nat j" if jk: "j < k" "k < N" for j k
    proof -
      have "unat src + k \<noteq> unat dst + j" using sep jk by auto
      then show ?thesis using s [of k] d [of j] jk by (metis less_imp_le less_trans)
    qed
    then have "copy_forward m dst src N (dst + of_nat i) = m (src + of_nat i)"
      using iN dist by (intro copy_forward_at) auto
    then show ?thesis using False by (auto simp: mm)
  qed
qed

lemma memmove_other:
  assumes "unat n \<le> unat (x - dst)"
  shows "memmove m dst src n x = m x"
proof -
  define N where "N = unat n"
  have un: "(ucast n :: uint64) = of_nat N" by (simp only: N_def ucast_u32_u64)
  have N64: "N < 18446744073709551616"
    unfolding N_def by (rule order_less_trans [OF unat_lt_2p32]) simp
  have le: "N \<le> unat (x - dst)" using assms by (simp add: N_def)
  have ne: "x \<noteq> dst + of_nat k" if "k < N" for k
    using that le N64 by auto
  then have "copy_forward m dst src N x = m x"
    by (rule copy_forward_other)
  moreover have "x \<noteq> dst + of_nat N - of_nat (Suc k)" if "k < N" for k
    using ne [of "N - Suc k"] that by (simp add: of_nat_diff algebra_simps)
  then have "copy_backward m (dst + of_nat N) (src + of_nat N) N x = m x"
    by (rule copy_backward_other)
  ultimately show ?thesis by (simp add: memmove_def un N_def [symmetric])
qed

lemma memmove_apply [mem_simps]:
  assumes "unat src + unat n < 2 ^ 64" and "unat dst + unat n < 2 ^ 64"
  shows "memmove m dst src n x = (if unat (x - dst) < unat n then m (src + (x - dst)) else m x)"
proof (cases "unat (x - dst) < unat n")
  case True
  then have "memmove m dst src n (dst + of_nat (unat (x - dst))) = m (src + of_nat (unat (x - dst)))"
    using assms by (intro memmove_at)
  with True show ?thesis by simp
next
  case False
  then show ?thesis by (simp add: memmove_other)
qed

section \<open>What the string routines compute\<close>

text \<open>The C string at an address, seen through its first \<open>n\<close> bytes.\<close>

primrec cstr :: "memory \<Rightarrow> uint64 \<Rightarrow> nat \<Rightarrow> uint8 list" where
  "cstr m p 0 = []"
| "cstr m p (Suc n) = (if m p = 0 then [] else m p # cstr m (p + 1) n)"

lemma cstr_nonzero: "0 \<notin> set (cstr m p n)"
  by (induction n arbitrary: p) auto

lemma length_cstr: "length (cstr m p n) \<le> n"
  by (induction n arbitrary: p) auto

lemma uint8_eq_iff [simp]: "uint (a :: uint8) = uint b \<longleftrightarrow> a = b"
  by (metis word_of_int_uint)

lemma uint8_zero_iff [simp]: "uint (a :: uint8) = 0 \<longleftrightarrow> a = 0"
  using uint8_eq_iff [of a 0] by simp

lemma strncmp_zero_iff: "strncmp m p q n = 0 \<longleftrightarrow> cstr m p n = cstr m q n"
  by (induction n arbitrary: p q) auto

lemma memcmp_zero_iff: "memcmp m p q n = 0 \<longleftrightarrow> (\<forall>i<n. m (p + of_nat i) = m (q + of_nat i))"
proof (induction n arbitrary: p q)
  case (Suc n)
  have "(\<forall>i<Suc n. m (p + of_nat i) = m (q + of_nat i)) \<longleftrightarrow>
      m p = m q \<and> (\<forall>i<n. m (p + 1 + of_nat i) = m (q + 1 + of_nat i))"
    by (auto simp: All_less_Suc2 add.assoc)
  with Suc.IH show ?case by auto
qed simp

lemma strlen_from_returns:
  "m (s + of_nat (n + k)) = 0 \<Longrightarrow> (\<And>i. i < k \<Longrightarrow> m (s + of_nat (n + i)) \<noteq> 0) \<Longrightarrow>
   strlen_from m s n = Some (n + k)"
proof (induction k arbitrary: n)
  case 0
  then show ?case by (simp add: strlen_from.simps)
next
  case (Suc k)
  have "m (s + of_nat n) \<noteq> 0" using Suc.prems(2) [of 0] by simp
  moreover have "strlen_from m s (Suc n) = Some (Suc n + k)"
    using Suc.prems Suc.IH [of "Suc n"] by (metis Suc_less_eq add_Suc_shift)
  ultimately show ?case by (simp add: strlen_from.simps [of m s n])
qed

text \<open>The \<open>n\<close> bytes at an address, terminators included.\<close>

primrec bytes_at :: "memory \<Rightarrow> uint64 \<Rightarrow> nat \<Rightarrow> uint8 list" where
  "bytes_at m p 0 = []"
| "bytes_at m p (Suc n) = m p # bytes_at m (p + 1) n"

definition apart :: "uint64 \<Rightarrow> uint64 \<Rightarrow> nat \<Rightarrow> bool" where
  "apart s t n \<longleftrightarrow> (\<forall>i<n. \<forall>j<n. s + of_nat i \<noteq> t + of_nat j) \<and> n \<le> 2 ^ 64"

lemma apart_Suc: "apart s t (Suc n) \<Longrightarrow> apart (s + 1) (t + 1) n"
proof -
  assume a: "apart s t (Suc n)"
  have "s + 1 + of_nat i \<noteq> t + 1 + of_nat j" if "i < n" "j < n" for i j
  proof -
    have "s + of_nat (Suc i) \<noteq> t + of_nat (Suc j)" using a that unfolding apart_def by blast
    then show ?thesis by (simp add: add.assoc)
  qed
  with a show ?thesis by (simp add: apart_def)
qed

lemma apart_first: "apart s t (Suc n) \<Longrightarrow> j < Suc n \<Longrightarrow> s \<noteq> t + of_nat j"
proof -
  assume "apart s t (Suc n)" "j < Suc n"
  then have "s + of_nat 0 \<noteq> t + of_nat j" unfolding apart_def by blast
  then show ?thesis by simp
qed

lemma apart_self: "apart s t (Suc n) \<Longrightarrow> j < n \<Longrightarrow> s \<noteq> s + 1 + of_nat j"
proof
  assume "apart s t (Suc n)" and j: "j < n" and eq: "s = s + 1 + of_nat j"
  then have "Suc j < 18446744073709551616" by (simp add: apart_def)
  then have "unat (of_nat (Suc j) :: uint64) = Suc j" by (rule unat_of_nat_u64_small)
  moreover have "(of_nat (Suc j) :: uint64) = 0" using eq by (simp add: add.assoc)
  ultimately show False by simp
qed

lemma bytes_at_cong:
  "(\<And>i. i < n \<Longrightarrow> m (p + of_nat i) = m' (p + of_nat i)) \<Longrightarrow> bytes_at m p n = bytes_at m' p n"
proof (induction n arbitrary: p)
  case (Suc n)
  have "m p = m' p" using Suc.prems [of 0] by simp
  moreover have "bytes_at m (p + 1) n = bytes_at m' (p + 1) n"
  proof (rule Suc.IH)
    fix i assume "i < n"
    then show "m (p + 1 + of_nat i) = m' (p + 1 + of_nat i)"
      using Suc.prems [of "Suc i"] by (simp add: add.assoc)
  qed
  ultimately show ?case by simp
qed simp

lemma cstr_cong:
  "(\<And>i. i < n \<Longrightarrow> m (p + of_nat i) = m' (p + of_nat i)) \<Longrightarrow> cstr m p n = cstr m' p n"
proof (induction n arbitrary: p)
  case (Suc n)
  have "m p = m' p" using Suc.prems [of 0] by simp
  moreover have "cstr m (p + 1) n = cstr m' (p + 1) n"
  proof (rule Suc.IH)
    fix i assume "i < n"
    then show "m (p + 1 + of_nat i) = m' (p + 1 + of_nat i)"
      using Suc.prems [of "Suc i"] by (simp add: add.assoc)
  qed
  ultimately show ?case by simp
qed simp

lemma zero_rest_other: "(\<And>k. k < n \<Longrightarrow> x \<noteq> s + of_nat k) \<Longrightarrow> zero_rest m s n x = m x"
proof (induction n arbitrary: m s)
  case (Suc n)
  have "x \<noteq> s" using Suc.prems [of 0] by simp
  moreover have "x \<noteq> s + 1 + of_nat k" if "k < n" for k
    using Suc.prems [of "Suc k"] that by (simp add: add.assoc)
  ultimately show ?case using Suc.IH by simp
qed simp

lemma strncpy_other: "(\<And>k. k < n \<Longrightarrow> x \<noteq> s + of_nat k) \<Longrightarrow> strncpy m s t n x = m x"
proof (induction n arbitrary: m s t)
  case (Suc n)
  have "x \<noteq> s" using Suc.prems [of 0] by simp
  moreover have "x \<noteq> s + 1 + of_nat k" if "k < n" for k
    using Suc.prems [of "Suc k"] that by (simp add: add.assoc)
  ultimately show ?case using Suc.IH by (simp add: Let_def zero_rest_other)
qed simp

lemma zero_rest_bytes:
  "n < 2 ^ 64 \<Longrightarrow> bytes_at (zero_rest m s n) s n = replicate n 0"
proof (induction n arbitrary: m s)
  case (Suc n)
  have "s \<noteq> s + 1 + of_nat k" if "k < n" for k
  proof
    assume "s = s + 1 + of_nat k"
    then have "(of_nat (Suc k) :: uint64) = 0" by (simp add: add.assoc)
    moreover have "unat (of_nat (Suc k) :: uint64) = Suc k"
      using that Suc.prems by (intro unat_of_nat_u64_small) simp
    ultimately show False by simp
  qed
  then show ?case using Suc by (simp add: zero_rest_other)
qed simp

lemma strncpy_bytes:
  "apart s t n \<Longrightarrow>
   bytes_at (strncpy m s t n) s n = cstr m t n @ replicate (n - length (cstr m t n)) 0"
proof (induction n arbitrary: m s t)
  case (Suc n)
  let ?m' = "m(s := m t)"
  have self: "s \<noteq> s + 1 + of_nat k" if "k < n" for k
    using apart_self [OF Suc.prems that] .
  have src: "cstr ?m' (t + 1) n = cstr m (t + 1) n"
  proof (rule cstr_cong)
    fix i assume "i < n"
    then have "s \<noteq> t + of_nat (Suc i)" using apart_first [OF Suc.prems, of "Suc i"] by simp
    then show "?m' (t + 1 + of_nat i) = m (t + 1 + of_nat i)" by (simp add: add.assoc)
  qed
  show ?case
  proof (cases "m t = 0")
    case True
    have "n < 2 ^ 64" using Suc.prems by (simp add: apart_def)
    then show ?thesis
      using True self by (simp add: Let_def zero_rest_other zero_rest_bytes)
  next
    case False
    then show ?thesis
      using self src Suc.IH [OF apart_Suc [OF Suc.prems], of ?m'] by (simp add: Let_def strncpy_other fun_upd_def)
  qed
qed simp

lemma safestrcpy_loop_other:
  "(\<And>k. k < n \<Longrightarrow> x \<noteq> s + of_nat k) \<Longrightarrow> safestrcpy_loop m s t n x = m x"
proof (induction m s t n rule: safestrcpy_loop.induct)
  case (2 m s t)
  then show ?case using "2.prems" [of 0] by simp
next
  case (3 m s t n)
  have "x \<noteq> s" using "3.prems" [of 0] by simp
  moreover have tail: "x \<noteq> s + 1 + of_nat k" if "k < Suc n" for k
    using "3.prems" [of "Suc k"] that by (simp add: add.assoc)
  moreover have "x \<noteq> s + 1" using tail [of 0] by simp
  ultimately show ?case using "3.IH" by (auto simp: Let_def fun_upd_def)
qed simp

lemma safestrcpy_loop_cstr:
  "apart s t (Suc n) \<Longrightarrow> cstr (safestrcpy_loop m s t (Suc n)) s (Suc n) = cstr m t n"
proof (induction n arbitrary: m s t)
  case 0
  then show ?case by simp
next
  case (Suc n)
  let ?m' = "m(s := m t)"
  have self: "s \<noteq> s + 1 + of_nat k" if "k < Suc n" for k
    using apart_self [OF Suc.prems that] .
  have keep: "safestrcpy_loop ?m' (s + 1) (t + 1) (Suc n) s = m t"
    using self by (subst safestrcpy_loop_other) auto
  have src: "cstr ?m' (t + 1) n = cstr m (t + 1) n"
  proof (rule cstr_cong)
    fix i assume "i < n"
    then have "s \<noteq> t + of_nat (Suc i)" using apart_first [OF Suc.prems, of "Suc i"] by simp
    then show "?m' (t + 1 + of_nat i) = m (t + 1 + of_nat i)" by (simp add: add.assoc)
  qed
  have IH: "cstr (safestrcpy_loop ?m' (s + 1) (t + 1) (Suc n)) (s + 1) (Suc n) = cstr ?m' (t + 1) n"
    by (rule Suc.IH [OF apart_Suc [OF Suc.prems]])
  show ?case
  proof (cases "m t = 0")
    case True
    then show ?thesis by (simp add: Let_def)
  next
    case False
    have "cstr (safestrcpy_loop ?m' (s + 1) (t + 1) (Suc n)) s (Suc (Suc n)) = m t # cstr m (t + 1) n"
      unfolding cstr.simps(2) [of _ s] keep IH src using False by simp
    with False show ?thesis by (simp add: Let_def del: cstr.simps(2)) (simp)
  qed
qed

section \<open>Properties of the string routines\<close>

text \<open>C32. \<open>memmove\<close> copies as if through a temporary: for regions that do not wrap, overlapping or
  not, every destination byte is the source byte of before, and no other byte changes.\<close>

theorem memmove_moves:
  assumes "unat src + unat n < 2 ^ 64" "unat dst + unat n < 2 ^ 64"
  shows "memmove m dst src n =
    (\<lambda>x. if unat (x - dst) < unat n then m (src + (x - dst)) else m x)"
  using assms by (simp add: memmove_apply fun_eq_iff)

theorem memmove_moves_witness:
  "memmove (\<lambda>x. if x = 100 then 1 else if x = 101 then 2 else 0) 101 100 2 101 = 1 \<and>
   memmove (\<lambda>x. if x = 100 then 1 else if x = 101 then 2 else 0) 101 100 2 102 = 2"
  using memmove_moves [of 100 2 101 "\<lambda>x. if x = 100 then 1 else if x = 101 then 2 else 0"] by simp

text \<open>C33. \<open>safestrcpy\<close> into \<open>n > 0\<close> bytes leaves a terminated string there: the source string, cut to
  \<open>n - 1\<close> bytes. It writes nothing beyond the \<open>n\<close> bytes.\<close>

theorem safestrcpy_terminated:
  assumes "apart s t (Suc n)"
  shows "cstr (safestrcpy m s t (int (Suc n))) s (Suc n) = cstr m t n \<and>
    (\<forall>x. (\<forall>k < Suc n. x \<noteq> s + of_nat k) \<longrightarrow> safestrcpy m s t (int (Suc n)) x = m x)"
proof -
  have "safestrcpy m s t (int (Suc n)) = safestrcpy_loop m s t (Suc n)"
    by (simp only: safestrcpy_def nat_int) simp
  then show ?thesis using safestrcpy_loop_cstr [OF assms] safestrcpy_loop_other by metis
qed

theorem safestrcpy_terminated_witness:
  "cstr (safestrcpy (\<lambda>x. if x < 200 then 7 else 0) 200 100 3) 200 3 = [7, 7]"
proof -
  have "(200 :: uint64) + of_nat i \<noteq> 100 + of_nat j" if "i < 3" "j < 3" for i j
    using of_nat_u64_eq_iff [of "200 + i" "100 + j"] that by simp
  then have "apart 200 100 (Suc 2)" by (simp add: apart_def)
  from safestrcpy_terminated [OF this, of "\<lambda>x. if x < 200 then 7 else 0"]
  have "cstr (safestrcpy (\<lambda>x. if x < 200 then 7 else 0) 200 100 3) 200 3
      = cstr (\<lambda>x. if x < 200 then 7 else 0) 100 2" by simp
  also have "\<dots> = [7, 7]" unfolding numeral_2_eq_2 by simp
  finally show ?thesis .
qed

end
