(* ===== verification/Kalloc.thy ===== *)
theory Kalloc
  imports Cstring
begin

text \<open>
  \<^verbatim>\<open>kernel/kalloc.c\<close>: the allocator of 4096-byte physical pages. The free pages
  form a linked list threaded through the pages themselves (\<open>struct run\<close>), so the state
  is the byte memory, the head of the list, and the link-time symbol \<open>end\<close>. The
  invariant \<open>kmem_inv\<close> relates the pointers to an abstract list of free pages.
\<close>

section \<open>State and operations\<close>

definition PGSIZE :: uint64 where "PGSIZE = 4096"
definition KERNBASE :: uint64 where "KERNBASE = 0x80000000"
definition PHYSTOP :: uint64 where "PHYSTOP = KERNBASE + 128 * 1024 * 1024"

definition PGROUNDUP :: "uint64 \<Rightarrow> uint64" where
  "PGROUNDUP sz = (sz + PGSIZE - 1) AND NOT (PGSIZE - 1)"

definition PGROUNDDOWN :: "uint64 \<Rightarrow> uint64" where
  "PGROUNDDOWN a = a AND NOT (PGSIZE - 1)"

text \<open>\<open>kend\<close> is the symbol \<open>end\<close> of \<^verbatim>\<open>kernel.ld\<close>: no operation changes it.\<close>

record kmem =
  kmem_mem :: memory
  freelist :: uint64
  kend :: uint64

text \<open>The C code writes the page before it links it; \<open>r->next\<close> is the page's first word.\<close>

definition kfree :: "uint64 \<Rightarrow> kmem \<Rightarrow> kmem res" where
  "kfree pa s =
     (if pa mod PGSIZE \<noteq> 0 \<or> pa < kend s \<or> pa \<ge> PHYSTOP then Panic ''kfree''
      else let m = memset (kmem_mem s) pa 1 (ucast PGSIZE);
               m = st64 m pa (freelist s)
           in Ret (s\<lparr>kmem_mem := m, freelist := pa\<rparr>))"

definition kalloc :: "kmem \<Rightarrow> uint64 \<times> kmem" where
  "kalloc s =
     (let r = freelist s;
          s = (if r \<noteq> 0 then s\<lparr>freelist := ld64 (kmem_mem s) r\<rparr> else s);
          s = (if r \<noteq> 0 then s\<lparr>kmem_mem := memset (kmem_mem s) r 5 (ucast PGSIZE)\<rparr> else s)
      in (r, s))"

text \<open>The pointer comparison \<open>p + PGSIZE <= pa_end\<close>, on addresses that do not wrap.\<close>

function freerange_from :: "uint64 \<Rightarrow> uint64 \<Rightarrow> kmem \<Rightarrow> kmem res" where
  "freerange_from p pa_end s =
     (if unat p + unat PGSIZE \<le> unat pa_end
      then seq (kfree p s) (freerange_from (p + PGSIZE) pa_end)
      else Ret s)"
  by pat_completeness auto
termination
proof (relation "measure (\<lambda>(p, pa_end, s). unat pa_end - unat p)", goal_cases)
  case (2 p pa_end s s')
  have "unat p + 4096 < 18446744073709551616"
    using 2 unat_lt_2p64 [of pa_end] by (simp add: PGSIZE_def)
  then have "unat (p + PGSIZE) = unat p + 4096" by (simp add: PGSIZE_def unat_word_ariths)
  with 2 show ?case by (simp add: PGSIZE_def)
qed simp

declare freerange_from.simps [simp del]

definition freerange :: "uint64 \<Rightarrow> uint64 \<Rightarrow> kmem \<Rightarrow> kmem res" where
  "freerange pa_start pa_end s = freerange_from (PGROUNDUP pa_start) pa_end s"

definition kinit :: "kmem \<Rightarrow> kmem res" where
  "kinit s = freerange (kend s) PHYSTOP s"

partial_function (option) countpages_from :: "memory \<Rightarrow> uint64 \<Rightarrow> nat \<Rightarrow> nat option" where
  "countpages_from m r count =
     (if r \<noteq> 0 then countpages_from m (ld64 m r) (count + 1) else Some count)"

definition countpages :: "kmem \<Rightarrow> nat option" where
  "countpages s = countpages_from (kmem_mem s) (freelist s) 0"

section \<open>Pages\<close>

definition page_aligned :: "uint64 \<Rightarrow> bool" where
  "page_aligned p \<longleftrightarrow> p mod PGSIZE = 0"

definition pgno :: "uint64 \<Rightarrow> nat" where
  "pgno x = unat x div 4096"

lemma page_aligned_unat: "page_aligned p \<longleftrightarrow> unat p mod 4096 = 0"
  by (simp add: page_aligned_def PGSIZE_def word_unat_eq_iff unat_mod_distrib)

lemma page_aligned_pgno: "page_aligned p \<Longrightarrow> unat p = 4096 * pgno p"
  by (auto simp: page_aligned_unat pgno_def)

lemma page_aligned_bound: "page_aligned p \<Longrightarrow> unat p + 4096 \<le> 18446744073709551616"
  using page_aligned_pgno [of p] unat_lt_2p64 [of p] by simp

lemma pgno_inj: "page_aligned p \<Longrightarrow> page_aligned q \<Longrightarrow> pgno p = pgno q \<longleftrightarrow> p = q"
  by (metis page_aligned_pgno word_unat_eq_iff)

lemma in_page_iff:
  assumes "page_aligned p"
  shows "unat (x - p) < 4096 \<longleftrightarrow> pgno x = pgno p"
proof
  assume lt: "unat (x - p) < 4096"
  have x: "x = p + of_nat (unat (x - p))" by simp
  have "unat (p + of_nat (unat (x - p))) = unat p + unat (x - p)"
    using lt page_aligned_bound [OF assms] by (intro unat_add_of_nat_u64) simp
  then have "unat x = 4096 * pgno p + unat (x - p)"
    using x page_aligned_pgno [OF assms] by simp
  then show "pgno x = pgno p" using lt by (simp add: pgno_def)
next
  assume eq: "pgno x = pgno p"
  have "unat p = 4096 * pgno x" using page_aligned_pgno [OF assms] by (simp only: eq)
  then have p: "unat p = 4096 * (unat x div 4096)" by (simp only: pgno_def)
  then have "unat p \<le> unat x" by simp
  then have "unat (x - p) = unat x - unat p" by (simp add: unat_sub word_le_nat_alt)
  also have "\<dots> = unat x mod 4096" by (simp only: p minus_mult_div_eq_mod)
  also have "\<dots> < 4096" by simp
  finally show "unat (x - p) < 4096" .
qed

lemma ucast_PGSIZE [simp]: "ucast PGSIZE = (4096 :: uint32)"
  by (simp add: PGSIZE_def)

lemma memset_page:
  "page_aligned p \<Longrightarrow> memset m p c 4096 x = (if pgno x = pgno p then ucast c else m x)"
  by (simp add: memset_apply in_page_iff)

lemma pgno_offset: "page_aligned p \<Longrightarrow> i < 4096 \<Longrightarrow> pgno (p + of_nat i) = pgno p"
  by (subst in_page_iff [symmetric]) simp_all

lemma slot_in_page:
  "page_aligned p \<Longrightarrow> i < 512 \<Longrightarrow> j < 8 \<Longrightarrow> pgno (p + 8 * of_nat i + of_nat j) = pgno p"
  using pgno_offset [of p "8 * i + j"] by (simp add: add.assoc)

lemma st64_slot_other_page:
  assumes "page_aligned p" "i < 512" "pgno x \<noteq> pgno p"
  shows "st64 m (p + 8 * of_nat i) v x = m x"
proof (rule st64_other, rule ccontr)
  define d where "d = unat (x - (p + 8 * of_nat i))"
  assume "\<not> 8 \<le> unat (x - (p + 8 * of_nat i))"
  then have "d < 8" by (simp add: d_def)
  moreover have "x = p + 8 * of_nat i + of_nat d" by (simp add: d_def)
  ultimately have "pgno x = pgno p" using slot_in_page [OF assms(1,2)] by simp
  with assms(3) show False ..
qed

lemma st64_page_other: "page_aligned p \<Longrightarrow> pgno x \<noteq> pgno p \<Longrightarrow> st64 m p v x = m x"
  using st64_slot_other_page [of p 0] by simp

lemma ld64_slot_cong:
  assumes "page_aligned p" "i < 512" "\<And>x. pgno x = pgno p \<Longrightarrow> m x = m' x"
  shows "ld64 m (p + 8 * of_nat i) = ld64 m' (p + 8 * of_nat i)"
  using assms slot_in_page by (intro ld64_cong) auto

lemma ld64_page_cong:
  "page_aligned p \<Longrightarrow> (\<And>x. pgno x = pgno p \<Longrightarrow> m x = m' x) \<Longrightarrow> ld64 m p = ld64 m' p"
  using ld64_slot_cong [of p 0 m m'] by simp

section \<open>The free list\<close>

primrec flist :: "memory \<Rightarrow> uint64 \<Rightarrow> uint64 list \<Rightarrow> bool" where
  "flist m p [] \<longleftrightarrow> p = 0"
| "flist m p (a # as) \<longleftrightarrow> p = a \<and> a \<noteq> 0 \<and> flist m (ld64 m a) as"

definition page_ok :: "kmem \<Rightarrow> uint64 \<Rightarrow> bool" where
  "page_ok s p \<longleftrightarrow> page_aligned p \<and> kend s \<le> p \<and> p < PHYSTOP"

definition kmem_inv :: "kmem \<Rightarrow> uint64 list \<Rightarrow> bool" where
  "kmem_inv s ps \<longleftrightarrow>
     flist (kmem_mem s) (freelist s) ps \<and> distinct ps \<and> (\<forall>p \<in> set ps. page_ok s p) \<and> kend s \<noteq> 0"

lemma page_ok_nonzero: "kend s \<noteq> 0 \<Longrightarrow> page_ok s p \<Longrightarrow> p \<noteq> 0"
  by (auto simp: page_ok_def)

lemma flist_cong:
  "flist m p ps \<Longrightarrow> \<forall>a \<in> set ps. page_aligned a \<Longrightarrow>
   (\<And>a x. a \<in> set ps \<Longrightarrow> pgno x = pgno a \<Longrightarrow> m x = m' x) \<Longrightarrow> flist m' p ps"
proof (induction ps arbitrary: p)
  case (Cons a ps)
  then have "ld64 m a = ld64 m' a" by (intro ld64_page_cong) auto
  with Cons show ?case by auto
qed simp

lemma kmem_inv_same_pages:
  assumes "kmem_inv s ps" "freelist s' = freelist s" "kend s' = kend s"
    and "\<And>a x. a \<in> set ps \<Longrightarrow> pgno x = pgno a \<Longrightarrow> kmem_mem s x = kmem_mem s' x"
  shows "kmem_inv s' ps"
  using assms flist_cong [of "kmem_mem s" "freelist s" ps "kmem_mem s'"]
  by (auto simp: kmem_inv_def page_ok_def)

lemma kalloc_empty: "kmem_inv s [] \<Longrightarrow> kalloc s = (0, s)"
  by (simp add: kmem_inv_def kalloc_def)

lemma kalloc_cons:
  assumes inv: "kmem_inv s (p # ps)"
  obtains s' where "kalloc s = (p, s')" "kmem_inv s' ps" "kend s' = kend s"
    "\<forall>x. kmem_mem s' x = (if pgno x = pgno p then 5 else kmem_mem s x)"
    "p \<noteq> 0" "page_ok s p" "p \<notin> set ps"
proof -
  let ?m = "memset (kmem_mem s) p 5 4096"
  let ?s = "s\<lparr>freelist := ld64 (kmem_mem s) p, kmem_mem := ?m\<rparr>"
  from inv have fl: "freelist s = p" "flist (kmem_mem s) (ld64 (kmem_mem s) p) ps"
    and ok: "page_ok s p" "\<forall>q \<in> set ps. page_ok s q" and nin: "p \<notin> set ps" "distinct ps"
    and nz: "p \<noteq> 0" "kend s \<noteq> 0" by (auto simp: kmem_inv_def)
  have al: "page_aligned p" "\<forall>q \<in> set ps. page_aligned q" using ok by (auto simp: page_ok_def)
  have mem: "?m x = (if pgno x = pgno p then 5 else kmem_mem s x)" for x
    using memset_page [OF al(1), of "kmem_mem s" 5 x] by simp
  have "flist ?m (ld64 (kmem_mem s) p) ps"
    using al nin by (intro flist_cong [OF fl(2)]) (auto simp: mem pgno_inj)
  then have "kmem_inv ?s ps" using ok nin nz by (auto simp: kmem_inv_def page_ok_def)
  moreover have "kalloc s = (p, ?s)" using fl nz by (simp add: kalloc_def Let_def)
  ultimately show ?thesis using that [of ?s] mem nz ok nin by simp
qed

lemma kfree_ok:
  assumes inv: "kmem_inv s ps" and ok: "page_ok s p" and nin: "p \<notin> set ps"
  obtains s' where "kfree p s = Ret s'" "kmem_inv s' (p # ps)" "kend s' = kend s"
    "\<forall>x. pgno x \<noteq> pgno p \<longrightarrow> kmem_mem s' x = kmem_mem s x"
proof -
  let ?m = "st64 (memset (kmem_mem s) p 1 4096) p (freelist s)"
  let ?s = "s\<lparr>kmem_mem := ?m, freelist := p\<rparr>"
  have al: "page_aligned p" "\<forall>q \<in> set ps. page_aligned q"
    using ok inv by (auto simp: kmem_inv_def page_ok_def)
  have mem: "?m x = kmem_mem s x" if "pgno x \<noteq> pgno p" for x
    using that al by (simp add: st64_page_other memset_page)
  have "kfree p s = Ret ?s"
    using ok by (auto simp: kfree_def page_ok_def page_aligned_def Let_def)
  moreover have "flist ?m (freelist s) ps"
  proof (rule flist_cong)
    show "flist (kmem_mem s) (freelist s) ps" using inv by (simp add: kmem_inv_def)
    show "kmem_mem s x = ?m x" if "a \<in> set ps" "pgno x = pgno a" for a x
      using that nin al pgno_inj [of a p] by (intro mem [symmetric]) auto
  qed (rule al)
  then have "kmem_inv ?s (p # ps)"
    using inv ok nin page_ok_nonzero [of s p] by (auto simp: kmem_inv_def page_ok_def)
  ultimately show ?thesis using that [of ?s] mem by simp
qed

lemma kfree_panics: "\<not> page_ok s p \<Longrightarrow> kfree p s = Panic ''kfree''"
  by (cases "p mod PGSIZE = 0"; simp add: kfree_def page_ok_def page_aligned_def not_le not_less)

lemma countpages_from_flist:
  "flist m p ps \<Longrightarrow> countpages_from m p n = Some (n + length ps)"
proof (induction ps arbitrary: p n)
  case Nil
  then show ?case by (subst countpages_from.simps) simp
next
  case (Cons a ps)
  then show ?case by (subst countpages_from.simps) simp
qed

lemma countpages_inv: "kmem_inv s ps \<Longrightarrow> countpages s = Some (length ps)"
  using countpages_from_flist [of "kmem_mem s" "freelist s" ps 0]
  by (simp add: countpages_def kmem_inv_def)

section \<open>Rounding, and the free list that \<open>kinit\<close> builds\<close>

lemma and_4095_unat: "unat (a AND 4095 :: uint64) = unat a mod 4096"
proof -
  have "(4095 :: uint64) = mask 12" by (simp add: mask_eq_exp_minus_1)
  then have "a AND 4095 = take_bit 12 a" by (simp add: take_bit_eq_mask)
  then show ?thesis by (simp add: take_bit_eq_mod unat_mod_distrib)
qed

lemma and_not_minus: "a AND NOT b = a - (a AND b :: uint64)"
proof -
  have "a AND NOT b = a AND NOT (a AND b)" by (rule bit_eqI) (auto simp: bit_and_iff bit_not_iff bit_or_iff)
  also have "\<dots> = a - (a AND b)" by (rule disjunctive_diff [symmetric]) (simp add: bit_and_iff)
  finally show ?thesis .
qed

lemma PGROUNDDOWN_unat: "unat (PGROUNDDOWN a) = unat a div 4096 * 4096"
proof -
  have "PGROUNDDOWN a = a - (a AND 4095)"
    unfolding PGROUNDDOWN_def PGSIZE_def and_not_minus by simp
  moreover have "a AND 4095 \<le> a" by (simp add: word_le_nat_alt and_4095_unat)
  ultimately show ?thesis by (simp add: unat_sub and_4095_unat minus_mod_eq_div_mult)
qed

lemma PGROUNDUP_unat:
  "unat a + 4095 < 18446744073709551616 \<Longrightarrow> unat (PGROUNDUP a) = (unat a + 4095) div 4096 * 4096"
proof -
  assume "unat a + 4095 < 18446744073709551616"
  then have "unat (a + 4095) = unat a + 4095" by (simp add: unat_word_ariths)
  moreover have "PGROUNDUP a = PGROUNDDOWN (a + 4095)"
    by (simp add: PGROUNDUP_def PGROUNDDOWN_def PGSIZE_def add.commute)
  ultimately show ?thesis by (simp add: PGROUNDDOWN_unat)
qed

lemma page_aligned_PGROUNDDOWN [simp]: "page_aligned (PGROUNDDOWN a)"
  by (simp add: page_aligned_unat PGROUNDDOWN_unat)

lemma page_aligned_PGROUNDUP [simp]: "page_aligned (PGROUNDUP a)"
  using page_aligned_PGROUNDDOWN [of "a + 4095"]
  by (simp add: PGROUNDUP_def PGROUNDDOWN_def PGSIZE_def add.commute)

lemma roundup_le_iff: "(n + 4095) div 4096 * 4096 \<le> 4096 * k \<longleftrightarrow> n \<le> 4096 * (k :: nat)"
proof -
  have "(n + 4095) div 4096 * 4096 \<le> 4096 * k \<longleftrightarrow> (n + 4095) div 4096 < Suc k" by auto
  also have "\<dots> \<longleftrightarrow> n + 4095 < Suc k * 4096" by (simp only: div_less_iff_less_mult)
  finally show ?thesis by auto
qed

lemma PGROUNDUP_le_iff:
  "unat a + 4095 < 18446744073709551616 \<Longrightarrow> page_aligned q \<Longrightarrow> PGROUNDUP a \<le> q \<longleftrightarrow> a \<le> q"
  using roundup_le_iff [of "unat a" "pgno q"] page_aligned_pgno [of q]
  by (simp add: word_le_nat_alt PGROUNDUP_unat)

definition pages_from :: "uint64 \<Rightarrow> uint64 set" where
  "pages_from p = {q. page_aligned q \<and> p \<le> q \<and> q < PHYSTOP}"

lemma unat_PHYSTOP: "unat PHYSTOP = 2281701376"
  by (simp add: PHYSTOP_def KERNBASE_def)

lemma pages_from_step:
  assumes "page_aligned p" "unat p + 4096 \<le> 2281701376"
  shows "unat (p + PGSIZE) = unat p + 4096" "page_aligned (p + PGSIZE)"
    "pages_from p = insert p (pages_from (p + PGSIZE))"
proof -
  show u: "unat (p + PGSIZE) = unat p + 4096"
    using assms(2) by (simp add: PGSIZE_def unat_word_ariths)
  then show al: "page_aligned (p + PGSIZE)"
    using assms(1) by (simp add: page_aligned_unat)
  have "p + PGSIZE \<le> q \<longleftrightarrow> p \<le> q \<and> q \<noteq> p" if "page_aligned q" for q
    using page_aligned_pgno [OF that] page_aligned_pgno [OF assms(1)] u
    by (auto simp: word_le_nat_alt word_unat_eq_iff)
  then show "pages_from p = insert p (pages_from (p + PGSIZE))"
    using assms by (auto simp: pages_from_def word_less_nat_alt unat_PHYSTOP)
qed

lemma pages_from_end:
  assumes "page_aligned p" "\<not> unat p + 4096 \<le> 2281701376"
  shows "pages_from p = {}"
proof -
  have "2281701376 = 4096 * (557056 :: nat)" by simp
  then have "557056 \<le> pgno p" using assms page_aligned_pgno [OF assms(1)] by linarith
  then show ?thesis
    using page_aligned_pgno [OF assms(1)]
    by (auto simp: pages_from_def word_le_nat_alt word_less_nat_alt unat_PHYSTOP)
qed

lemma freerange_from_all:
  "page_aligned p \<Longrightarrow> kend s \<le> p \<Longrightarrow> kmem_inv s ps \<Longrightarrow> \<forall>q \<in> set ps. q < p \<Longrightarrow>
   \<exists>s' ps'. freerange_from p PHYSTOP s = Ret s' \<and> kmem_inv s' ps' \<and> kend s' = kend s \<and>
     set ps' = set ps \<union> pages_from p"
proof (induction p PHYSTOP s arbitrary: ps rule: freerange_from.induct)
  case (1 p s)
  show ?case
  proof (cases "unat p + unat PGSIZE \<le> unat PHYSTOP")
    case True
    then have p: "unat p + 4096 \<le> 2281701376" by (simp add: PGSIZE_def unat_PHYSTOP)
    note step = pages_from_step [OF 1(2) p]
    have "page_ok s p" using 1 p by (simp add: page_ok_def unat_PHYSTOP word_less_nat_alt)
    moreover have "p \<notin> set ps" using 1 by auto
    ultimately obtain s' where s': "kfree p s = Ret s'" "kmem_inv s' (p # ps)" "kend s' = kend s"
      using kfree_ok [OF 1(4)] by metis
    have "\<exists>t ps'. freerange_from (p + PGSIZE) PHYSTOP s' = Ret t \<and> kmem_inv t ps' \<and>
        kend t = kend s' \<and> set ps' = set (p # ps) \<union> pages_from (p + PGSIZE)"
    proof (rule 1(1) [OF True s'(1) step(2)])
      show "kend s' \<le> p + PGSIZE" using 1 s' step(1) by (simp add: word_le_nat_alt)
      show "\<forall>q \<in> set (p # ps). q < p + PGSIZE"
        using 1 step(1) by (auto simp: word_less_nat_alt)
    qed (rule s')
    then show ?thesis using True s'(1,3) step(3) by (simp add: freerange_from.simps [of p])
  next
    case False
    then have "pages_from p = {}"
      using 1 by (intro pages_from_end) (auto simp: PGSIZE_def unat_PHYSTOP)
    then show ?thesis using False 1(4) by (auto simp: freerange_from.simps [of p])
  qed
qed

lemma kinit_all:
  assumes "freelist s = 0" "kend s \<noteq> 0" "kend s \<le> PHYSTOP"
  obtains s' ps where "kinit s = Ret s'" "kmem_inv s' ps" "kend s' = kend s"
    "set ps = {p. page_ok s p}"
proof -
  have le: "unat (kend s) + 4095 < 18446744073709551616"
    using assms(3) by (simp add: word_le_nat_alt unat_PHYSTOP)
  have "kmem_inv s []" using assms by (simp add: kmem_inv_def)
  moreover have "kend s \<le> PGROUNDUP (kend s)"
    using PGROUNDUP_le_iff [OF le page_aligned_PGROUNDUP, of "kend s"] by simp
  ultimately obtain s' ps where "kinit s = Ret s'" "kmem_inv s' ps" "kend s' = kend s"
      "set ps = pages_from (PGROUNDUP (kend s))"
    using freerange_from_all [of "PGROUNDUP (kend s)" s "[]"]
    by (auto simp: kinit_def freerange_def)
  moreover have "pages_from (PGROUNDUP (kend s)) = {p. page_ok s p}"
    using PGROUNDUP_le_iff [OF le] by (auto simp: pages_from_def page_ok_def)
  ultimately show ?thesis using that by simp
qed

section \<open>The interface the page-table code relies on\<close>

text \<open>
  A client of the allocator sees the list of free pages, that allocating takes the first of
  them, that freeing puts a page back, and that neither changes the bytes of another page.
\<close>

locale page_allocator =
  fixes inv :: "'s \<Rightarrow> uint64 list \<Rightarrow> bool"
    and alloc :: "'s \<Rightarrow> uint64 \<times> 's"
    and free :: "uint64 \<Rightarrow> 's \<Rightarrow> 's res"
    and mem :: "'s \<Rightarrow> memory"
    and ok :: "'s \<Rightarrow> uint64 \<Rightarrow> bool"
  assumes alloc_none: "inv s [] \<Longrightarrow> alloc s = (0, s)"
    and alloc_some: "inv s (p # ps) \<Longrightarrow>
      \<exists>s'. alloc s = (p, s') \<and> inv s' ps \<and> ok s' = ok s \<and>
        (\<forall>x. pgno x \<noteq> pgno p \<longrightarrow> mem s' x = mem s x)"
    and free_ok: "inv s ps \<Longrightarrow> ok s p \<Longrightarrow> p \<notin> set ps \<Longrightarrow>
      \<exists>s'. free p s = Ret s' \<and> inv s' (p # ps) \<and> ok s' = ok s \<and>
        (\<forall>x. pgno x \<noteq> pgno p \<longrightarrow> mem s' x = mem s x)"
    and inv_pages: "inv s ps \<Longrightarrow> distinct ps \<and> (\<forall>p \<in> set ps. ok s p)"
    and ok_page: "ok s p \<Longrightarrow> inv s ps \<Longrightarrow> page_aligned p \<and> p \<noteq> 0"
begin

lemma alloc_cases:
  assumes "inv s ps"
  obtains "ps = []" "alloc s = (0, s)"
  | p ps' s' where "ps = p # ps'" "alloc s = (p, s')" "inv s' ps'" "ok s' = ok s" "ok s p"
      "p \<noteq> 0" "page_aligned p" "p \<notin> set ps'" "\<And>x. pgno x \<noteq> pgno p \<Longrightarrow> mem s' x = mem s x"
proof (cases ps)
  case Nil
  with assms alloc_none that(1) show ?thesis by blast
next
  case (Cons p ps')
  with assms inv_pages have "ok s p" "p \<notin> set ps'" by fastforce+
  with assms alloc_some [of s p ps'] ok_page that(2) Cons show ?thesis by blast
qed

lemma alloc_then_free:
  assumes "inv s ps" "alloc s = (p, s')" "p \<noteq> 0"
  shows "\<exists>s''. free p s' = Ret s'' \<and> inv s'' ps"
  using assms(1)
proof (cases rule: alloc_cases)
  case (2 q ps' t)
  with assms free_ok [of s' ps' p] show ?thesis by auto
qed (use assms in simp)

lemma alloc_takes_free_page:
  assumes "inv s ps" "alloc s = (p, s')"
  shows "p = 0 \<and> ps = [] \<or> ps = p # tl ps \<and> inv s' (tl ps) \<and> p \<notin> set (tl ps)"
  using assms(1) by (cases rule: alloc_cases) (use assms in auto)

end

interpretation kp: page_allocator kmem_inv kalloc kfree kmem_mem page_ok
proof unfold_locales
  fix s p ps
  show "kmem_inv s [] \<Longrightarrow> kalloc s = (0, s)" by (rule kalloc_empty)
next
  fix s p ps assume "kmem_inv s (p # ps)"
  then obtain s' where "kalloc s = (p, s')" "kmem_inv s' ps" "kend s' = kend s"
      "\<forall>x. kmem_mem s' x = (if pgno x = pgno p then 5 else kmem_mem s x)"
      "p \<noteq> 0" "page_ok s p" "p \<notin> set ps"
    by (rule kalloc_cons)
  then show "\<exists>s'. kalloc s = (p, s') \<and> kmem_inv s' ps \<and> page_ok s' = page_ok s \<and>
      (\<forall>x. pgno x \<noteq> pgno p \<longrightarrow> kmem_mem s' x = kmem_mem s x)"
    by (auto simp: page_ok_def fun_eq_iff)
next
  fix s p ps assume "kmem_inv s ps" "page_ok s p" "p \<notin> set ps"
  then obtain s' where "kfree p s = Ret s'" "kmem_inv s' (p # ps)" "kend s' = kend s"
      "\<forall>x. pgno x \<noteq> pgno p \<longrightarrow> kmem_mem s' x = kmem_mem s x"
    by (rule kfree_ok)
  then show "\<exists>s'. kfree p s = Ret s' \<and> kmem_inv s' (p # ps) \<and> page_ok s' = page_ok s \<and>
      (\<forall>x. pgno x \<noteq> pgno p \<longrightarrow> kmem_mem s' x = kmem_mem s x)"
    by (auto simp: page_ok_def fun_eq_iff)
qed (auto simp: kmem_inv_def page_ok_def)

section \<open>Properties of the allocator\<close>

text \<open>C23. Starting from an empty free list, \<open>kinit\<close> returns, and the free list it leaves holds
  every whole page between \<open>end\<close> and \<open>PHYSTOP\<close>, each exactly once; \<open>countpages\<close> then
  returns their number.\<close>

theorem kinit_frees_all_memory:
  assumes "freelist s = 0" "kend s \<noteq> 0" "kend s \<le> PHYSTOP"
  shows "\<exists>s' ps. kinit s = Ret s' \<and> kmem_inv s' ps \<and>
    set ps = {p. p mod PGSIZE = 0 \<and> kend s \<le> p \<and> p < PHYSTOP} \<and>
    countpages s' = Some (card {p. p mod PGSIZE = 0 \<and> kend s \<le> p \<and> p < PHYSTOP})"
proof -
  obtain s' ps where "kinit s = Ret s'" and inv: "kmem_inv s' ps" and "set ps = {p. page_ok s p}"
    using kinit_all [OF assms] by metis
  moreover have "countpages s' = Some (length ps)" "card (set ps) = length ps"
    using inv by (simp_all add: countpages_inv kmem_inv_def distinct_card)
  ultimately show ?thesis by (auto simp: page_ok_def page_aligned_def)
qed

theorem kinit_frees_all_memory_witness:
  "\<exists>s' ps. kinit \<lparr>kmem_mem = (\<lambda>_. 0), freelist = 0, kend = 0x80021D60\<rparr> = Ret s' \<and>
    kmem_inv s' ps \<and> set ps = {p. p mod PGSIZE = 0 \<and> 0x80021D60 \<le> p \<and> p < PHYSTOP} \<and>
    countpages s' = Some (card {p. p mod PGSIZE = 0 \<and> 0x80021D60 \<le> p \<and> p < PHYSTOP})"
  using kinit_frees_all_memory [of "\<lparr>kmem_mem = (\<lambda>_. 0), freelist = 0, kend = 0x80021D60\<rparr>"]
  by (simp add: PHYSTOP_def KERNBASE_def)

text \<open>C15. A page that \<open>kalloc\<close> returns is a free page of the managed range and is off the list
  afterwards, its bytes are the junk value 5, no other page's byte changes, and \<open>kfree\<close>
  of it does not panic and restores the list.\<close>

theorem kalloc_kfree:
  assumes "kmem_inv s ps" "kalloc s = (p, s')" "p \<noteq> 0"
  shows "ps = p # tl ps \<and> page_ok s p \<and> kmem_inv s' (tl ps) \<and> p \<notin> set (tl ps) \<and>
    (\<forall>x. kmem_mem s' x = (if pgno x = pgno p then 5 else kmem_mem s x)) \<and>
    (\<exists>s''. kfree p s' = Ret s'' \<and> kmem_inv s'' ps)"
proof -
  obtain qs where ps: "ps = p # qs" using kp.alloc_takes_free_page [OF assms(1,2)] assms(3) by metis
  then obtain t where t: "kalloc s = (p, t)" "kmem_inv t qs" "kend t = kend s"
      "\<forall>x. kmem_mem t x = (if pgno x = pgno p then 5 else kmem_mem s x)"
      "p \<noteq> 0" "page_ok s p" "p \<notin> set qs"
    using assms(1) kalloc_cons by blast
  then show ?thesis using assms(2) ps kp.alloc_then_free [OF assms] by simp
qed

theorem kalloc_kfree_witness:
  "let s = \<lparr>kmem_mem = (\<lambda>_. 0), freelist = 0x80022000, kend = 0x80021D60\<rparr> in
     kmem_inv s [0x80022000] \<and> fst (kalloc s) = 0x80022000 \<and>
     (\<exists>s''. kfree 0x80022000 (snd (kalloc s)) = Ret s'' \<and> kmem_inv s'' [0x80022000])"
proof -
  define s where "s = \<lparr>kmem_mem = (\<lambda>_. 0), freelist = 0x80022000, kend = 0x80021D60\<rparr>"
  have inv: "kmem_inv s [0x80022000]"
    by (simp add: s_def kmem_inv_def page_ok_def page_aligned_def PGSIZE_def PHYSTOP_def
        KERNBASE_def ld64_def)
  obtain t where t: "kalloc s = (0x80022000, t)" by (simp add: s_def kalloc_def Let_def)
  have "\<exists>s''. kfree 0x80022000 t = Ret s'' \<and> kmem_inv s'' [0x80022000]"
    using kalloc_kfree [OF inv t] by (elim conjE meta_impE) simp_all
  with inv t show ?thesis unfolding s_def [symmetric] Let_def by simp
qed

section \<open>\<open>kfree\<close> without its lock\<close>

text \<open>
  The \<open>acquire\<close> and \<open>release\<close> of \<open>kfree\<close> are commented out, so two CPUs interleave the
  statements of \<open>kfree\<close> that touch the shared list. One CPU is a program counter over
  those statements; a schedule says which CPU moves next.
\<close>

datatype kfree_pc = KF_fill | KF_link | KF_head | KF_done

fun kfree_step :: "uint64 \<Rightarrow> kfree_pc \<times> kmem \<Rightarrow> kfree_pc \<times> kmem" where
  "kfree_step pa (KF_fill, s) = (KF_link, s\<lparr>kmem_mem := memset (kmem_mem s) pa 1 (ucast PGSIZE)\<rparr>)"
| "kfree_step pa (KF_link, s) = (KF_head, s\<lparr>kmem_mem := st64 (kmem_mem s) pa (freelist s)\<rparr>)"
| "kfree_step pa (KF_head, s) = (KF_done, s\<lparr>freelist := pa\<rparr>)"
| "kfree_step pa (KF_done, s) = (KF_done, s)"

primrec kfree_two :: "uint64 \<Rightarrow> uint64 \<Rightarrow> bool list \<Rightarrow>
    kfree_pc \<times> kfree_pc \<times> kmem \<Rightarrow> kfree_pc \<times> kfree_pc \<times> kmem" where
  "kfree_two p q [] c = c"
| "kfree_two p q (first # sched) c =
     (case c of (a, b, s) \<Rightarrow>
        if first then (case kfree_step p (a, s) of (a, s) \<Rightarrow> kfree_two p q sched (a, b, s))
        else (case kfree_step q (b, s) of (b, s) \<Rightarrow> kfree_two p q sched (a, b, s)))"

lemma kfree_step_alone:
  "page_ok s p \<Longrightarrow> kfree p s = Ret (snd ((kfree_step p ^^ 3) (KF_fill, s)))"
  by (cases "p mod PGSIZE = 0")
    (auto simp: kfree_def page_ok_def page_aligned_def numeral_3_eq_3 Let_def)

lemma free_page_pgno:
  "kmem_inv s ps \<Longrightarrow> page_ok s p \<Longrightarrow> p \<notin> set ps \<Longrightarrow> a \<in> set ps \<Longrightarrow> pgno a \<noteq> pgno p"
  by (auto simp: kmem_inv_def page_ok_def pgno_inj)

lemma kmem_inv_frame:
  assumes "kmem_inv s ps" "page_ok s p" "p \<notin> set ps"
    and "\<And>x. pgno x \<noteq> pgno p \<Longrightarrow> m x = kmem_mem s x"
  shows "kmem_inv (s\<lparr>kmem_mem := m\<rparr>) ps"
proof (rule kmem_inv_same_pages [OF assms(1)])
  show "kmem_mem s x = kmem_mem (s\<lparr>kmem_mem := m\<rparr>) x" if "a \<in> set ps" "pgno x = pgno a" for a x
    using that assms(4) [of x] free_page_pgno [OF assms(1-3) that(1)] by simp
qed simp_all

lemma kmem_inv_link:
  "kmem_inv s ps \<Longrightarrow> page_ok s p \<Longrightarrow> p \<notin> set ps \<Longrightarrow>
   kmem_inv (s\<lparr>kmem_mem := st64 (memset (kmem_mem s) p c 4096) p v\<rparr>) ps"
  by (rule kmem_inv_frame) (auto simp: st64_page_other memset_page page_ok_def)

lemma page_ok_update [simp]:
  "page_ok (s\<lparr>kmem_mem := m\<rparr>) p = page_ok s p" "page_ok (s\<lparr>freelist := f\<rparr>) p = page_ok s p"
  by (simp_all add: page_ok_def)

lemma kmem_inv_head:
  assumes "kmem_inv s ps" "page_ok s q" "q \<notin> set ps" "ld64 (kmem_mem s) q = freelist s"
  shows "kmem_inv (s\<lparr>freelist := q\<rparr>) (q # ps)"
  using assms page_ok_nonzero [of s q] by (auto simp: kmem_inv_def page_ok_def)

text \<open>C24. With the lock of \<open>kfree\<close> commented out, two CPUs that both link their page before
  either of them moves the head leave only the second page on the list: both calls complete,
  and one of the two freed pages is lost. Run one after the other, the calls free both.\<close>

theorem kfree_race_loses_page:
  assumes inv: "kmem_inv s ps" and ok: "page_ok s p" "page_ok s q"
    and new: "p \<noteq> q" "p \<notin> set ps" "q \<notin> set ps"
  shows "(\<exists>s'. kfree_two p q [True, True, False, False, True, False] (KF_fill, KF_fill, s)
        = (KF_done, KF_done, s') \<and> kmem_inv s' (q # ps) \<and> countpages s' = Some (length ps + 1)) \<and>
    (\<exists>s'. kfree_two p q [True, True, True, False, False, False] (KF_fill, KF_fill, s)
        = (KF_done, KF_done, s') \<and> kmem_inv s' (q # p # ps) \<and> countpages s' = Some (length ps + 2))"
proof -
  let ?m1 = "st64 (memset (kmem_mem s) p 1 4096) p (freelist s)"
  let ?m2 = "\<lambda>v. st64 (memset ?m1 q 1 4096) q v"
  have 1: "kmem_inv (s\<lparr>kmem_mem := ?m1\<rparr>) ps" by (rule kmem_inv_link [OF inv ok(1) new(2)])
  have "kmem_inv (s\<lparr>kmem_mem := ?m2 (freelist s)\<rparr>) ps"
    using kmem_inv_link [OF 1, of q] ok new by simp
  from kmem_inv_head [OF this, of q]
  have race: "kmem_inv (s\<lparr>kmem_mem := ?m2 (freelist s), freelist := q\<rparr>) (q # ps)"
    using ok new by simp
  have 2: "kmem_inv (s\<lparr>kmem_mem := ?m1, freelist := p\<rparr>) (p # ps)"
    using kmem_inv_head [OF 1, of p] ok new by simp
  have "kmem_inv (s\<lparr>kmem_mem := ?m1, freelist := p, kmem_mem := ?m2 p\<rparr>) (p # ps)"
    using kmem_inv_link [OF 2, of q 1 p] ok new by simp
  from kmem_inv_head [OF this, of q]
  have serial: "kmem_inv (s\<lparr>kmem_mem := ?m1, freelist := p, kmem_mem := ?m2 p, freelist := q\<rparr>)
      (q # p # ps)"
    using ok new by simp
  show ?thesis
    using race serial countpages_inv [OF race] countpages_inv [OF serial] by simp
qed

theorem kfree_race_loses_page_witness:
  "\<exists>s'. kfree_two 0x80022000 0x80023000 [True, True, False, False, True, False]
      (KF_fill, KF_fill, \<lparr>kmem_mem = (\<lambda>_. 0), freelist = 0, kend = 0x80021D60\<rparr>)
      = (KF_done, KF_done, s') \<and> countpages s' = Some 1"
proof -
  define s where "s = \<lparr>kmem_mem = (\<lambda>_. 0), freelist = 0, kend = 0x80021D60\<rparr>"
  have "kmem_inv s []" "page_ok s 0x80022000" "page_ok s 0x80023000"
    by (simp_all add: s_def kmem_inv_def page_ok_def page_aligned_def PGSIZE_def PHYSTOP_def
        KERNBASE_def)
  from kfree_race_loses_page [OF this]
  show ?thesis unfolding s_def [symmetric] by auto
qed

end
