(* ===== verification/Vm.thy ===== *)
theory Vm
  imports Kalloc
begin

text \<open>
  \<^verbatim>\<open>kernel/vm.c\<close>: Sv39 page tables as trees of 512-entry pages inside the byte memory,
  the functions that grow, shrink, copy and free a user address space, and the copies between
  kernel and user memory. Kernel-side buffers of \<open>copyout\<close> and \<open>copyin\<close> are byte lists;
  everything on the user side goes through the page table and the byte memory.
\<close>

section \<open>Page-table entries and addresses\<close>

definition PTE_V :: uint64 where "PTE_V = 1"
definition PTE_R :: uint64 where "PTE_R = 2"
definition PTE_W :: uint64 where "PTE_W = 4"
definition PTE_X :: uint64 where "PTE_X = 8"
definition PTE_U :: uint64 where "PTE_U = 16"

definition PA2PTE :: "uint64 \<Rightarrow> uint64" where "PA2PTE pa = push_bit 10 (drop_bit 12 pa)"
definition PTE2PA :: "uint64 \<Rightarrow> uint64" where "PTE2PA pte = push_bit 12 (drop_bit 10 pte)"
definition PTE_FLAGS :: "uint64 \<Rightarrow> uint64" where "PTE_FLAGS pte = pte AND 0x3FF"

definition PXSHIFT :: "nat \<Rightarrow> nat" where "PXSHIFT level = 12 + 9 * level"
definition PX :: "nat \<Rightarrow> uint64 \<Rightarrow> uint64" where "PX level va = drop_bit (PXSHIFT level) va AND 0x1FF"

definition MAXVA :: uint64 where "MAXVA = push_bit (9 + 9 + 9 + 12 - 1) 1"
definition TRAMPOLINE :: uint64 where "TRAMPOLINE = MAXVA - PGSIZE"
definition TRAPFRAME :: uint64 where "TRAPFRAME = TRAMPOLINE - PGSIZE"
definition KSTACK :: "uint64 \<Rightarrow> uint64" where "KSTACK p = TRAMPOLINE - (p + 1) * 2 * PGSIZE"

definition UART0 :: uint64 where "UART0 = 0x10000000"
definition VIRTIO0 :: uint64 where "VIRTIO0 = 0x10001000"
definition PLIC :: uint64 where "PLIC = 0x0c000000"

text \<open>\<open>&pagetable[i]\<close>\<close>

definition slot :: "uint64 \<Rightarrow> uint64 \<Rightarrow> uint64" where "slot pagetable i = pagetable + 8 * i"

text \<open>Writing a kernel buffer, given by its bytes, to physical memory.\<close>

primrec poke :: "memory \<Rightarrow> uint64 \<Rightarrow> uint8 list \<Rightarrow> memory" where
  "poke m a [] = m"
| "poke m a (b # bs) = poke (m(a := b)) (a + 1) bs"

definition set_mem :: "memory \<Rightarrow> kmem \<Rightarrow> kmem" where "set_mem m s = s\<lparr>kmem_mem := m\<rparr>"

section \<open>Walking and mapping\<close>

fun walk_level :: "nat \<Rightarrow> uint64 \<Rightarrow> uint64 \<Rightarrow> bool \<Rightarrow> kmem \<Rightarrow> uint64 \<times> kmem" where
  "walk_level 0 pagetable va alloc s = (slot pagetable (PX 0 va), s)"
| "walk_level (Suc l) pagetable va alloc s =
     (let pte = slot pagetable (PX (Suc l) va);
          v = ld64 (kmem_mem s) pte
      in if v AND PTE_V \<noteq> 0 then walk_level l (PTE2PA v) va alloc s
         else if \<not> alloc then (0, s)
         else case kalloc s of (pagetable, s) \<Rightarrow>
           if pagetable = 0 then (0, s)
           else let m = memset (kmem_mem s) pagetable 0 (ucast PGSIZE);
                    m = st64 m pte (PA2PTE pagetable OR PTE_V)
                in walk_level l pagetable va alloc (set_mem m s))"

definition walk :: "uint64 \<Rightarrow> uint64 \<Rightarrow> bool \<Rightarrow> kmem \<Rightarrow> (uint64 \<times> kmem) res" where
  "walk pagetable va alloc s =
     (if va \<ge> MAXVA then Panic ''walk'' else Ret (walk_level 2 pagetable va alloc s))"

definition walkaddr :: "uint64 \<Rightarrow> uint64 \<Rightarrow> kmem \<Rightarrow> uint64 res" where
  "walkaddr pagetable va s =
     (if va \<ge> MAXVA then Ret 0
      else seq (walk pagetable va False s) (\<lambda>(pte, s).
        if pte = 0 then Ret 0
        else let v = ld64 (kmem_mem s) pte
             in if v AND PTE_V = 0 then Ret 0
                else if v AND PTE_U = 0 then Ret 0
                else Ret (PTE2PA v)))"

lemma walk_Ret: "walk pagetable va alloc s = Ret x \<Longrightarrow> va < MAXVA"
  by (simp add: walk_def split: if_splits)

lemma unat_MAXVA: "unat MAXVA = 274877906944"
  by (simp add: MAXVA_def push_bit_eq_mult)

lemma next_page_lt_MAXVA:
  "a < MAXVA \<Longrightarrow> unat MAXVA - unat (a + PGSIZE) < unat MAXVA - unat a"
proof -
  assume "a < MAXVA"
  then have "unat a < 274877906944" by (simp add: word_less_nat_alt unat_MAXVA)
  moreover from this have "unat (a + PGSIZE) = unat a + 4096"
    by (simp add: PGSIZE_def unat_word_ariths)
  ultimately show ?thesis by (simp add: unat_MAXVA)
qed

function mappages_loop ::
  "uint64 \<Rightarrow> uint64 \<Rightarrow> uint64 \<Rightarrow> uint64 \<Rightarrow> uint64 \<Rightarrow> kmem \<Rightarrow> (int \<times> kmem) res" where
  "mappages_loop pagetable a last_a pa perm s =
     seq (walk pagetable a True s) (\<lambda>(pte, s).
       if pte = 0 then Ret (-1, s)
       else if ld64 (kmem_mem s) pte AND PTE_V \<noteq> 0 then Panic ''mappages: remap''
       else let s = set_mem (st64 (kmem_mem s) pte (PA2PTE pa OR perm OR PTE_V)) s
            in if a = last_a then Ret (0, s)
               else mappages_loop pagetable (a + PGSIZE) last_a (pa + PGSIZE) perm s)"
  by pat_completeness auto
termination
  by (relation "measure (\<lambda>(pagetable, a, last_a, pa, perm, s). unat MAXVA - unat a)")
    (auto dest: walk_Ret next_page_lt_MAXVA)

declare mappages_loop.simps [simp del]

definition mappages ::
  "uint64 \<Rightarrow> uint64 \<Rightarrow> uint64 \<Rightarrow> uint64 \<Rightarrow> uint64 \<Rightarrow> kmem \<Rightarrow> (int \<times> kmem) res" where
  "mappages pagetable va sz pa perm s =
     (if va mod PGSIZE \<noteq> 0 then Panic ''mappages: va not aligned''
      else if sz mod PGSIZE \<noteq> 0 then Panic ''mappages: size not aligned''
      else if sz = 0 then Panic ''mappages: size''
      else mappages_loop pagetable va (va + sz - PGSIZE) pa perm s)"

definition kvmmap ::
  "uint64 \<Rightarrow> uint64 \<Rightarrow> uint64 \<Rightarrow> uint64 \<Rightarrow> uint64 \<Rightarrow> kmem \<Rightarrow> kmem res" where
  "kvmmap kpgtbl va pa sz perm s =
     seq (mappages kpgtbl va sz pa perm s) (\<lambda>(r, s). if r \<noteq> 0 then Panic ''kvmmap'' else Ret s)"

text \<open>
  The kernel page table. \<open>etext\<close> and \<open>trampoline\<close> are link-time symbols;
  \<open>proc_mapstacks\<close> is in \<^verbatim>\<open>kernel/proc.c\<close>.
\<close>

definition proc_mapstacks :: "uint64 \<Rightarrow> kmem \<Rightarrow> kmem res" where
  "proc_mapstacks kpgtbl s =
     foldM (\<lambda>p s.
       case kalloc s of (pa, s) \<Rightarrow>
         if pa = 0 then Panic ''kalloc''
         else kvmmap kpgtbl (KSTACK (of_nat p)) pa PGSIZE (PTE_R OR PTE_W) s) [0..<64] s"

definition kvmmake :: "uint64 \<Rightarrow> uint64 \<Rightarrow> kmem \<Rightarrow> (uint64 \<times> kmem) res" where
  "kvmmake etext trampoline s =
     (case kalloc s of (kpgtbl, s) \<Rightarrow>
        let s = set_mem (memset (kmem_mem s) kpgtbl 0 (ucast PGSIZE)) s
        in seq (kvmmap kpgtbl UART0 UART0 PGSIZE (PTE_R OR PTE_W) s) (\<lambda>s.
           seq (kvmmap kpgtbl VIRTIO0 VIRTIO0 PGSIZE (PTE_R OR PTE_W) s) (\<lambda>s.
           seq (kvmmap kpgtbl PLIC PLIC 0x4000000 (PTE_R OR PTE_W) s) (\<lambda>s.
           seq (kvmmap kpgtbl KERNBASE KERNBASE (etext - KERNBASE) (PTE_R OR PTE_X) s) (\<lambda>s.
           seq (kvmmap kpgtbl etext etext (PHYSTOP - etext) (PTE_R OR PTE_W) s) (\<lambda>s.
           seq (kvmmap kpgtbl TRAMPOLINE trampoline PGSIZE (PTE_R OR PTE_X) s) (\<lambda>s.
           seq (proc_mapstacks kpgtbl s) (\<lambda>s. Ret (kpgtbl, s)))))))))"

section \<open>User address spaces\<close>

function uvmunmap_loop :: "uint64 \<Rightarrow> uint64 \<Rightarrow> uint64 \<Rightarrow> bool \<Rightarrow> kmem \<Rightarrow> kmem res" where
  "uvmunmap_loop pagetable a end_a do_free s =
     (if a < end_a
      then seq (walk pagetable a False s) (\<lambda>(pte, s).
        if pte = 0 then Panic ''uvmunmap: walk''
        else let v = ld64 (kmem_mem s) pte
        in if v AND PTE_V = 0 then Panic ''uvmunmap: not mapped''
        else if PTE_FLAGS v = PTE_V then Panic ''uvmunmap: not a leaf''
        else seq (if do_free then kfree (PTE2PA v) s else Ret s) (\<lambda>s.
          uvmunmap_loop pagetable (a + PGSIZE) end_a do_free
            (set_mem (st64 (kmem_mem s) pte 0) s)))
      else Ret s)"
  by pat_completeness auto
termination
  by (relation "measure (\<lambda>(pagetable, a, end_a, do_free, s). unat MAXVA - unat a)")
    (auto dest: walk_Ret next_page_lt_MAXVA)

declare uvmunmap_loop.simps [simp del]

definition uvmunmap :: "uint64 \<Rightarrow> uint64 \<Rightarrow> uint64 \<Rightarrow> bool \<Rightarrow> kmem \<Rightarrow> kmem res" where
  "uvmunmap pagetable va npages do_free s =
     (if va mod PGSIZE \<noteq> 0 then Panic ''uvmunmap: not aligned''
      else uvmunmap_loop pagetable va (va + npages * PGSIZE) do_free s)"

definition uvmcreate :: "kmem \<Rightarrow> uint64 \<times> kmem" where
  "uvmcreate s =
     (case kalloc s of (pagetable, s) \<Rightarrow>
        if pagetable = 0 then (0, s)
        else (pagetable, set_mem (memset (kmem_mem s) pagetable 0 (ucast PGSIZE)) s))"

text \<open>\<open>uvmfirst\<close> checks neither \<open>kalloc\<close> nor \<open>mappages\<close>.\<close>

definition uvmfirst :: "uint64 \<Rightarrow> uint8 list \<Rightarrow> kmem \<Rightarrow> kmem res" where
  "uvmfirst pagetable src s =
     (if length src \<ge> unat PGSIZE then Panic ''uvmfirst: more than a page''
      else case kalloc s of (mem, s) \<Rightarrow>
        let s = set_mem (memset (kmem_mem s) mem 0 (ucast PGSIZE)) s
        in seq (mappages pagetable 0 PGSIZE mem (PTE_W OR PTE_R OR PTE_X OR PTE_U) s) (\<lambda>(r, s).
             Ret (set_mem (poke (kmem_mem s) mem src) s)))"

text \<open>\<open>npages\<close> is an \<open>int\<close> in the source: the quotient is truncated to 32 bits and
  sign-extended when it is passed on.\<close>

definition uvmdealloc :: "uint64 \<Rightarrow> uint64 \<Rightarrow> uint64 \<Rightarrow> kmem \<Rightarrow> (uint64 \<times> kmem) res" where
  "uvmdealloc pagetable oldsz newsz s =
     (if newsz \<ge> oldsz then Ret (oldsz, s)
      else if PGROUNDUP newsz < PGROUNDUP oldsz
      then let npages = ucast ((PGROUNDUP oldsz - PGROUNDUP newsz) div PGSIZE) :: uint32
           in seq (uvmunmap pagetable (PGROUNDUP newsz) (scast npages) True s) (\<lambda>s. Ret (newsz, s))
      else Ret (newsz, s))"

lemma mappages_Ret: "mappages pagetable va sz pa perm s = Ret x \<Longrightarrow> va < MAXVA"
  by (auto simp: mappages_def mappages_loop.simps [of pagetable va] split: if_splits dest: walk_Ret)

function uvmalloc_loop ::
  "uint64 \<Rightarrow> uint64 \<Rightarrow> uint64 \<Rightarrow> uint64 \<Rightarrow> uint64 \<Rightarrow> kmem \<Rightarrow> (uint64 \<times> kmem) res" where
  "uvmalloc_loop pagetable a oldsz newsz xperm s =
     (if a < newsz
      then case kalloc s of (mem, s) \<Rightarrow>
        if mem = 0 then seq (uvmdealloc pagetable a oldsz s) (\<lambda>(r, s). Ret (0, s))
        else let s = set_mem (memset (kmem_mem s) mem 0 (ucast PGSIZE)) s
        in seq (mappages pagetable a PGSIZE mem (PTE_R OR PTE_U OR xperm) s) (\<lambda>(r, s).
             if r \<noteq> 0
             then seq (kfree mem s) (\<lambda>s.
                  seq (uvmdealloc pagetable a oldsz s) (\<lambda>(r, s). Ret (0, s)))
             else uvmalloc_loop pagetable (a + PGSIZE) oldsz newsz xperm s)
      else Ret (newsz, s))"
  by pat_completeness auto
termination
  by (relation "measure (\<lambda>(pagetable, a, oldsz, newsz, xperm, s). unat MAXVA - unat a)")
    (auto dest: mappages_Ret next_page_lt_MAXVA)

declare uvmalloc_loop.simps [simp del]

definition uvmalloc ::
  "uint64 \<Rightarrow> uint64 \<Rightarrow> uint64 \<Rightarrow> uint64 \<Rightarrow> kmem \<Rightarrow> (uint64 \<times> kmem) res" where
  "uvmalloc pagetable oldsz newsz xperm s =
     (if newsz < oldsz then Ret (oldsz, s)
      else uvmalloc_loop pagetable (PGROUNDUP oldsz) (PGROUNDUP oldsz) newsz xperm s)"

text \<open>
  \<open>freewalk\<close> recurses along the table's own pointers, so the model takes the depth of the
  recursion as its first argument and is \<open>Blocked\<close> when it is exceeded; an Sv39 table has
  depth 3.
\<close>

fun freewalk :: "nat \<Rightarrow> uint64 \<Rightarrow> kmem \<Rightarrow> kmem res" where
  "freewalk 0 pagetable s = Blocked"
| "freewalk (Suc depth) pagetable s =
     seq (foldM (\<lambda>i s.
        let pte = ld64 (kmem_mem s) (slot pagetable (of_nat i))
        in if pte AND PTE_V \<noteq> 0 \<and> pte AND (PTE_R OR PTE_W OR PTE_X) = 0
           then seq (freewalk depth (PTE2PA pte) s) (\<lambda>s.
             Ret (set_mem (st64 (kmem_mem s) (slot pagetable (of_nat i)) 0) s))
           else if pte AND PTE_V \<noteq> 0 then Panic ''freewalk: leaf''
           else Ret s) [0..<512] s)
     (kfree pagetable)"

definition uvmfree :: "uint64 \<Rightarrow> uint64 \<Rightarrow> kmem \<Rightarrow> kmem res" where
  "uvmfree pagetable sz s =
     seq (if sz > 0 then uvmunmap pagetable 0 (PGROUNDUP sz div PGSIZE) True s else Ret s)
       (freewalk 3 pagetable)"

definition uvmcopy_err :: "uint64 \<Rightarrow> uint64 \<Rightarrow> kmem \<Rightarrow> (int \<times> kmem) res" where
  "uvmcopy_err new i s = seq (uvmunmap new 0 (i div PGSIZE) True s) (\<lambda>s. Ret (-1, s))"

function uvmcopy_loop :: "uint64 \<Rightarrow> uint64 \<Rightarrow> uint64 \<Rightarrow> uint64 \<Rightarrow> kmem \<Rightarrow> (int \<times> kmem) res" where
  "uvmcopy_loop old new i sz s =
     (if i < sz
      then seq (walk old i False s) (\<lambda>(pte, s).
        if pte = 0 then Panic ''uvmcopy: pte should exist''
        else let v = ld64 (kmem_mem s) pte
        in if v AND PTE_V = 0 then Panic ''uvmcopy: page not present''
        else let pa = PTE2PA v; flags = PTE_FLAGS v
        in case kalloc s of (mem, s) \<Rightarrow>
          if mem = 0 then uvmcopy_err new i s
          else let s = set_mem (memmove (kmem_mem s) mem pa (ucast PGSIZE)) s
          in seq (mappages new i PGSIZE mem flags s) (\<lambda>(r, s).
               if r \<noteq> 0 then seq (kfree mem s) (uvmcopy_err new i)
               else uvmcopy_loop old new (i + PGSIZE) sz s))
      else Ret (0, s))"
  by pat_completeness auto
termination
  by (relation "measure (\<lambda>(old, new, i, sz, s). unat MAXVA - unat i)")
    (auto dest: mappages_Ret next_page_lt_MAXVA)

declare uvmcopy_loop.simps [simp del]

definition uvmcopy :: "uint64 \<Rightarrow> uint64 \<Rightarrow> uint64 \<Rightarrow> kmem \<Rightarrow> (int \<times> kmem) res" where
  "uvmcopy old new sz s = uvmcopy_loop old new 0 sz s"

definition uvmclear :: "uint64 \<Rightarrow> uint64 \<Rightarrow> kmem \<Rightarrow> kmem res" where
  "uvmclear pagetable va s =
     seq (walk pagetable va False s) (\<lambda>(pte, s).
       if pte = 0 then Panic ''uvmclear''
       else Ret (set_mem (st64 (kmem_mem s) pte (ld64 (kmem_mem s) pte AND NOT PTE_U)) s))"

section \<open>Copies between kernel and user memory\<close>

text \<open>
  \<open>room va\<close> is \<open>PGSIZE - (va - va0)\<close>, the bytes left in the page of \<open>va\<close>. The list
  \<open>copyin\<close> and \<open>copyinstr\<close> return beside the C result is what they wrote to \<open>dst\<close>.
\<close>

definition room :: "uint64 \<Rightarrow> nat" where
  "room va = unat (PGSIZE - (va - PGROUNDDOWN va))"

lemma page_offset: "unat (va - PGROUNDDOWN va) = unat va mod 4096"
proof -
  have "unat (va - PGROUNDDOWN va) = unat va - unat (PGROUNDDOWN va)"
    by (rule unat_sub) (simp add: word_le_nat_alt PGROUNDDOWN_unat)
  then show ?thesis by (simp only: PGROUNDDOWN_unat minus_div_mult_eq_mod)
qed

lemma room_eq: "room va = 4096 - unat va mod 4096"
proof -
  have "va - PGROUNDDOWN va \<le> PGSIZE" by (simp add: word_le_nat_alt page_offset PGSIZE_def)
  then show ?thesis by (simp add: room_def unat_sub page_offset) (simp add: PGSIZE_def)
qed

lemma room_pos [simp]: "0 < room va"
  by (simp add: room_eq)

function copyout :: "uint64 \<Rightarrow> uint64 \<Rightarrow> uint8 list \<Rightarrow> kmem \<Rightarrow> (int \<times> kmem) res" where
  "copyout pagetable dstva src s =
     (if src \<noteq> []
      then let va0 = PGROUNDDOWN dstva
      in if va0 \<ge> MAXVA then Ret (-1, s)
      else seq (walk pagetable va0 False s) (\<lambda>(pte, s).
        let v = ld64 (kmem_mem s) pte
        in if pte = 0 \<or> v AND PTE_V = 0 \<or> v AND PTE_U = 0 \<or> v AND PTE_W = 0 then Ret (-1, s)
        else let pa0 = PTE2PA v;
                 n = min (room dstva) (length src);
                 m = poke (kmem_mem s) (pa0 + (dstva - va0)) (take n src)
        in copyout pagetable (va0 + PGSIZE) (drop n src) (set_mem m s))
      else Ret (0, s))"
  by pat_completeness auto
termination
  by (relation "measure (\<lambda>(pagetable, dstva, src, s). length src)") (auto simp: min_def)

declare copyout.simps [simp del]

function copyin :: "uint64 \<Rightarrow> uint64 \<Rightarrow> nat \<Rightarrow> kmem \<Rightarrow> (int \<times> uint8 list) res" where
  "copyin pagetable srcva len s =
     (if len > 0
      then let va0 = PGROUNDDOWN srcva
      in seq (walkaddr pagetable va0 s) (\<lambda>pa0.
        if pa0 = 0 then Ret (-1, [])
        else let n = min (room srcva) len;
                 chunk = bytes_at (kmem_mem s) (pa0 + (srcva - va0)) n
        in seq (copyin pagetable (va0 + PGSIZE) (len - n) s) (\<lambda>(r, rest). Ret (r, chunk @ rest)))
      else Ret (0, []))"
  by pat_completeness auto
termination
  by (relation "measure (\<lambda>(pagetable, srcva, len, s). len)") (auto simp: min_def)

declare copyin.simps [simp del]

primrec copyinstr_page :: "memory \<Rightarrow> uint64 \<Rightarrow> nat \<Rightarrow> bool \<times> uint8 list" where
  "copyinstr_page m p 0 = (False, [])"
| "copyinstr_page m p (Suc n) =
     (if m p = 0 then (True, [0])
      else case copyinstr_page m (p + 1) n of (got_null, bs) \<Rightarrow> (got_null, m p # bs))"

function copyinstr :: "uint64 \<Rightarrow> uint64 \<Rightarrow> nat \<Rightarrow> kmem \<Rightarrow> (int \<times> uint8 list) res" where
  "copyinstr pagetable srcva max_n s =
     (if max_n > 0
      then let va0 = PGROUNDDOWN srcva
      in seq (walkaddr pagetable va0 s) (\<lambda>pa0.
        if pa0 = 0 then Ret (-1, [])
        else let n = min (room srcva) max_n
        in case copyinstr_page (kmem_mem s) (pa0 + (srcva - va0)) n of (got_null, chunk) \<Rightarrow>
          if got_null then Ret (0, chunk)
          else seq (copyinstr pagetable (va0 + PGSIZE) (max_n - n) s)
                 (\<lambda>(r, rest). Ret (r, chunk @ rest)))
      else Ret (-1, []))"
  by pat_completeness auto
termination
  by (relation "measure (\<lambda>(pagetable, srcva, max_n, s). max_n)") (auto simp: min_def)

declare copyinstr.simps [simp del]

end
