(* ===== verification/Vm_Tables.thy ===== *)
theory Vm_Tables
  imports Vm
begin

text \<open>
  The page-table trees that \<^verbatim>\<open>kernel/vm.c\<close> builds. \<open>tab\<close> follows a path of
  indices from the root to a table page, \<open>leaf\<close> is the entry for a virtual address, and
  \<open>pt_ok\<close> says that the table pages of one root form a tree of allocated pages. The
  lemmas show what \<open>walk\<close>, \<open>mappages\<close> and \<open>uvmunmap\<close> do to that view.
\<close>

section \<open>Entries\<close>

lemma PX_unat: "unat (PX l va) = unat va div 2 ^ (12 + 9 * l) mod 512"
proof -
  have "(511 :: uint64) = mask 9" by (simp add: mask_eq_exp_minus_1)
  then have "PX l va = take_bit 9 (drop_bit (12 + 9 * l) va)"
    by (simp add: PX_def PXSHIFT_def take_bit_eq_mask)
  then have "unat (PX l va) = take_bit 9 (drop_bit (12 + 9 * l) (take_bit 64 (unat va)))"
    by (simp only: unsigned_take_bit_eq unsigned_drop_bit_eq) simp
  moreover have "take_bit 64 (unat va) = unat va"
    using unat_lt_2p64 [of va] by (simp add: take_bit_nat_eq_self)
  ultimately show ?thesis by (simp add: take_bit_eq_mod drop_bit_eq_div)
qed

lemma PX_lt [simp]: "unat (PX l va) < 512"
  by (simp add: PX_unat)

lemma bit_unat_bound: "unat (x :: uint64) < 2 ^ k \<Longrightarrow> bit x n \<Longrightarrow> n < k"
proof -
  assume "unat x < 2 ^ k" "bit x n"
  then have "bit (take_bit k (unat x)) n"
    using bit_imp_le_length [of x n] by (simp add: take_bit_nat_eq_self bit_unsigned_iff)
  then show "n < k" by (simp add: bit_take_bit_iff)
qed

lemma PTE2PA_PA2PTE:
  assumes "page_aligned pa" "pa < 0x100000000000000" "flags < 0x400"
  shows "PTE2PA (PA2PTE pa OR flags) = pa"
proof (rule bit_word_eqI)
  fix n assume "n < LENGTH(64)"
  have "take_bit 12 pa = 0"
    using assms(1) by (simp add: page_aligned_def PGSIZE_def take_bit_eq_mod)
  then have low: "\<not> bit pa n" if "n < 12" for n
    using that bit_take_bit_iff [of 12 pa n] by simp
  have high: "n < 56" if "bit pa n" for n
    using that assms(2) by (rule_tac bit_unat_bound [of pa]) (simp_all add: word_less_nat_alt)
  have fl: "n < 10" if "bit flags n" for n
    using that assms(3) by (rule_tac bit_unat_bound [of flags]) (simp_all add: word_less_nat_alt)
  show "bit (PTE2PA (PA2PTE pa OR flags)) n = bit pa n"
  proof (cases "n < 12")
    case True
    then show ?thesis using low by (simp add: PTE2PA_def bit_simps)
  next
    case False
    then have "\<not> bit flags (n - 12 + 10)" using fl [of "n - 12 + 10"] by auto
    moreover have "n < 56 \<or> \<not> bit pa n" using high by blast
    ultimately show ?thesis
      using False \<open>n < LENGTH(64)\<close> by (auto simp: PTE2PA_def PA2PTE_def bit_simps)
  qed
qed

lemma PTE_FLAGS_PA2PTE:
  assumes "flags < 0x400"
  shows "PTE_FLAGS (PA2PTE pa OR flags) = flags"
proof (rule bit_word_eqI)
  have m: "(0x3FF :: uint64) = mask 10" by (simp add: mask_eq_exp_minus_1)
  have fl: "n < 10" if "bit flags n" for n
    using that assms by (rule_tac bit_unat_bound [of flags]) (simp_all add: word_less_nat_alt)
  show "bit (PTE_FLAGS (PA2PTE pa OR flags)) n = bit flags n" if "n < LENGTH(64)" for n
    using that fl [of n] unfolding PTE_FLAGS_def m by (auto simp: PA2PTE_def bit_simps)
qed

lemma pte_V_iff: "v AND PTE_V \<noteq> 0 \<longleftrightarrow> bit v 0"
  by (simp add: PTE_V_def and_one_eq odd_iff_mod_2_eq_one bit_0)

lemma pte_flag_V: "(PA2PTE pa OR f OR PTE_V) AND PTE_V \<noteq> 0" "(PA2PTE pa OR PTE_V) AND PTE_V \<noteq> 0"
  unfolding pte_V_iff by (simp_all add: bit_simps PTE_V_def)

section \<open>Stores into table pages\<close>

lemma slot_of_nat: "slot p (of_nat i) = p + 8 * of_nat i"
  by (simp add: slot_def)

lemma slot_gap:
  assumes "i < 512" "j < 512" "i \<noteq> j" "k < 8"
  shows "8 \<le> unat (p + 8 * of_nat j + of_nat k - (p + 8 * of_nat i) :: uint64)"
proof -
  let ?d = "(of_nat (8 * j + k) - of_nat (8 * i) :: uint64)"
  have "p + 8 * of_nat j + of_nat k - (p + 8 * of_nat i) = ?d" by (simp add: algebra_simps)
  moreover have "8 \<le> unat ?d"
  proof (cases "i < j")
    case True
    then have "?d = of_nat (8 * j + k - 8 * i)" by (simp add: of_nat_diff)
    then show ?thesis using assms True by (simp only: unat_of_nat_u64_small)
  next
    case False
    with assms have lt: "8 * j + k < 8 * i" by simp
    define e where "e = 8 * i - (8 * j + k)"
    have e: "0 < e" "e < 4096" using lt assms by (simp_all add: e_def)
    have "?d = - of_nat e" using lt by (simp add: e_def of_nat_diff)
    also have "\<dots> = of_nat (18446744073709551616 - e)" using e by (simp add: of_nat_diff)
    finally show ?thesis using e by (simp only: unat_of_nat_u64_small)
  qed
  ultimately show ?thesis by (simp only:)
qed

lemma ld64_st64_slot:
  assumes "page_aligned p" "page_aligned q" "i < 512" "j < 512" "(p, i) \<noteq> (q, j)"
  shows "ld64 (st64 m (slot p (of_nat i)) v) (slot q (of_nat j)) = ld64 m (slot q (of_nat j))"
proof (rule ld64_cong)
  fix k :: nat assume k: "k < 8"
  show "st64 m (slot p (of_nat i)) v (slot q (of_nat j) + of_nat k) = m (slot q (of_nat j) + of_nat k)"
  proof (cases "p = q")
    case True
    then show ?thesis
      using assms k slot_gap [of i j k p] by (intro st64_other) (auto simp: slot_of_nat)
  next
    case False
    then show ?thesis
      using assms k slot_in_page [of q j k] pgno_inj [of q p] unfolding slot_of_nat
      by (intro st64_slot_other_page) auto
  qed
qed

section \<open>The tree of table pages\<close>

definition child :: "memory \<Rightarrow> uint64 \<Rightarrow> nat \<Rightarrow> uint64 option" where
  "child m p i =
     (let v = ld64 m (slot p (of_nat i)) in if v AND PTE_V \<noteq> 0 then Some (PTE2PA v) else None)"

primrec tab :: "memory \<Rightarrow> uint64 \<Rightarrow> nat list \<Rightarrow> uint64 option" where
  "tab m p [] = Some p"
| "tab m p (i # is) = (case child m p i of None \<Rightarrow> None | Some q \<Rightarrow> tab m q is)"

definition vpath :: "uint64 \<Rightarrow> nat list" where
  "vpath va = [unat (PX 2 va), unat (PX 1 va)]"

definition leaf :: "memory \<Rightarrow> uint64 \<Rightarrow> uint64 \<Rightarrow> uint64" where
  "leaf m root va =
     (case tab m root (vpath va) of None \<Rightarrow> 0 | Some p \<Rightarrow> ld64 m (slot p (PX 0 va)))"

definition path_ok :: "nat list \<Rightarrow> bool" where
  "path_ok is \<longleftrightarrow> length is \<le> 2 \<and> (\<forall>i \<in> set is. i < 512)"

definition tables :: "memory \<Rightarrow> uint64 \<Rightarrow> uint64 set" where
  "tables m root = {p. \<exists>is. path_ok is \<and> tab m root is = Some p}"

definition pt_ok :: "kmem \<Rightarrow> uint64 list \<Rightarrow> uint64 \<Rightarrow> bool" where
  "pt_ok s ps root \<longleftrightarrow> kmem_inv s ps \<and>
     (\<forall>p \<in> tables (kmem_mem s) root. page_ok s p \<and> p \<notin> set ps) \<and>
     (\<forall>is js p. path_ok is \<longrightarrow> path_ok js \<longrightarrow> tab (kmem_mem s) root is = Some p \<longrightarrow>
        tab (kmem_mem s) root js = Some p \<longrightarrow> is = js)"

lemma vpath_ok [simp]: "path_ok (vpath va)"
  by (auto simp: vpath_def path_ok_def)

lemma tablesI: "path_ok is \<Longrightarrow> tab m root is = Some p \<Longrightarrow> p \<in> tables m root"
  by (auto simp: tables_def)

lemma path_ok_snoc: "path_ok (is @ [i]) \<longleftrightarrow> path_ok is \<and> length is \<le> 1 \<and> i < 512"
  by (auto simp: path_ok_def)

lemma path_ok_Nil [simp]: "path_ok []"
  by (simp add: path_ok_def)

lemma tab_snoc:
  "tab m p (is @ [i]) = (case tab m p is of None \<Rightarrow> None | Some q \<Rightarrow> child m q i)"
  by (induction "is" arbitrary: p) (auto split: option.splits)

lemma slot_PX: "slot p (PX l va) = slot p (of_nat (unat (PX l va)))"
  by simp

lemma tables_aligned: "pt_ok s ps root \<Longrightarrow> p \<in> tables (kmem_mem s) root \<Longrightarrow> page_aligned p"
  by (auto simp: pt_ok_def page_ok_def)

lemma pt_okD:
  assumes "pt_ok s ps root" "path_ok is" "tab (kmem_mem s) root is = Some p"
  shows "page_aligned p" "page_ok s p" "p \<notin> set ps" "p \<noteq> 0"
proof -
  have "p \<in> tables (kmem_mem s) root" using assms(2,3) by (auto simp: tables_def)
  then show "page_ok s p" "p \<notin> set ps" using assms(1) by (auto simp: pt_ok_def)
  then show "page_aligned p" "p \<noteq> 0"
    using assms(1) page_ok_nonzero [of s p] by (auto simp: pt_ok_def page_ok_def kmem_inv_def)
qed

lemma pt_ok_inj:
  "pt_ok s ps root \<Longrightarrow> path_ok is \<Longrightarrow> path_ok js \<Longrightarrow> tab (kmem_mem s) root is = Some p \<Longrightarrow>
   tab (kmem_mem s) root js = Some p \<Longrightarrow> is = js"
  by (auto simp: pt_ok_def)

lemma child_cong:
  "page_aligned p \<Longrightarrow> i < 512 \<Longrightarrow> (\<And>x. pgno x = pgno p \<Longrightarrow> m x = m' x) \<Longrightarrow> child m p i = child m' p i"
  using ld64_slot_cong [of p i m m'] by (simp add: child_def slot_of_nat)

lemma tab_cong:
  assumes "\<And>p x. p \<in> tables m root \<Longrightarrow> pgno x = pgno p \<Longrightarrow> m x = m' x"
    and "\<And>p. p \<in> tables m root \<Longrightarrow> page_aligned p"
  shows "path_ok is \<Longrightarrow> tab m' root is = tab m root is"
proof (induction "is" rule: rev_induct)
  case (snoc i "is")
  then have ok: "path_ok is" "i < 512" by (auto simp: path_ok_snoc)
  with snoc have IH: "tab m' root is = tab m root is" by simp
  show ?case
  proof (cases "tab m root is")
    case (Some q)
    then have "q \<in> tables m root" using ok by (auto simp: tables_def)
    then have "child m q i = child m' q i" using assms ok by (intro child_cong) auto
    then show ?thesis using IH Some by (simp add: tab_snoc)
  qed (simp add: IH tab_snoc)
qed simp

section \<open>Adding one table page\<close>

text \<open>\<open>grow m q p i\<close>: clear page \<open>q\<close> and make it the child of \<open>p\<close> at index \<open>i\<close>.\<close>

definition grow :: "memory \<Rightarrow> uint64 \<Rightarrow> uint64 \<Rightarrow> nat \<Rightarrow> memory" where
  "grow m q p i = st64 (memset m q 0 4096) (slot p (of_nat i)) (PA2PTE q OR PTE_V)"

lemma ld64_zero: "(\<And>k. k < 8 \<Longrightarrow> m (a + of_nat k) = 0) \<Longrightarrow> ld64 m a = 0"
proof -
  assume "\<And>k. k < 8 \<Longrightarrow> m (a + of_nat k) = 0"
  then have "ld64 m a = ld64 (\<lambda>_. 0) a" by (intro ld64_cong) auto
  then show ?thesis by (simp add: ld64_def)
qed

lemma page_ok_PTE: "page_ok s q \<Longrightarrow> PTE2PA (PA2PTE q OR PTE_V) = q"
  by (rule PTE2PA_PA2PTE) (auto simp: page_ok_def PTE_V_def word_less_nat_alt unat_PHYSTOP)

lemma PTE_V_nonzero [simp]: "PTE_V \<noteq> 0"
  by (simp add: PTE_V_def)

lemma grow_link: "PTE2PA (PA2PTE q OR PTE_V) = q \<Longrightarrow> child (grow m q p i) p i = Some q"
  by (simp add: child_def grow_def pte_flag_V Let_def)

lemma grow_new:
  assumes "page_aligned q" "page_aligned p" "q \<noteq> p" "i < 512" "j < 512"
  shows "ld64 (grow m q p i) (slot q (of_nat j)) = 0"
proof -
  have "ld64 (memset m q 0 4096) (slot q (of_nat j)) = 0"
    using assms slot_in_page [of q j] by (intro ld64_zero) (simp add: memset_page slot_of_nat)
  then show ?thesis using assms by (simp add: grow_def ld64_st64_slot)
qed

lemma grow_old:
  assumes "page_aligned q" "page_aligned p" "i < 512"
    and "page_aligned r" "r \<noteq> q" "j < 512" "(p, i) \<noteq> (r, j)"
  shows "ld64 (grow m q p i) (slot r (of_nat j)) = ld64 m (slot r (of_nat j))"
proof -
  have "ld64 (memset m q 0 4096) (slot r (of_nat j)) = ld64 m (slot r (of_nat j))"
    using assms unfolding slot_of_nat by (intro ld64_slot_cong) (auto simp: memset_page pgno_inj)
  then show ?thesis using assms by (simp add: grow_def ld64_st64_slot)
qed

lemma grow_byte:
  "page_aligned q \<Longrightarrow> page_aligned p \<Longrightarrow> i < 512 \<Longrightarrow> pgno x \<noteq> pgno q \<Longrightarrow> pgno x \<noteq> pgno p \<Longrightarrow>
   grow m q p i x = m x"
  by (simp add: grow_def slot_of_nat st64_slot_other_page memset_page)

text \<open>
  One step of \<open>walk\<close> that adds a table: \<open>m1\<close> is the memory after \<open>kalloc\<close> handed out
  \<open>q\<close>, and the paths of the tree are those of before and the new one.
\<close>

definition grow_pre ::
  "kmem \<Rightarrow> uint64 list \<Rightarrow> uint64 \<Rightarrow> uint64 \<Rightarrow> uint64 \<Rightarrow> nat list \<Rightarrow> nat \<Rightarrow> memory \<Rightarrow> bool" where
  "grow_pre s ps root q p is i m1 \<longleftrightarrow> pt_ok s ps root \<and> page_ok s q \<and> q \<in> set ps \<and>
     path_ok (is @ [i]) \<and> tab (kmem_mem s) root is = Some p \<and> child (kmem_mem s) p i = None \<and>
     (\<forall>x. pgno x \<noteq> pgno q \<longrightarrow> m1 x = kmem_mem s x)"

lemma grow_preD:
  assumes "grow_pre s ps root q p is i m1"
  shows "page_aligned p" "page_aligned q" "i < 512" "path_ok is" "q \<notin> tables (kmem_mem s) root" "q \<noteq> p"
    "p \<in> tables (kmem_mem s) root"
proof -
  show "page_aligned p" "page_aligned q" "i < 512" and pi: "path_ok is"
    using assms pt_okD [of s ps root "is" p] by (auto simp: grow_pre_def path_ok_snoc page_ok_def)
  show nt: "q \<notin> tables (kmem_mem s) root" using assms by (auto simp: grow_pre_def pt_ok_def)
  show "p \<in> tables (kmem_mem s) root" using assms pi by (auto simp: grow_pre_def tables_def)
  with nt show "q \<noteq> p" by auto
qed

lemma grow_ld64_old:
  assumes g: "grow_pre s ps root q p is i m1"
    and r: "r \<in> tables (kmem_mem s) root" "j < 512" "(p, i) \<noteq> (r, j)"
  shows "ld64 (grow m1 q p i) (slot r (of_nat j)) = ld64 (kmem_mem s) (slot r (of_nat j))"
proof -
  note al = grow_preD [OF g]
  have r': "page_aligned r" "r \<noteq> q" using r al g tables_aligned [of s ps root r]
    by (auto simp: grow_pre_def)
  then have "ld64 m1 (slot r (of_nat j)) = ld64 (kmem_mem s) (slot r (of_nat j))"
    using g al r(2) unfolding slot_of_nat
    by (intro ld64_slot_cong) (auto simp: pgno_inj grow_pre_def)
  then show ?thesis using grow_old [OF al(2,1,3) r' r(2,3), of m1] by simp
qed

lemma tab_grow:
  assumes g: "grow_pre s ps root q p is i m1"
  shows "path_ok js \<Longrightarrow>
    tab (grow m1 q p i) root js = (if js = is @ [i] then Some q else tab (kmem_mem s) root js)"
    (is "_ \<Longrightarrow> tab ?m root js = _")
proof (induction js rule: rev_induct)
  case (snoc j ks)
  note al = grow_preD [OF g]
  from g have pre: "tab (kmem_mem s) root is = Some p" "child (kmem_mem s) p i = None"
    and ok: "pt_ok s ps root" and q: "page_ok s q" by (auto simp: grow_pre_def)
  from snoc have ks: "path_ok ks" "j < 512"
    and IH: "tab ?m root ks = (if ks = is @ [i] then Some q else tab (kmem_mem s) root ks)"
    by (auto simp: path_ok_snoc)
  consider "ks = is @ [i]" | "ks \<noteq> is @ [i]" "tab (kmem_mem s) root ks = None"
    | r where "ks \<noteq> is @ [i]" "tab (kmem_mem s) root ks = Some r" by fastforce
  then show ?case
  proof cases
    case 1
    have "child ?m q j = None" using grow_new [OF al(2,1,6,3) ks(2)] by (simp add: child_def)
    then show ?thesis using IH 1 pre by (simp add: tab_snoc del: append_assoc)
  next
    case 2
    then show ?thesis using IH pre by (auto simp: tab_snoc)
  next
    case (3 r)
    then have r: "r \<in> tables (kmem_mem s) root" using ks by (auto simp: tables_def)
    show ?thesis
    proof (cases "(p, i) = (r, j)")
      case True
      then have "ks = is" using pt_ok_inj [OF ok ks(1) al(4) 3(2)] pre by simp
      then show ?thesis using True IH 3 pre grow_link [OF page_ok_PTE [OF q]] by (simp add: tab_snoc)
    next
      case False
      then have "\<not> (ks = is \<and> j = i)" using 3 pre by auto
      then show ?thesis
        using IH 3 grow_ld64_old [OF g r ks(2) False] by (auto simp: tab_snoc child_def)
    qed
  qed
qed simp

lemma leaf_grow:
  assumes g: "grow_pre s ps root q p is i m1"
  shows "leaf (grow m1 q p i) root va = leaf (kmem_mem s) root va"
proof -
  note al = grow_preD [OF g]
  have ok: "pt_ok s ps root" and pre: "tab (kmem_mem s) root is = Some p" "child (kmem_mem s) p i = None"
    using g by (auto simp: grow_pre_def)
  show ?thesis
  proof (cases "vpath va = is @ [i]")
    case True
    then show ?thesis
      using tab_grow [OF g vpath_ok [of va]] pre grow_new [OF al(2,1,6,3) PX_lt [of 0 va]]
      by (simp add: leaf_def tab_snoc)
  next
    case False
    have "ld64 (grow m1 q p i) (slot r (PX 0 va)) = ld64 (kmem_mem s) (slot r (PX 0 va))"
      if r: "tab (kmem_mem s) root (vpath va) = Some r" for r
    proof -
      have "r \<noteq> p" using pt_ok_inj [OF ok vpath_ok al(4) r] pre g
        by (auto simp: grow_pre_def path_ok_snoc vpath_def)
      moreover have "r \<in> tables (kmem_mem s) root" using r by (rule tablesI [OF vpath_ok])
      ultimately show ?thesis using grow_ld64_old [OF g _ PX_lt [of 0 va], of r] by simp
    qed
    then show ?thesis
      using tab_grow [OF g vpath_ok [of va]] False by (auto simp: leaf_def split: option.split)
  qed
qed

section \<open>What \<open>walk\<close> does to the tree\<close>

text \<open>
  \<open>same_view s ps s' ps' root\<close>: the allocator and the tree of \<open>root\<close> are well-formed in
  \<open>s'\<close>, no leaf entry changed, and pages that were neither free nor tables kept their bytes.
\<close>

definition same_view :: "kmem \<Rightarrow> uint64 list \<Rightarrow> kmem \<Rightarrow> uint64 list \<Rightarrow> uint64 \<Rightarrow> bool" where
  "same_view s ps s' ps' root \<longleftrightarrow> pt_ok s' ps' root \<and> set ps' \<subseteq> set ps \<and> page_ok s' = page_ok s \<and>
     tables (kmem_mem s') root \<subseteq> tables (kmem_mem s) root \<union> set ps \<and>
     (\<forall>va. leaf (kmem_mem s') root va = leaf (kmem_mem s) root va) \<and>
     (\<forall>d x. page_aligned d \<longrightarrow> d \<notin> set ps \<longrightarrow> d \<notin> tables (kmem_mem s) root \<longrightarrow> pgno x = pgno d \<longrightarrow>
        kmem_mem s' x = kmem_mem s x)"

lemma same_view_refl: "pt_ok s ps root \<Longrightarrow> same_view s ps s ps root"
  by (simp add: same_view_def)

lemma same_view_trans:
  "same_view s ps s1 ps1 root \<Longrightarrow> same_view s1 ps1 s2 ps2 root \<Longrightarrow> same_view s ps s2 ps2 root"
  unfolding same_view_def by (intro conjI) (auto 4 4)

lemma same_view_grow:
  assumes ok: "pt_ok s (q # ps') root" and k: "kalloc s = (q, s1)" "kmem_inv s1 ps'" "page_ok s1 = page_ok s"
    and fr: "\<forall>x. pgno x \<noteq> pgno q \<longrightarrow> kmem_mem s1 x = kmem_mem s x"
    and pre: "path_ok (is @ [i])" "tab (kmem_mem s) root is = Some p" "child (kmem_mem s) p i = None"
  shows "same_view s (q # ps') (set_mem (grow (kmem_mem s1) q p i) s1) ps' root"
    (is "same_view _ _ ?s _ _")
proof -
  have qok: "page_ok s q" using ok by (simp add: pt_ok_def kmem_inv_def)
  then have g: "grow_pre s (q # ps') root q p is i (kmem_mem s1)"
    using assms by (auto simp: grow_pre_def)
  note al = grow_preD [OF g]
  have mem: "kmem_mem ?s = grow (kmem_mem s1) q p i" by (simp add: set_mem_def)
  have nin: "q \<notin> set ps'" "p \<notin> set ps'" "distinct ps'"
    using ok pt_okD(3) [OF ok al(4) pre(2)] by (auto simp: pt_ok_def kmem_inv_def)
  have "kmem_inv ?s ps'" unfolding set_mem_def
  proof (rule kmem_inv_same_pages [OF k(2)])
    fix a x assume a: "a \<in> set ps'" "pgno x = pgno a"
    then have "page_aligned a" using k by (auto simp: kmem_inv_def page_ok_def)
    with a nin al have "pgno x \<noteq> pgno q" "pgno x \<noteq> pgno p" by (auto simp: pgno_inj)
    then show "kmem_mem s1 x = kmem_mem (s1\<lparr>kmem_mem := grow (kmem_mem s1) q p i\<rparr>) x"
      using al by (simp add: grow_byte)
  qed simp_all
  moreover have tabs: "tables (kmem_mem ?s) root \<subseteq> insert q (tables (kmem_mem s) root)"
    using tab_grow [OF g] unfolding mem by (auto simp: tables_def split: if_splits)
  moreover have "page_ok ?s = page_ok s" using k(3) by (simp add: set_mem_def fun_eq_iff)
  moreover have "ks = js" if "path_ok ks" "path_ok js" "tab (kmem_mem ?s) root ks = Some r"
      "tab (kmem_mem ?s) root js = Some r" for ks js r
    using that tab_grow [OF g] al(5) pt_ok_inj [OF ok that(1,2), of r]
    unfolding mem by (auto simp: tables_def split: if_splits)
  ultimately have "pt_ok ?s ps' root"
    using ok nin qok unfolding pt_ok_def by auto
  moreover have "kmem_mem ?s x = kmem_mem s x"
    if "page_aligned d" "d \<notin> set (q # ps')" "d \<notin> tables (kmem_mem s) root" "pgno x = pgno d" for d x
  proof -
    have "d \<noteq> q" "d \<noteq> p" using that al(7) by auto
    then show ?thesis using that al fr by (simp add: mem grow_byte pgno_inj)
  qed
  ultimately show ?thesis
    using tabs leaf_grow [OF g] \<open>page_ok ?s = page_ok s\<close> unfolding same_view_def mem by auto
qed

lemma child_slot:
  "child m p (unat (PX l va)) =
     (let v = ld64 m (slot p (PX l va)) in if v AND PTE_V \<noteq> 0 then Some (PTE2PA v) else None)"
  by (simp add: child_def)

lemma vpath_step: "l \<le> 1 \<Longrightarrow> take (1 - l) (vpath va) @ [unat (PX (Suc l) va)] = take (2 - l) (vpath va)"
  by (cases l) (auto simp: vpath_def numeral_2_eq_2)

lemma path_ok_take: "path_ok (take n (vpath va))"
  using vpath_ok [of va] by (auto simp: path_ok_def dest: in_set_takeD)

lemma slot_nonzero:
  assumes "pt_ok s ps root" "tab (kmem_mem s) root (vpath va) = Some r"
  shows "slot r (PX 0 va) \<noteq> 0"
proof
  assume z: "slot r (PX 0 va) = 0"
  have r: "page_aligned r" "r \<noteq> 0" using pt_okD [OF assms(1) vpath_ok assms(2)] by auto
  have "pgno (slot r (PX 0 va)) = pgno r"
    using slot_in_page [OF r(1) PX_lt [of 0 va], of 0] by (simp add: slot_def)
  then have "pgno r = 0" by (simp add: z pgno_def)
  then show False using page_aligned_pgno [OF r(1)] r(2) by (simp add: unat_eq_0)
qed

lemma walk_level_True:
  "walk_level l p va True s = (pte, s') \<Longrightarrow> l \<le> 2 \<Longrightarrow> pt_ok s ps root \<Longrightarrow>
   tab (kmem_mem s) root (take (2 - l) (vpath va)) = Some p \<Longrightarrow>
   \<exists>ps'. same_view s ps s' ps' root \<and> length ps \<le> length ps' + l \<and> (pte = 0 \<longrightarrow> length ps < l) \<and>
     (pte = 0 \<or> (\<exists>r. tab (kmem_mem s') root (vpath va) = Some r \<and> pte = slot r (PX 0 va)))"
proof (induction l arbitrary: p s ps)
  case 0
  then have "tab (kmem_mem s) root (vpath va) = Some p" by (simp add: vpath_def)
  then show ?case using 0 slot_nonzero same_view_refl [of s ps root] by fastforce
next
  case (Suc l)
  let ?is = "take (1 - l) (vpath va)" and ?i = "unat (PX (Suc l) va)"
  have l: "l \<le> 1" "?is @ [?i] = take (2 - l) (vpath va)" "2 - Suc l = 1 - l"
    using Suc.prems(2) vpath_step by auto
  have here: "tab (kmem_mem s) root ?is = Some p" using Suc.prems(4) l by simp
  have step: "tab (kmem_mem s) root (take (2 - l) (vpath va)) = child (kmem_mem s) p ?i"
    using here unfolding l(2) [symmetric] by (simp add: tab_snoc)
  show ?case
  proof (cases "child (kmem_mem s) p ?i")
    case (Some q)
    then have "walk_level l q va True s = (pte, s')"
      using Suc.prems(1) by (auto simp: child_slot Let_def split: if_splits)
    then show ?thesis using Suc.IH [of q s ps] Suc.prems(2,3) step Some by fastforce
  next
    case None
    then have nv: "ld64 (kmem_mem s) (slot p (PX (Suc l) va)) AND PTE_V = 0"
      by (simp add: child_slot Let_def split: if_splits)
    have "kmem_inv s ps" using Suc.prems(3) by (simp add: pt_ok_def)
    then show ?thesis
    proof (cases rule: kp.alloc_cases)
      case 1
      then show ?thesis using Suc.prems nv same_view_refl [of s ps root] by auto
    next
      case (2 q ps' s1)
      let ?s = "set_mem (grow (kmem_mem s1) q p ?i) s1"
      have pok: "path_ok (?is @ [?i])" unfolding l(2) by (rule path_ok_take)
      have sv: "same_view s ps ?s ps' root"
        unfolding 2(1) using Suc.prems(3) 2 here None pok by (intro same_view_grow [OF _ 2(2,3,4)]) auto
      have ok: "pt_ok ?s ps' root" using sv by (simp add: same_view_def)
      have tab: "tab (kmem_mem ?s) root (take (2 - l) (vpath va)) = Some q"
      proof -
        have "grow_pre s ps root q p ?is ?i (kmem_mem s1)"
          using Suc.prems(3) 2 here None pok by (auto simp: grow_pre_def)
        from tab_grow [OF this pok] show ?thesis unfolding l(2) by (simp add: set_mem_def)
      qed
      have "walk_level l q va True ?s = (pte, s')" using Suc.prems(1) nv 2 by (simp add: grow_def)
      from Suc.IH [OF this _ ok tab] Suc.prems(2) obtain ps'' where
        "same_view ?s ps' s' ps'' root" "length ps' \<le> length ps'' + l" "pte = 0 \<longrightarrow> length ps' < l"
        "pte = 0 \<or> (\<exists>r. tab (kmem_mem s') root (vpath va) = Some r \<and> pte = slot r (PX 0 va))" by auto
      then show ?thesis using same_view_trans [OF sv] 2(1) by (intro exI [of _ ps'']) auto
    qed
  qed
qed

lemma walk_level_False:
  "walk_level 2 root va False s =
     (case tab (kmem_mem s) root (vpath va) of None \<Rightarrow> 0 | Some r \<Rightarrow> slot r (PX 0 va), s)"
  by (simp add: numeral_2_eq_2 vpath_def child_slot Let_def)

section \<open>Writing one leaf entry\<close>

definition same_page :: "uint64 \<Rightarrow> uint64 \<Rightarrow> bool" where
  "same_page a b \<longleftrightarrow> vpath a = vpath b \<and> PX 0 a = PX 0 b"

lemma digits_eq:
  fixes a b :: nat
  assumes "a mod 512 = b mod 512" "a div 512 mod 512 = b div 512 mod 512"
    and "a div (512 * 512) = b div (512 * 512)"
  shows "a = b"
proof -
  have "a div 512 div 512 = b div 512 div 512" using assms(3) by (simp only: div_mult2_eq)
  then have "a div 512 = b div 512" using assms(2) by (metis div_mult_mod_eq)
  then show ?thesis using assms(1) by (metis div_mult_mod_eq)
qed

lemma same_page_iff:
  assumes "a < MAXVA" "b < MAXVA"
  shows "same_page a b \<longleftrightarrow> pgno a = pgno b"
proof
  assume sp: "same_page a b"
  have lt: "unat a < 274877906944" "unat b < 274877906944"
    using assms by (simp_all add: word_less_nat_alt unat_MAXVA)
  have px: "unat (PX 0 x) = unat x div 4096 mod 512" "unat (PX 1 x) = unat x div 4096 div 512 mod 512"
    "unat (PX 2 x) = unat x div 4096 div (512 * 512) mod 512" for x
    by (simp_all add: PX_unat div_mult2_eq [symmetric])
  have top: "unat x div 4096 div (512 * 512) mod 512 = unat x div 4096 div (512 * 512)"
    if "unat x < 274877906944" for x :: uint64
    using that by (simp add: div_mult2_eq [symmetric])
  have "unat a div 4096 = unat b div 4096"
  proof (rule digits_eq)
    show "unat a div 4096 mod 512 = unat b div 4096 mod 512"
      unfolding px(1) [symmetric] using sp by (simp add: same_page_def)
    show "unat a div 4096 div 512 mod 512 = unat b div 4096 div 512 mod 512"
      unfolding px(2) [symmetric] using sp by (simp add: same_page_def vpath_def)
    show "unat a div 4096 div (512 * 512) = unat b div 4096 div (512 * 512)"
      using sp px(3) [of a] px(3) [of b] top [OF lt(1)] top [OF lt(2)]
      by (simp add: same_page_def vpath_def)
  qed
  then show "pgno a = pgno b" by (simp add: pgno_def)
next
  assume "pgno a = pgno b"
  then have "unat a div 4096 = unat b div 4096" by (simp add: pgno_def)
  moreover have "unat (PX l x) = unat x div 4096 div 2 ^ (9 * l) mod 512" for l x
    by (simp add: PX_unat power_add div_mult2_eq)
  ultimately show "same_page a b" by (simp add: same_page_def vpath_def word_unat_eq_iff)
qed

lemma tab_leaf_store:
  assumes ok: "pt_ok s ps root" and r: "tab (kmem_mem s) root (vpath va) = Some r"
  shows "path_ok js \<Longrightarrow>
    tab (st64 (kmem_mem s) (slot r (PX 0 va)) v) root js = tab (kmem_mem s) root js"
    (is "_ \<Longrightarrow> tab ?m root js = _")
proof (induction js rule: rev_induct)
  case (snoc j ks)
  then have ks: "path_ok ks" "length ks \<le> 1" "j < 512" and IH: "tab ?m root ks = tab (kmem_mem s) root ks"
    by (auto simp: path_ok_snoc)
  have "child ?m q j = child (kmem_mem s) q j" if q: "tab (kmem_mem s) root ks = Some q" for q
  proof -
    have "q \<noteq> r" using pt_ok_inj [OF ok ks(1) vpath_ok q] r ks(2) by (auto simp: vpath_def)
    moreover have "page_aligned q" "page_aligned r"
      using pt_okD(1) [OF ok ks(1) q] pt_okD(1) [OF ok vpath_ok r] by auto
    ultimately show ?thesis
      using ld64_st64_slot [of r q "unat (PX 0 va)" j] ks(3) by (simp add: child_def)
  qed
  then show ?case using IH by (simp add: tab_snoc split: option.split)
qed simp

lemma leaf_store:
  assumes ok: "pt_ok s ps root" and r: "tab (kmem_mem s) root (vpath va) = Some r"
  shows "leaf (st64 (kmem_mem s) (slot r (PX 0 va)) v) root va' =
    (if same_page va' va then v else leaf (kmem_mem s) root va')"
proof (cases "tab (kmem_mem s) root (vpath va')")
  case None
  then show ?thesis
    using tab_leaf_store [OF ok r vpath_ok [of va']] r by (auto simp: leaf_def same_page_def)
next
  case (Some r')
  have al: "page_aligned r" "page_aligned r'"
    using pt_okD(1) [OF ok vpath_ok r] pt_okD(1) [OF ok vpath_ok Some] by auto
  have path: "vpath va = vpath va' \<longleftrightarrow> r = r'"
  proof
    show "vpath va = vpath va' \<Longrightarrow> r = r'" using r Some by simp
    show "r = r' \<Longrightarrow> vpath va = vpath va'" using pt_ok_inj [OF ok vpath_ok vpath_ok r] Some by simp
  qed
  then have "ld64 (st64 (kmem_mem s) (slot r (PX 0 va)) v) (slot r' (PX 0 va')) =
      (if same_page va' va then v else ld64 (kmem_mem s) (slot r' (PX 0 va')))"
    using ld64_st64_slot [OF al PX_lt [of 0 va] PX_lt [of 0 va'], of "kmem_mem s" v]
      word_unat_eq_iff [of "PX 0 va" "PX 0 va'"]
    by (cases "r = r'"; cases "PX 0 va = PX 0 va'") (simp_all add: same_page_def)
  then show ?thesis using tab_leaf_store [OF ok r vpath_ok [of va']] Some by (simp add: leaf_def)
qed

lemma tables_leaf_store:
  assumes "pt_ok s ps root" "tab (kmem_mem s) root (vpath va) = Some r"
  shows "tables (st64 (kmem_mem s) (slot r (PX 0 va)) v) root = tables (kmem_mem s) root"
  using tab_leaf_store [OF assms] by (auto simp: tables_def)

lemma leaf_store_byte:
  assumes "pt_ok s ps root" "tab (kmem_mem s) root (vpath va) = Some r"
    and "page_aligned d" "d \<notin> tables (kmem_mem s) root" "pgno x = pgno d"
  shows "st64 (kmem_mem s) (slot r (PX 0 va)) v x = kmem_mem s x"
proof -
  have r: "page_aligned r" "r \<noteq> d"
    using assms pt_okD(1) [OF assms(1) vpath_ok assms(2)] tablesI [OF vpath_ok assms(2)] by auto
  then have "pgno x \<noteq> pgno r" using assms by (simp add: pgno_inj)
  then show ?thesis
    using st64_slot_other_page [OF r(1) PX_lt [of 0 va], of x "kmem_mem s" v] by (simp add: slot_def)
qed

lemma pt_ok_leaf_store:
  assumes ok: "pt_ok s ps root" and r: "tab (kmem_mem s) root (vpath va) = Some r"
  shows "pt_ok (set_mem (st64 (kmem_mem s) (slot r (PX 0 va)) v) s) ps root"
proof -
  have "kmem_inv (set_mem (st64 (kmem_mem s) (slot r (PX 0 va)) v) s) ps" unfolding set_mem_def
  proof (rule kmem_inv_frame)
    show "kmem_inv s ps" using ok by (simp add: pt_ok_def)
    show "page_ok s r" "r \<notin> set ps" using pt_okD [OF ok vpath_ok r] by auto
    show "st64 (kmem_mem s) (slot r (PX 0 va)) v x = kmem_mem s x" if "pgno x \<noteq> pgno r" for x
      using st64_slot_other_page [OF pt_okD(1) [OF ok vpath_ok r] PX_lt [of 0 va] that, of "kmem_mem s" v]
      by (simp add: slot_def)
  qed
  then show ?thesis
    using ok tab_leaf_store [OF ok r, of _ v] tables_leaf_store [OF ok r, of v]
    by (simp add: pt_ok_def set_mem_def)
qed

section \<open>Ranges of mappings\<close>

definition in_range :: "uint64 \<Rightarrow> nat \<Rightarrow> uint64 \<Rightarrow> bool" where
  "in_range va k x \<longleftrightarrow> unat va \<le> unat x \<and> unat x < unat va + 4096 * k"

definition map_range ::
  "uint64 \<Rightarrow> nat \<Rightarrow> uint64 \<Rightarrow> uint64 \<Rightarrow> (uint64 \<Rightarrow> uint64) \<Rightarrow> uint64 \<Rightarrow> uint64" where
  "map_range va k pa perm f x =
     (if in_range va k x then PA2PTE (pa + (PGROUNDDOWN x - va)) OR perm OR PTE_V else f x)"

text \<open>
  \<open>view_step\<close>: like \<open>same_view\<close>, with the leaf entries below \<open>MAXVA\<close> changed by \<open>F\<close>.
\<close>

definition view_step ::
  "kmem \<Rightarrow> uint64 list \<Rightarrow> kmem \<Rightarrow> uint64 list \<Rightarrow> uint64 \<Rightarrow>
   ((uint64 \<Rightarrow> uint64) \<Rightarrow> uint64 \<Rightarrow> uint64) \<Rightarrow> bool" where
  "view_step s ps s' ps' root F \<longleftrightarrow> pt_ok s' ps' root \<and> set ps' \<subseteq> set ps \<and> page_ok s' = page_ok s \<and>
     tables (kmem_mem s') root \<subseteq> tables (kmem_mem s) root \<union> set ps \<and>
     (\<forall>va < MAXVA. leaf (kmem_mem s') root va = F (leaf (kmem_mem s) root) va) \<and>
     (\<forall>d x. page_aligned d \<longrightarrow> d \<notin> set ps \<longrightarrow> d \<notin> tables (kmem_mem s) root \<longrightarrow> pgno x = pgno d \<longrightarrow>
        kmem_mem s' x = kmem_mem s x)"

lemma view_step_same: "same_view s ps s' ps' root \<Longrightarrow> view_step s ps s' ps' root (\<lambda>f. f)"
  by (simp add: same_view_def view_step_def)

lemma view_step_trans:
  assumes "view_step s ps s1 ps1 root F" "view_step s1 ps1 s2 ps2 root G"
    and "\<And>f g va. va < MAXVA \<Longrightarrow> (\<And>x. x < MAXVA \<Longrightarrow> g x = F f x) \<Longrightarrow> G g va = H f va"
  shows "view_step s ps s2 ps2 root H"
proof -
  have "leaf (kmem_mem s2) root va = H (leaf (kmem_mem s) root) va" if "va < MAXVA" for va
    using assms(1,2) that assms(3) [OF that] by (simp add: view_step_def)
  then show ?thesis using assms(1,2) unfolding view_step_def by (intro conjI) (auto 4 4)
qed

lemma view_step_store:
  assumes "pt_ok s ps root" "tab (kmem_mem s) root (vpath va) = Some r" "va < MAXVA"
  shows "view_step s ps (set_mem (st64 (kmem_mem s) (slot r (PX 0 va)) v) s) ps root
    (\<lambda>f x. if pgno x = pgno va then v else f x)"
  unfolding view_step_def
proof (intro conjI allI impI)
  let ?s = "set_mem (st64 (kmem_mem s) (slot r (PX 0 va)) v) s"
  have m: "kmem_mem ?s = st64 (kmem_mem s) (slot r (PX 0 va)) v" by (simp add: set_mem_def)
  show "leaf (kmem_mem ?s) root x = (if pgno x = pgno va then v else leaf (kmem_mem s) root x)"
    if "x < MAXVA" for x
    using leaf_store [OF assms(1,2)] same_page_iff [OF that assms(3)] by (simp add: m)
  show "tables (kmem_mem ?s) root \<subseteq> tables (kmem_mem s) root \<union> set ps"
    using tables_leaf_store [OF assms(1,2)] by (simp add: m)
  show "kmem_mem ?s x = kmem_mem s x"
    if "page_aligned d" "d \<notin> tables (kmem_mem s) root" "pgno x = pgno d" for d x
    using leaf_store_byte [OF assms(1,2) that] by (simp add: m)
qed (use pt_ok_leaf_store [OF assms(1,2)] in \<open>auto simp: set_mem_def fun_eq_iff\<close>)

end
