(* ===== verification/Vm_Maps.thy ===== *)
theory Vm_Maps
  imports Vm_Tables
begin

text \<open>
  What \<open>mappages\<close> and \<open>uvmunmap\<close> of \<^verbatim>\<open>kernel/vm.c\<close> do to the leaf entries of a page
  table, and the copies of \<open>copyin\<close> and \<open>copyout\<close> through it.
\<close>

section \<open>\<open>mappages\<close>\<close>

lemma pgno_PGROUNDDOWN [simp]: "pgno (PGROUNDDOWN x) = pgno x"
  by (simp add: pgno_def PGROUNDDOWN_unat)

lemma PGROUNDDOWN_eq: "page_aligned a \<Longrightarrow> pgno x = pgno a \<Longrightarrow> PGROUNDDOWN x = a"
  using pgno_inj [of "PGROUNDDOWN x" a] by simp

lemma pgno_eq_iff:
  "page_aligned a \<Longrightarrow> pgno x = pgno a \<longleftrightarrow> unat a \<le> unat x \<and> unat x < unat a + 4096"
  by (simp only: page_aligned_pgno pgno_def [of x]) (auto intro: div_nat_eqI)

lemma in_range_Suc:
  assumes "page_aligned a" "unat a + 4096 < 18446744073709551616"
  shows "in_range a (Suc k) x \<longleftrightarrow> pgno x = pgno a \<or> in_range (a + PGSIZE) k x"
proof -
  have u: "unat (a + PGSIZE) = unat a + 4096" using assms(2) by (simp add: PGSIZE_def unat_word_ariths)
  then show ?thesis using pgno_eq_iff [OF assms(1), of x] by (auto simp: in_range_def)
qed

lemma in_range_0 [simp]: "\<not> in_range a 0 x"
  by (simp add: in_range_def)

lemma map_range_0: "map_range a 0 pa perm = (\<lambda>f. f)"
  by (simp add: map_range_def fun_eq_iff)

lemma in_range_next:
  assumes "page_aligned a" "unat a + 4096 < 18446744073709551616" "in_range (a + PGSIZE) k x"
  shows "pgno x \<noteq> pgno a"
proof
  assume "pgno x = pgno a"
  then have "unat x < unat a + 4096" using pgno_eq_iff [OF assms(1), of x] by simp
  moreover have "unat (a + PGSIZE) = unat a + 4096"
    using assms(2) by (simp add: PGSIZE_def unat_word_ariths)
  ultimately show False using assms(3) by (simp add: in_range_def)
qed

lemma map_range_Suc:
  assumes "page_aligned a" "unat a + 4096 < 18446744073709551616"
  shows "map_range a (Suc k) pa perm f x =
    map_range (a + PGSIZE) k (pa + PGSIZE) perm
      (\<lambda>x. if pgno x = pgno a then PA2PTE pa OR perm OR PTE_V else f x) x"
proof -
  have "in_range (a + PGSIZE) k x \<Longrightarrow> pgno x \<noteq> pgno a" by (rule in_range_next [OF assms])
  then show ?thesis
    using in_range_Suc [OF assms, of k x] PGROUNDDOWN_eq [OF assms(1), of x]
    by (auto simp: map_range_def algebra_simps)
qed

text \<open>The value \<open>walk\<close> with \<open>alloc\<close> returns, and the state it leaves.\<close>

lemma walk_True:
  assumes "pt_ok s ps root" "va < MAXVA"
  obtains pte s' ps' where "walk root va True s = Ret (pte, s')" "same_view s ps s' ps' root"
    "length ps \<le> length ps' + 2" "pte = 0 \<longrightarrow> length ps < 2"
    "pte = 0 \<or> (\<exists>r. tab (kmem_mem s') root (vpath va) = Some r \<and> pte = slot r (PX 0 va) \<and> pte \<noteq> 0)"
proof -
  obtain pte s' where w: "walk_level 2 root va True s = (pte, s')" by fastforce
  from walk_level_True [OF w _ assms(1)] obtain ps' where v: "same_view s ps s' ps' root"
    and n: "length ps \<le> length ps' + 2" "pte = 0 \<longrightarrow> length ps < 2"
    and p: "pte = 0 \<or> (\<exists>r. tab (kmem_mem s') root (vpath va) = Some r \<and> pte = slot r (PX 0 va))"
    by auto
  have "pt_ok s' ps' root" using v by (simp add: same_view_def)
  then have "pte = 0 \<or> (\<exists>r. tab (kmem_mem s') root (vpath va) = Some r \<and> pte = slot r (PX 0 va) \<and> pte \<noteq> 0)"
    using p slot_nonzero by blast
  then show ?thesis using that w v n assms(2) by (simp add: walk_def not_le [symmetric])
qed

lemma leaf_eq: "tab m root (vpath va) = Some r \<Longrightarrow> leaf m root va = ld64 m (slot r (PX 0 va))"
  by (simp add: leaf_def)

lemma page_below_MAXVA:
  assumes "unat a + 4096 * Suc n \<le> 274877906944"
  shows "a < MAXVA" "unat (a + PGSIZE) = unat a + 4096" "unat a + 4096 < 18446744073709551616"
    "page_aligned a \<Longrightarrow> page_aligned (a + PGSIZE)"
proof -
  show "a < MAXVA" "unat a + 4096 < 18446744073709551616"
    using assms by (simp_all add: word_less_nat_alt unat_MAXVA)
  show "unat (a + PGSIZE) = unat a + 4096" using assms by (simp add: PGSIZE_def unat_word_ariths)
  then show "page_aligned a \<Longrightarrow> page_aligned (a + PGSIZE)" by (simp add: page_aligned_unat)
qed

text \<open>One iteration of the loop of \<open>mappages\<close> on an unmapped page.\<close>

lemma mappages_iter:
  assumes ok: "pt_ok s ps root" and a: "a < MAXVA" and free: "leaf (kmem_mem s) root a AND PTE_V = 0"
  obtains s1 ps1 where "same_view s ps s1 ps1 root" "length ps < 2"
      "mappages_loop root a last_a pa perm s = Ret (-1, s1)"
  | s2 ps2 where "length ps \<le> length ps2 + 2"
      "view_step s ps s2 ps2 root (\<lambda>f x. if pgno x = pgno a then PA2PTE pa OR perm OR PTE_V else f x)"
      "mappages_loop root a last_a pa perm s =
        (if a = last_a then Ret (0, s2)
         else mappages_loop root (a + PGSIZE) last_a (pa + PGSIZE) perm s2)"
proof -
  from walk_True [OF ok a] obtain pte s1 ps1 where w: "walk root a True s = Ret (pte, s1)"
    and v: "same_view s ps s1 ps1 root" and n: "length ps \<le> length ps1 + 2" "pte = 0 \<longrightarrow> length ps < 2"
    and p: "pte = 0 \<or> (\<exists>r. tab (kmem_mem s1) root (vpath a) = Some r \<and> pte = slot r (PX 0 a) \<and> pte \<noteq> 0)"
    by metis
  show ?thesis
  proof (cases "pte = 0")
    case True
    then show ?thesis using that(1) v w n by (simp add: mappages_loop.simps [of root a])
  next
    case False
    with p obtain r where r: "tab (kmem_mem s1) root (vpath a) = Some r" "pte = slot r (PX 0 a)" by auto
    have ok1: "pt_ok s1 ps1 root" using v by (simp add: same_view_def)
    have inv: "ld64 (kmem_mem s1) pte AND PTE_V = 0"
      using leaf_eq [OF r(1)] r(2) v free by (simp add: same_view_def)
    let ?s2 = "set_mem (st64 (kmem_mem s1) pte (PA2PTE pa OR perm OR PTE_V)) s1"
    have "view_step s1 ps1 ?s2 ps1 root (\<lambda>f x. if pgno x = pgno a then PA2PTE pa OR perm OR PTE_V else f x)"
      unfolding r(2) by (rule view_step_store [OF ok1 r(1) a])
    from view_step_trans [OF view_step_same [OF v] this]
    have "view_step s ps ?s2 ps1 root (\<lambda>f x. if pgno x = pgno a then PA2PTE pa OR perm OR PTE_V else f x)"
      by simp
    then show ?thesis
      using that(2) w n False inv by (simp add: mappages_loop.simps [of root a] Let_def)
  qed
qed

lemma mappages_loop_ok:
  assumes "pt_ok s ps root" "page_aligned a" "unat a + 4096 * Suc n \<le> 274877906944"
    and "\<forall>x. in_range a (Suc n) x \<longrightarrow> leaf (kmem_mem s) root x AND PTE_V = 0"
  shows "\<exists>r s' ps' k. mappages_loop root a (a + of_nat (4096 * n)) pa perm s = Ret (r, s') \<and>
    view_step s ps s' ps' root (map_range a k pa perm) \<and> (r = 0 \<and> k = Suc n \<or> r = -1 \<and> k \<le> n) \<and>
    (r = -1 \<longrightarrow> length ps < 2 * Suc n)"
  using assms
proof (induction n arbitrary: a pa s ps)
  case 0
  note a = page_below_MAXVA [OF 0(3)]
  have "leaf (kmem_mem s) root a AND PTE_V = 0" using 0(4) by (simp add: in_range_def)
  with 0(1) a(1) show ?case
  proof (cases rule: mappages_iter [of s ps root a "a + of_nat (4096 * 0)" pa perm])
    case (1 s1 ps1)
    then show ?thesis
      using view_step_same [OF 1(1)] 1(2) by (auto simp: map_range_0 intro!: exI [of _ "0 :: nat"])
  next
    case (2 s2 ps2)
    moreover have "map_range a (Suc 0) pa perm =
        (\<lambda>f x. if pgno x = pgno a then PA2PTE pa OR perm OR PTE_V else f x)"
      using map_range_Suc [OF 0(2) a(3), of 0 pa perm] by (simp add: map_range_0 fun_eq_iff)
    ultimately show ?thesis by auto
  qed
next
  case (Suc n)
  note a = page_below_MAXVA [OF Suc.prems(3)]
  let ?last = "a + of_nat (4096 * Suc n)"
  have last: "a \<noteq> ?last" "?last = a + PGSIZE + of_nat (4096 * n)"
    using Suc.prems(3) of_nat_u64_eq_iff [of "4096 * Suc n" 0] by (auto simp: PGSIZE_def)
  have "leaf (kmem_mem s) root a AND PTE_V = 0" using Suc.prems(4) by (simp add: in_range_def)
  with Suc.prems(1) a(1) show ?case
  proof (cases rule: mappages_iter [of s ps root a ?last pa perm])
    case (1 s1 ps1)
    then show ?thesis
      using view_step_same [OF 1(1)] 1(2) by (auto simp: map_range_0 intro!: exI [of _ "0 :: nat"])
  next
    case (2 s2 ps2)
    have free: "\<forall>x. in_range (a + PGSIZE) (Suc n) x \<longrightarrow> leaf (kmem_mem s2) root x AND PTE_V = 0"
    proof (intro allI impI)
      fix x assume x: "in_range (a + PGSIZE) (Suc n) x"
      then have "x < MAXVA"
        using Suc.prems(3) a(2) by (simp add: in_range_def word_less_nat_alt unat_MAXVA)
      then have "leaf (kmem_mem s2) root x = leaf (kmem_mem s) root x"
        using 2(2) in_range_next [OF Suc.prems(2) a(3) x] by (simp add: view_step_def)
      then show "leaf (kmem_mem s2) root x AND PTE_V = 0"
        using Suc.prems(4) in_range_Suc [OF Suc.prems(2) a(3)] x by simp
    qed
    have "unat (a + PGSIZE) + 4096 * Suc n \<le> 274877906944" using Suc.prems(3) a(2) by simp
    from Suc.IH [OF _ a(4) [OF Suc.prems(2)] this free, of ps2 "pa + PGSIZE"] 2(2)
    obtain r s' ps' k where
      IH: "mappages_loop root (a + PGSIZE) ?last (pa + PGSIZE) perm s2 = Ret (r, s')"
        "view_step s2 ps2 s' ps' root (map_range (a + PGSIZE) k (pa + PGSIZE) perm)"
        "r = 0 \<and> k = Suc n \<or> r = -1 \<and> k \<le> n" "r = -1 \<longrightarrow> length ps2 < 2 * Suc n"
      unfolding last(2) by (auto simp: view_step_def)
    have "view_step s ps s' ps' root (map_range a (Suc k) pa perm)"
      by (rule view_step_trans [OF 2(2) IH(2)])
        (simp add: map_range_Suc [OF Suc.prems(2) a(3)], simp add: map_range_def)
    then show ?thesis using 2(3) last(1) IH(1,3,4) 2(1) by (auto intro!: exI [of _ "Suc k"])
  qed
qed

text \<open>C5. Mapping \<open>size\<close> bytes at \<open>va\<close> in a well-formed page table, where no page of the range
  is mapped: \<open>mappages\<close> returns without panicking, the table stays well-formed, 0 means that
  exactly the entries of the range changed, each to its page of \<open>pa\<close> with \<open>perm\<close>, and \<open>-1\<close>
  (no page for a table) that a proper prefix of the range is mapped and nothing else changed. With
  two free pages for each page of the range it does return 0.\<close>

theorem mappages_maps:
  assumes ok: "pt_ok s ps root" and al: "va mod PGSIZE = 0" "sz mod PGSIZE = 0" "sz \<noteq> 0"
    and lt: "unat va + unat sz \<le> unat MAXVA"
    and free: "\<forall>x. unat va \<le> unat x \<and> unat x < unat va + unat sz \<longrightarrow>
      leaf (kmem_mem s) root x AND PTE_V = 0"
  shows "\<exists>r s' ps' n. mappages root va sz pa perm s = Ret (r, s') \<and> pt_ok s' ps' root \<and>
    (r = 0 \<and> n = unat sz \<or> r = -1 \<and> n < unat sz \<and> length ps < 2 * (unat sz div 4096)) \<and>
    (\<forall>x < MAXVA. leaf (kmem_mem s') root x =
       (if unat va \<le> unat x \<and> unat x < unat va + n
        then PA2PTE (pa + (PGROUNDDOWN x - va)) OR perm OR PTE_V
        else leaf (kmem_mem s) root x))"
proof -
  define n where "n = unat sz div 4096 - 1"
  have "unat sz mod 4096 = 0" "0 < unat sz"
    using al by (simp_all add: page_aligned_def [symmetric] page_aligned_unat unat_gt_0)
  then have n: "unat sz = 4096 * Suc n" by (auto simp: n_def)
  have a: "page_aligned va" using al by (simp add: page_aligned_def)
  have "sz = of_nat (4096 * Suc n)" unfolding n [symmetric] by simp
  then have last: "va + sz - PGSIZE = va + of_nat (4096 * n)" by (simp add: PGSIZE_def algebra_simps)
  have "unat va + 4096 * Suc n \<le> 274877906944" using lt n by (simp add: unat_MAXVA)
  moreover have "\<forall>x. in_range va (Suc n) x \<longrightarrow> leaf (kmem_mem s) root x AND PTE_V = 0"
    using free unfolding in_range_def n .
  ultimately obtain r s' ps' k
    where r: "mappages_loop root va (va + of_nat (4096 * n)) pa perm s = Ret (r, s')"
      and v: "view_step s ps s' ps' root (map_range va k pa perm)"
      and k: "r = 0 \<and> k = Suc n \<or> r = -1 \<and> k \<le> n" "r = -1 \<longrightarrow> length ps < 2 * Suc n"
    using mappages_loop_ok [OF ok a, of n pa perm] by blast
  have "mappages root va sz pa perm s = Ret (r, s')" using al r by (simp add: mappages_def last)
  then show ?thesis
    using v k n unfolding view_step_def map_range_def in_range_def
    by (intro exI [of _ r] exI [of _ s'] exI [of _ ps'] exI [of _ "4096 * k"]) auto
qed

section \<open>A new page table\<close>

lemma pt_ok_empty:
  assumes "kmem_inv s ps" "page_ok s root" "root \<notin> set ps"
    and z: "\<And>x. pgno x = pgno root \<Longrightarrow> kmem_mem s x = 0"
  shows "pt_ok s ps root" "leaf (kmem_mem s) root va = 0" "tables (kmem_mem s) root = {root}"
proof -
  have al: "page_aligned root" using assms(2) by (simp add: page_ok_def)
  have "ld64 (kmem_mem s) (slot root (of_nat i)) = 0" if "i < 512" for i
    using slot_in_page [OF al that] z by (intro ld64_zero) (simp add: slot_of_nat)
  then have c: "child (kmem_mem s) root i = None" if "i < 512" for i
    using that by (simp add: child_def)
  have t: "tab (kmem_mem s) root is = (if is = [] then Some root else None)" if "path_ok is" for "is"
    using that c by (cases "is") (auto simp: path_ok_def)
  then show tabs: "tables (kmem_mem s) root = {root}"
    by (auto simp: tables_def split: if_splits intro: exI [of _ "[]"])
  then show "pt_ok s ps root" using assms(1-3) t by (auto simp: pt_ok_def split: if_splits)
  show "leaf (kmem_mem s) root va = 0" using t [OF vpath_ok [of va]] by (simp add: leaf_def vpath_def)
qed

text \<open>A concrete allocator with two free pages and an empty page table, for the examples.\<close>

definition two_pages :: kmem where
  "two_pages = \<lparr>kmem_mem = st64 (\<lambda>_. 0) 0x80022000 0x80023000, freelist = 0x80022000, kend = 0x80021D60\<rparr>"

lemma two_pages_ok:
  "pt_ok two_pages [0x80022000, 0x80023000] 0x80100000" "leaf (kmem_mem two_pages) 0x80100000 va = 0"
  "page_ok two_pages 0x80200000" "tables (kmem_mem two_pages) 0x80100000 = {0x80100000}"
proof -
  let ?s = two_pages
  have al: "page_aligned 0x80022000" "page_aligned 0x80023000" "page_aligned 0x80100000"
    by (simp_all add: page_aligned_def PGSIZE_def)
  have off: "kmem_mem ?s x = 0" if "pgno x \<noteq> pgno 0x80022000" for x
    using st64_page_other [OF al(1) that] by (simp add: two_pages_def)
  have pg: "pgno 0x80023000 \<noteq> pgno 0x80022000" "pgno 0x80100000 \<noteq> pgno 0x80022000"
    by (simp_all add: pgno_def)
  have "ld64 (kmem_mem ?s) 0x80023000 = ld64 (\<lambda>_. 0) 0x80023000"
    using off pg by (intro ld64_page_cong [OF al(2)]) simp
  then have "ld64 (kmem_mem ?s) 0x80023000 = 0" by (simp add: ld64_def)
  then have inv: "kmem_inv ?s [0x80022000, 0x80023000]" "page_ok ?s 0x80100000"
    using al by (simp_all add: two_pages_def kmem_inv_def page_ok_def PHYSTOP_def KERNBASE_def)
  then show "pt_ok ?s [0x80022000, 0x80023000] 0x80100000" "leaf (kmem_mem ?s) 0x80100000 va = 0"
    "tables (kmem_mem ?s) 0x80100000 = {0x80100000}"
    using pt_ok_empty [OF inv] off pg by simp_all
  show "page_ok ?s 0x80200000"
    by (simp add: two_pages_def page_ok_def page_aligned_def PGSIZE_def PHYSTOP_def KERNBASE_def)
qed

theorem mappages_maps_witness:
  "\<exists>s' ps'. mappages 0x80100000 0x1000 0x1000 0x80200000 PTE_R two_pages = Ret (0, s') \<and>
     pt_ok s' ps' 0x80100000 \<and>
     leaf (kmem_mem s') 0x80100000 0x1ABC = PA2PTE 0x80200000 OR PTE_R OR PTE_V \<and>
     leaf (kmem_mem s') 0x80100000 0x2000 = 0"
proof -
  have "PGROUNDDOWN 0x1ABC = 0x1000" by (simp add: PGROUNDDOWN_def PGSIZE_def)
  then show ?thesis
    using mappages_maps [OF two_pages_ok(1), of "0x1000" "0x1000" "0x80200000" PTE_R] two_pages_ok(2)
    by (auto simp: PGSIZE_def unat_MAXVA MAXVA_def push_bit_eq_mult)
qed

lemma uvmcreate_ok:
  assumes "kmem_inv s ps"
  obtains "ps = []" "uvmcreate s = (0, s)"
  | root ps' s' where "ps = root # ps'" "uvmcreate s = (root, s')" "pt_ok s' ps' root"
      "\<And>va. leaf (kmem_mem s') root va = 0" "page_ok s' = page_ok s" "root \<noteq> 0"
  using assms
proof (cases rule: kp.alloc_cases)
  case 1
  then show ?thesis using that(1) by (simp add: uvmcreate_def)
next
  case (2 root ps' s1)
  let ?s = "set_mem (memset (kmem_mem s1) root 0 4096) s1"
  have "kmem_inv ?s ps'" unfolding set_mem_def
    using 2 by (intro kmem_inv_frame [of s1 ps' root]) (auto simp: memset_page)
  moreover have ok: "page_ok ?s root" "page_ok ?s = page_ok s" using 2 by (auto simp: set_mem_def fun_eq_iff)
  moreover have "kmem_mem ?s x = 0" if "pgno x = pgno root" for x
    using 2 that by (simp add: set_mem_def memset_page)
  ultimately have "pt_ok ?s ps' root" "\<And>va. leaf (kmem_mem ?s) root va = 0"
    using pt_ok_empty [of ?s ps' root] 2 by auto
  then show ?thesis using that(2) [of root ps' ?s] 2 ok(2) by (simp add: uvmcreate_def)
qed

section \<open>\<open>uvmunmap\<close>\<close>

lemma pt_ok_other_page:
  assumes ok: "pt_ok s ps root" and k: "kmem_inv s1 qs" "page_ok s1 = page_ok s" "set qs \<subseteq> insert d (set ps)"
    and d: "page_aligned d" "d \<notin> tables (kmem_mem s) root"
    and fr: "\<And>x. pgno x \<noteq> pgno d \<Longrightarrow> kmem_mem s1 x = kmem_mem s x"
  shows "pt_ok s1 qs root" "tables (kmem_mem s1) root = tables (kmem_mem s) root"
    "tab (kmem_mem s1) root (vpath va) = tab (kmem_mem s) root (vpath va)"
    "leaf (kmem_mem s1) root va = leaf (kmem_mem s) root va"
proof -
  have same: "kmem_mem s x = kmem_mem s1 x" if "p \<in> tables (kmem_mem s) root" "pgno x = pgno p" for p x
  proof -
    have "page_aligned p" "p \<noteq> d" using that d tables_aligned [OF ok] by auto
    then show ?thesis using that(2) d(1) fr [of x] by (simp add: pgno_inj)
  qed
  have tab: "tab (kmem_mem s1) root is = tab (kmem_mem s) root is" if "path_ok is" for "is"
    using tab_cong [OF same tables_aligned [OF ok] that] .
  then show t: "tables (kmem_mem s1) root = tables (kmem_mem s) root" by (auto simp: tables_def)
  show "tab (kmem_mem s1) root (vpath va) = tab (kmem_mem s) root (vpath va)" using tab by simp
  show "pt_ok s1 qs root"
    unfolding pt_ok_def
  proof (intro conjI ballI allI impI)
    fix p assume "p \<in> tables (kmem_mem s1) root"
    then have p: "p \<in> tables (kmem_mem s) root" using t by simp
    then show "page_ok s1 p" using ok k(2) by (simp add: pt_ok_def)
    show "p \<notin> set qs" using p ok k(3) d(2) by (auto simp: pt_ok_def)
  next
    show "is = js" if "path_ok is" "path_ok js" "tab (kmem_mem s1) root is = Some p"
        "tab (kmem_mem s1) root js = Some p" for "is" js p
      using that tab pt_ok_inj [OF ok that(1,2)] by simp
  qed (rule k)
  have "ld64 (kmem_mem s1) (slot r (PX 0 va)) = ld64 (kmem_mem s) (slot r (PX 0 va))"
    if "tab (kmem_mem s) root (vpath va) = Some r" for r
  proof -
    have "r \<in> tables (kmem_mem s) root" using tablesI [OF vpath_ok that] .
    then have "ld64 (kmem_mem s) (slot r (of_nat (unat (PX 0 va)))) =
        ld64 (kmem_mem s1) (slot r (of_nat (unat (PX 0 va))))"
      using same tables_aligned [OF ok] unfolding slot_of_nat by (intro ld64_slot_cong) auto
    then show ?thesis by simp
  qed
  then show "leaf (kmem_mem s1) root va = leaf (kmem_mem s) root va"
    using tab [OF vpath_ok [of va]] by (simp add: leaf_def split: option.split)
qed

lemma walk_False:
  "va < MAXVA \<Longrightarrow> walk root va False s =
     Ret (case tab (kmem_mem s) root (vpath va) of None \<Rightarrow> 0 | Some r \<Rightarrow> slot r (PX 0 va), s)"
  by (simp add: walk_def walk_level_False not_le [symmetric])

text \<open>\<open>unmappable\<close>: what \<open>uvmunmap\<close> expects of an entry it is to remove.\<close>

definition unmappable :: "kmem \<Rightarrow> uint64 list \<Rightarrow> uint64 \<Rightarrow> bool \<Rightarrow> uint64 \<Rightarrow> bool" where
  "unmappable s ps root do_free v \<longleftrightarrow> v AND PTE_V \<noteq> 0 \<and> PTE_FLAGS v \<noteq> PTE_V \<and>
     (do_free \<longrightarrow> page_ok s (PTE2PA v) \<and> PTE2PA v \<notin> set ps \<and> PTE2PA v \<notin> tables (kmem_mem s) root)"

lemma unmap_iter:
  assumes ok: "pt_ok s ps root" and a: "a < MAXVA" "a < end_a"
    and u: "unmappable s ps root do_free (leaf (kmem_mem s) root a)"
  obtains s' where
    "uvmunmap_loop root a end_a do_free s = uvmunmap_loop root (a + PGSIZE) end_a do_free s'"
    "pt_ok s' (if do_free then PTE2PA (leaf (kmem_mem s) root a) # ps else ps) root"
    "page_ok s' = page_ok s" "tables (kmem_mem s') root = tables (kmem_mem s) root"
    "\<And>x. x < MAXVA \<Longrightarrow> leaf (kmem_mem s') root x = (if pgno x = pgno a then 0 else leaf (kmem_mem s) root x)"
proof -
  let ?v = "leaf (kmem_mem s) root a" and ?ps = "if do_free then PTE2PA (leaf (kmem_mem s) root a) # ps else ps"
  obtain r where r: "tab (kmem_mem s) root (vpath a) = Some r"
    using u by (cases "tab (kmem_mem s) root (vpath a)") (auto simp: unmappable_def leaf_def)
  let ?pte = "slot r (PX 0 a)"
  have v: "ld64 (kmem_mem s) ?pte = ?v" "?pte \<noteq> 0" using leaf_eq [OF r] slot_nonzero [OF ok r] by auto
  obtain s1 where s1: "(if do_free then kfree (PTE2PA ?v) s else Ret s) = Ret s1"
      "pt_ok s1 ?ps root" "page_ok s1 = page_ok s" "tables (kmem_mem s1) root = tables (kmem_mem s) root"
      "tab (kmem_mem s1) root (vpath a) = Some r"
      "\<forall>x. leaf (kmem_mem s1) root x = leaf (kmem_mem s) root x"
  proof (cases do_free)
    case True
    then have d: "page_ok s (PTE2PA ?v)" "PTE2PA ?v \<notin> set ps" "PTE2PA ?v \<notin> tables (kmem_mem s) root"
      using u by (auto simp: unmappable_def)
    from kp.free_ok [OF _ d(1,2)] ok obtain s1 where
      k: "kfree (PTE2PA ?v) s = Ret s1" "kmem_inv s1 (PTE2PA ?v # ps)" "page_ok s1 = page_ok s"
        "\<forall>x. pgno x \<noteq> pgno (PTE2PA ?v) \<longrightarrow> kmem_mem s1 x = kmem_mem s x"
      by (auto simp: pt_ok_def)
    have "page_aligned (PTE2PA ?v)" using d(1) by (simp add: page_ok_def)
    from pt_ok_other_page [OF ok k(2,3) _ this d(3)] k(1,3,4) True r show ?thesis
      by (intro that [of s1]) auto
  qed (use ok r that [of s] in auto)
  let ?s = "set_mem (st64 (kmem_mem s1) ?pte 0) s1"
  have "uvmunmap_loop root a end_a do_free s = uvmunmap_loop root (a + PGSIZE) end_a do_free ?s"
    using a u r v s1(1)
    by (cases do_free) (simp_all add: uvmunmap_loop.simps [of root a] walk_False unmappable_def Let_def)
  moreover note view_step_store [OF s1(2,5) a(1), of 0]
  moreover have "tables (kmem_mem ?s) root = tables (kmem_mem s) root"
    using tables_leaf_store [OF s1(2,5)] s1(4) by (simp add: set_mem_def)
  ultimately show ?thesis using that [of ?s] s1 by (simp add: view_step_def)
qed

definition frames :: "memory \<Rightarrow> uint64 \<Rightarrow> uint64 \<Rightarrow> nat \<Rightarrow> uint64 set" where
  "frames m root a n = {PTE2PA (leaf m root x) | x. in_range a n x}"

definition frames_distinct :: "memory \<Rightarrow> uint64 \<Rightarrow> uint64 \<Rightarrow> nat \<Rightarrow> bool" where
  "frames_distinct m root a n \<longleftrightarrow>
     (\<forall>x y. in_range a n x \<longrightarrow> in_range a n y \<longrightarrow> pgno x \<noteq> pgno y \<longrightarrow>
        PTE2PA (leaf m root x) \<noteq> PTE2PA (leaf m root y))"

lemma leaf_page: "x < MAXVA \<Longrightarrow> y < MAXVA \<Longrightarrow> pgno x = pgno y \<Longrightarrow> leaf m root x = leaf m root y"
  using same_page_iff [of x y] by (simp add: leaf_def same_page_def split: option.split)

lemma in_range_MAXVA: "unat a + 4096 * n \<le> 274877906944 \<Longrightarrow> in_range a n x \<Longrightarrow> x < MAXVA"
  by (simp add: in_range_def word_less_nat_alt unat_MAXVA)

lemma frames_Suc:
  assumes "page_aligned a" "unat a + 4096 * Suc n \<le> 274877906944"
    and "\<And>x. in_range (a + PGSIZE) n x \<Longrightarrow> leaf m' root x = leaf m root x"
  shows "frames m root a (Suc n) = insert (PTE2PA (leaf m root a)) (frames m' root (a + PGSIZE) n)"
proof -
  note a = page_below_MAXVA [OF assms(2)]
  have eq: "PTE2PA (leaf m root x) = PTE2PA (leaf m root a)" if "pgno x = pgno a" for x
  proof -
    have "in_range a (Suc n) x" using in_range_Suc [OF assms(1) a(3)] that by simp
    then show ?thesis using leaf_page [OF _ a(1) that] in_range_MAXVA [OF assms(2)] by simp
  qed
  have "frames m root a (Suc n) =
      {PTE2PA (leaf m root x) | x. pgno x = pgno a} \<union> frames m root (a + PGSIZE) n"
    unfolding frames_def in_range_Suc [OF assms(1) a(3)] by blast
  also have "{PTE2PA (leaf m root x) | x. pgno x = pgno a} = {PTE2PA (leaf m root a)}"
    using eq by blast
  also have "frames m root (a + PGSIZE) n = frames m' root (a + PGSIZE) n"
    unfolding frames_def using assms(3) by (intro Collect_cong ex_cong1) auto
  finally show ?thesis by simp
qed

lemma uvmunmap_loop_ok:
  assumes "pt_ok s ps root" "page_aligned a" "unat a + 4096 * n \<le> 274877906944"
    and "\<forall>x. in_range a n x \<longrightarrow> unmappable s ps root do_free (leaf (kmem_mem s) root x)"
    and "do_free \<longrightarrow> frames_distinct (kmem_mem s) root a n"
  shows "\<exists>s' ps'. uvmunmap_loop root a (a + of_nat (4096 * n)) do_free s = Ret s' \<and>
    pt_ok s' ps' root \<and> set ps' = set ps \<union> (if do_free then frames (kmem_mem s) root a n else {}) \<and>
    (\<forall>x < MAXVA. leaf (kmem_mem s') root x = (if in_range a n x then 0 else leaf (kmem_mem s) root x))"
  using assms
proof (induction n arbitrary: a s ps)
  case 0
  then show ?case by (auto simp: uvmunmap_loop.simps [of root a] frames_def)
next
  case (Suc n)
  note a = page_below_MAXVA [OF Suc.prems(3)]
  let ?stop = "a + of_nat (4096 * Suc n)" and ?v = "leaf (kmem_mem s) root a"
  have e: "?stop = a + PGSIZE + of_nat (4096 * n)" by (simp add: PGSIZE_def)
  have "unat ?stop = unat a + 4096 * Suc n" using Suc.prems(3) by (intro unat_add_of_nat_u64) simp
  then have "a < ?stop" by (simp add: word_less_nat_alt)
  moreover have "unmappable s ps root do_free ?v" using Suc.prems(4) by (simp add: in_range_def)
  ultimately obtain s' where it: "uvmunmap_loop root a ?stop do_free s = uvmunmap_loop root (a + PGSIZE) ?stop do_free s'"
    and ok: "pt_ok s' (if do_free then PTE2PA ?v # ps else ps) root" (is "pt_ok s' ?ps root")
    and s': "page_ok s' = page_ok s" "tables (kmem_mem s') root = tables (kmem_mem s) root"
    and leaf: "\<And>x. x < MAXVA \<Longrightarrow> leaf (kmem_mem s') root x = (if pgno x = pgno a then 0 else leaf (kmem_mem s) root x)"
    using unmap_iter [OF Suc.prems(1) a(1), of ?stop do_free] by blast
  have le: "unat (a + PGSIZE) + 4096 * n \<le> 274877906944" using Suc.prems(3) a(2) by simp
  have same: "leaf (kmem_mem s') root x = leaf (kmem_mem s) root x" if "in_range (a + PGSIZE) n x" for x
    using leaf [OF in_range_MAXVA [OF le that]] in_range_next [OF Suc.prems(2) a(3) that] by simp
  have sub: "in_range a (Suc n) x" if "in_range (a + PGSIZE) n x" for x
    using that in_range_Suc [OF Suc.prems(2) a(3)] by simp
  have u: "\<forall>x. in_range (a + PGSIZE) n x \<longrightarrow> unmappable s' ?ps root do_free (leaf (kmem_mem s') root x)"
  proof (intro allI impI)
    fix x assume x: "in_range (a + PGSIZE) n x"
    then have "do_free \<longrightarrow> PTE2PA (leaf (kmem_mem s) root x) \<noteq> PTE2PA ?v"
      using Suc.prems(5) sub in_range_next [OF Suc.prems(2) a(3) x]
      by (auto simp: frames_distinct_def in_range_def)
    then show "unmappable s' ?ps root do_free (leaf (kmem_mem s') root x)"
      using Suc.prems(4) sub [OF x] s' same [OF x] by (auto simp: unmappable_def)
  qed
  have fd: "do_free \<longrightarrow> frames_distinct (kmem_mem s') root (a + PGSIZE) n"
    using Suc.prems(5) sub same by (auto simp: frames_distinct_def)
  from Suc.IH [OF ok a(4) [OF Suc.prems(2)] le u fd] show ?case
    using frames_Suc [OF Suc.prems(2,3) same] in_range_Suc [OF Suc.prems(2) a(3), of n] leaf
    unfolding e [symmetric] it [symmetric] by auto
qed

text \<open>The example state after one page was mapped for a user at \<open>0x1000\<close>.\<close>

definition demo_pte :: uint64 where
  "demo_pte = PA2PTE 0x80200000 OR (PTE_R OR PTE_W OR PTE_U) OR PTE_V"

lemma demo_pte: "demo_pte = 0x20080017" "PTE2PA demo_pte = 0x80200000"
proof -
  show v: "demo_pte = 0x20080017"
    by (simp add: demo_pte_def PA2PTE_def PTE_R_def PTE_W_def PTE_U_def PTE_V_def)
  show "PTE2PA demo_pte = 0x80200000" unfolding v by (simp add: PTE2PA_def)
qed

lemma one_page_mapped:
  obtains s ps where
    "mappages_loop 0x80100000 0x1000 0x1000 0x80200000 (PTE_R OR PTE_W OR PTE_U) two_pages = Ret (0, s)"
    "pt_ok s ps 0x80100000" "page_ok s 0x80200000" "0x80200000 \<notin> set ps"
    "0x80200000 \<notin> tables (kmem_mem s) 0x80100000"
    "\<And>x. x < MAXVA \<Longrightarrow> leaf (kmem_mem s) 0x80100000 x = (if pgno x = pgno 0x1000 then demo_pte else 0)"
proof -
  let ?root = "0x80100000 :: uint64"
  obtain s ps where s: "mappages_loop ?root 0x1000 0x1000 0x80200000 (PTE_R OR PTE_W OR PTE_U) two_pages = Ret (0, s)"
    and view: "view_step two_pages [0x80022000, 0x80023000] s ps ?root
      (map_range 0x1000 (Suc 0) 0x80200000 (PTE_R OR PTE_W OR PTE_U))"
    using mappages_loop_ok [OF two_pages_ok(1), of "0x1000" 0 "0x80200000" "PTE_R OR PTE_W OR PTE_U"]
      two_pages_ok(2)
    by (auto simp: page_aligned_def PGSIZE_def)
  have al: "page_aligned 0x1000" by (simp add: page_aligned_def PGSIZE_def)
  have "leaf (kmem_mem s) ?root x = (if pgno x = pgno 0x1000 then demo_pte else 0)" if "x < MAXVA" for x
  proof -
    have "in_range 0x1000 (Suc 0) x \<longleftrightarrow> pgno x = pgno 0x1000" using in_range_Suc [OF al, of 0 x] by simp
    then show ?thesis
      using view that two_pages_ok(2) PGROUNDDOWN_eq [OF al, of x]
      by (simp add: view_step_def map_range_def demo_pte_def)
  qed
  moreover have "pt_ok s ps ?root" "page_ok s 0x80200000" using view two_pages_ok(3) by (simp_all add: view_step_def)
  moreover have "set ps \<subseteq> {0x80022000, 0x80023000}" "tables (kmem_mem s) ?root \<subseteq> {?root, 0x80022000, 0x80023000}"
    using view two_pages_ok(4) by (auto simp: view_step_def)
  ultimately show ?thesis using s by (intro that [of s ps]) auto
qed

text \<open>C16. Unmapping \<open>npages\<close> pages at \<open>va\<close>, all mapped as leaves: \<open>uvmunmap\<close> does not panic, clears
  exactly the entries of the range, keeps the table well-formed, and with \<open>do_free\<close> adds exactly
  the physical pages of the range to the free list.\<close>

theorem uvmunmap_clears:
  assumes "pt_ok s ps root" "va mod PGSIZE = 0" "unat va + 4096 * unat npages \<le> unat MAXVA"
    and "\<forall>x. in_range va (unat npages) x \<longrightarrow> unmappable s ps root do_free (leaf (kmem_mem s) root x)"
    and "do_free \<longrightarrow> frames_distinct (kmem_mem s) root va (unat npages)"
  shows "\<exists>s' ps'. uvmunmap root va npages do_free s = Ret s' \<and> pt_ok s' ps' root \<and>
    set ps' = set ps \<union> (if do_free then frames (kmem_mem s) root va (unat npages) else {}) \<and>
    (\<forall>x < MAXVA. leaf (kmem_mem s') root x =
      (if in_range va (unat npages) x then 0 else leaf (kmem_mem s) root x))"
proof -
  have "va + npages * PGSIZE = va + of_nat (4096 * unat npages)" by (simp add: PGSIZE_def)
  then show ?thesis
    using uvmunmap_loop_ok [OF assms(1) _ _ assms(4,5)] assms(2,3)
    by (simp add: uvmunmap_def page_aligned_def unat_MAXVA)
qed

theorem uvmunmap_clears_witness:
  "\<exists>s s' ps'. mappages_loop 0x80100000 0x1000 0x1000 0x80200000 (PTE_R OR PTE_W OR PTE_U) two_pages = Ret (0, s) \<and>
     uvmunmap 0x80100000 0x1000 1 True s = Ret s' \<and> pt_ok s' ps' 0x80100000 \<and> 0x80200000 \<in> set ps' \<and>
     leaf (kmem_mem s) 0x80100000 0x1000 \<noteq> 0 \<and> leaf (kmem_mem s') 0x80100000 0x1000 = 0"
proof (rule one_page_mapped)
  fix s ps
  let ?root = "0x80100000 :: uint64"
  assume s: "mappages_loop ?root 0x1000 0x1000 0x80200000 (PTE_R OR PTE_W OR PTE_U) two_pages = Ret (0, s)"
    and ok: "pt_ok s ps ?root" "page_ok s 0x80200000" "0x80200000 \<notin> set ps" "0x80200000 \<notin> tables (kmem_mem s) ?root"
    and leaf: "\<And>x. x < MAXVA \<Longrightarrow> leaf (kmem_mem s) ?root x = (if pgno x = pgno 0x1000 then demo_pte else 0)"
  have rng: "in_range 0x1000 1 x \<longleftrightarrow> pgno x = pgno 0x1000" for x
    using in_range_Suc [of "0x1000" 0 x] by (simp add: page_aligned_def PGSIZE_def)
  have lt: "(0x1000 :: uint64) < MAXVA" "unat MAXVA = 274877906944"
    by (simp_all add: unat_MAXVA) (simp add: MAXVA_def push_bit_eq_mult)
  have leaf1: "leaf (kmem_mem s) ?root x = demo_pte" if "in_range 0x1000 1 x" for x
    using leaf [of x] that rng in_range_MAXVA [of "0x1000" 1 x] by simp
  have "unmappable s ps ?root True demo_pte"
    using ok unfolding unmappable_def demo_pte(2) by (simp add: demo_pte(1) PTE_V_def PTE_FLAGS_def)
  moreover have "frames_distinct (kmem_mem s) ?root 0x1000 1"
    using rng by (simp add: frames_distinct_def)
  moreover have "0x80200000 \<in> frames (kmem_mem s) ?root 0x1000 1"
    using leaf1 [of "0x1000"] demo_pte(2) rng unfolding frames_def by force
  moreover have "leaf (kmem_mem s) ?root 0x1000 \<noteq> 0" using leaf1 [of "0x1000"] rng by (simp add: demo_pte(1))
  ultimately show ?thesis
    using uvmunmap_clears [of s ps ?root "0x1000" 1 True] s ok(1) leaf1 rng lt
    by (auto simp: PGSIZE_def) (metis UnI2)
qed

end
