(* ===== verification/Vm_Copy.thy ===== *)
theory Vm_Copy
  imports Vm_Maps
begin

text \<open>
  The copies between kernel and user memory of \<^verbatim>\<open>kernel/vm.c\<close> against a byte-by-byte
  reading of user memory: \<open>ubyte\<close> translates one virtual address and reads one byte.
\<close>

section \<open>User memory, byte by byte\<close>

definition upage :: "memory \<Rightarrow> uint64 \<Rightarrow> uint64 \<Rightarrow> uint64" where
  "upage m root va0 =
     (if va0 \<ge> MAXVA then 0
      else let v = leaf m root va0
           in if v AND PTE_V = 0 \<or> v AND PTE_U = 0 then 0 else PTE2PA v)"

definition ubyte :: "memory \<Rightarrow> uint64 \<Rightarrow> uint64 \<Rightarrow> uint8 option" where
  "ubyte m root va =
     (let pa = upage m root (PGROUNDDOWN va)
      in if pa = 0 then None else Some (m (pa + (va - PGROUNDDOWN va))))"

lemma walkaddr_eq: "pt_ok s ps root \<Longrightarrow> walkaddr root va s = Ret (upage (kmem_mem s) root va)"
  using slot_nonzero [of s ps root va]
  by (auto simp: walkaddr_def upage_def walk_False not_le leaf_def Let_def split: option.split)

lemma bytes_at_map: "bytes_at m p n = map (\<lambda>i. m (p + of_nat i)) [0..<n]"
proof (induction n arbitrary: p)
  case (Suc n)
  have "[0..<Suc n] = 0 # map Suc [0..<n]" by (simp only: upt_conv_Cons [OF zero_less_Suc] map_Suc_upt)
  then show ?case using Suc by (simp add: o_def add.assoc del: upt_Suc)
qed simp

lemma room_le: "room va \<le> 4096"
  by (simp add: room_eq)

lemma room_nonzero [simp]: "room va \<noteq> 0"
  using room_pos [of va] by (simp only: neq0_conv)

lemma PGROUNDDOWN_run:
  assumes "i < room va"
  shows "PGROUNDDOWN (va + of_nat i) = PGROUNDDOWN va"
proof -
  define q r where "q = unat va div 4096" and "r = unat va mod 4096"
  have va: "unat va = 4096 * q + r" by (simp add: q_def r_def)
  have "4096 * q + 4096 \<le> 18446744073709551616"
    using page_aligned_bound [of "PGROUNDDOWN va"] by (simp add: PGROUNDDOWN_unat q_def mult.commute)
  moreover have lt: "r + i < 4096" using assms by (simp add: room_eq r_def)
  ultimately have "unat (va + of_nat i) = unat va + i"
    using va by (intro unat_add_of_nat_u64) simp
  then have "unat (va + of_nat i) div 4096 = q" using va lt by (intro div_nat_eqI) auto
  then show ?thesis by (simp add: word_unat_eq_iff PGROUNDDOWN_unat q_def)
qed

lemma room_next: "va + of_nat (room va) = PGROUNDDOWN va + PGSIZE"
proof -
  have "of_nat (room va) = PGSIZE - (va - PGROUNDDOWN va)" by (simp add: room_def)
  then show ?thesis by simp
qed

lemma ubyte_run:
  "i < room va \<Longrightarrow> ubyte m root (va + of_nat i) =
     (let pa = upage m root (PGROUNDDOWN va)
      in if pa = 0 then None else Some (m (pa + (va - PGROUNDDOWN va) + of_nat i)))"
  by (simp add: ubyte_def PGROUNDDOWN_run Let_def algebra_simps)

definition usee :: "memory \<Rightarrow> uint64 \<Rightarrow> uint64 \<Rightarrow> nat \<Rightarrow> uint8 option list" where
  "usee m root va len = map (\<lambda>i. ubyte m root (va + of_nat i)) [0..<len]"

lemma usee_add: "usee m root va (n + k) = usee m root va n @ usee m root (va + of_nat n) k"
proof -
  have "[0..<n + k] = [0..<n] @ map (\<lambda>i. i + n) [0..<k]"
    unfolding map_add_upt add.commute [of k n] by (simp add: upt_add_eq_append [of 0 n k])
  then show ?thesis by (simp add: usee_def o_def algebra_simps)
qed

lemma usee_page:
  assumes "upage m root (PGROUNDDOWN va) = pa"
  shows "usee m root va len =
    (let n = min (room va) len
     in (if pa = 0 then replicate n None else map Some (bytes_at m (pa + (va - PGROUNDDOWN va)) n))
        @ usee m root (PGROUNDDOWN va + PGSIZE) (len - n))"
proof -
  let ?n = "min (room va) len"
  have "usee m root va (?n + (len - ?n)) = usee m root va ?n @ usee m root (va + of_nat ?n) (len - ?n)"
    by (rule usee_add)
  moreover have "usee m root (va + of_nat ?n) (len - ?n) = usee m root (PGROUNDDOWN va + PGSIZE) (len - ?n)"
    using room_next [of va] by (cases "room va \<le> len") (simp_all add: usee_def)
  moreover have "usee m root va ?n = (if pa = 0 then replicate ?n None
      else map Some (bytes_at m (pa + (va - PGROUNDDOWN va)) ?n))"
    using assms by (auto simp: usee_def ubyte_run Let_def bytes_at_map intro!: nth_equalityI)
  ultimately show ?thesis by (simp add: Let_def)
qed

text \<open>
  \<open>copyin\<close> reads user memory byte by byte: it always returns, the result is 0 exactly when
  every byte of the range is in a page the user may access, and then \<open>dst\<close> holds those bytes.
\<close>

lemma copyin_usee:
  assumes "pt_ok s ps root"
  shows "\<exists>r bs. copyin root va len s = Ret (r, bs) \<and>
    (if None \<in> set (usee (kmem_mem s) root va len) then r = -1
     else r = 0 \<and> map Some bs = usee (kmem_mem s) root va len)"
  using assms
proof (induction root va len s rule: copyin.induct)
  case (1 root va len s)
  let ?va0 = "PGROUNDDOWN va" and ?n = "min (room va) len"
  let ?pa = "upage (kmem_mem s) root (PGROUNDDOWN va)"
  show ?case
  proof (cases "len = 0")
    case True
    then show ?thesis by (simp add: copyin.simps usee_def)
  next
    case False
    then have unf: "copyin root va len s = (if ?pa = 0 then Ret (-1, [])
        else seq (copyin root (?va0 + PGSIZE) (len - ?n) s)
          (\<lambda>(r, rest). Ret (r, bytes_at (kmem_mem s) (?pa + (va - ?va0)) ?n @ rest)))"
      using walkaddr_eq [OF 1(2)] by (subst copyin.simps) (simp add: Let_def)
    show ?thesis
    proof (cases "?pa = 0")
      case True
      then have "None \<in> set (usee (kmem_mem s) root va len)"
        using usee_page [OF True, of len] False
        by (simp add: Let_def set_replicate_conv_if min_def)
      then show ?thesis using unf True by simp
    next
      case pa: False
      obtain r bs where IH: "copyin root (?va0 + PGSIZE) (len - ?n) s = Ret (r, bs)"
          "if None \<in> set (usee (kmem_mem s) root (?va0 + PGSIZE) (len - ?n)) then r = -1
           else r = 0 \<and> map Some bs = usee (kmem_mem s) root (?va0 + PGSIZE) (len - ?n)"
        using 1(1) [OF _ refl _ pa refl refl 1(2)] False walkaddr_eq [OF 1(2)] by auto
      show ?thesis
        unfolding unf IH(1) usee_page [OF refl, of "kmem_mem s" root va len]
        using pa IH(2) by (auto simp: Let_def)
    qed
  qed
qed

section \<open>\<open>copyinstr\<close>\<close>

lemma copyinstr_page_eq:
  "copyinstr_page m p n =
     (if 0 \<in> set (bytes_at m p n) then (True, takeWhile (\<lambda>b. b \<noteq> 0) (bytes_at m p n) @ [0])
      else (False, bytes_at m p n))"
  by (induction n arbitrary: p) auto

text \<open>The string at the start of a list of user bytes, if it ends before an inaccessible byte.\<close>

fun ustring :: "uint8 option list \<Rightarrow> uint8 list option" where
  "ustring [] = None"
| "ustring (None # xs) = None"
| "ustring (Some b # xs) = (if b = 0 then Some [0] else map_option ((#) b) (ustring xs))"

lemma ustring_append:
  "ustring (map Some bs @ xs) =
     (if 0 \<in> set bs then Some (takeWhile (\<lambda>b. b \<noteq> 0) bs @ [0])
      else map_option ((@) bs) (ustring xs))"
  by (induction bs) (auto split: option.splits simp: map_option_case)

text \<open>C17. \<open>copyinstr\<close> always returns; the result is 0 exactly when user memory at \<open>srcva\<close> holds a
  string that ends within \<open>max\<close> bytes and before an inaccessible page, and then \<open>dst\<close> holds
  that string with its terminating zero.\<close>

theorem copyinstr_reads:
  assumes "pt_ok s ps root"
  shows "\<exists>r bs. copyinstr root va max_n s = Ret (r, bs) \<and>
    (case ustring (usee (kmem_mem s) root va max_n) of None \<Rightarrow> r = -1 | Some str \<Rightarrow> r = 0 \<and> bs = str)"
  using assms
proof (induction root va max_n s rule: copyinstr.induct)
  case (1 root va max_n s)
  let ?va0 = "PGROUNDDOWN va" and ?n = "min (room va) max_n"
  let ?pa = "upage (kmem_mem s) root (PGROUNDDOWN va)"
  let ?bs = "bytes_at (kmem_mem s) (?pa + (va - ?va0)) ?n"
  let ?rest = "usee (kmem_mem s) root (?va0 + PGSIZE) (max_n - ?n)"
  consider "max_n = 0" | "0 < max_n" "?pa = 0" | "0 < max_n" "?pa \<noteq> 0" by blast
  then show ?case
  proof cases
    case 1
    then show ?thesis by (simp add: copyinstr.simps usee_def)
  next
    case 2
    then have "copyinstr root va max_n s = Ret (-1, [])"
      using walkaddr_eq [OF 1(2)] by (subst copyinstr.simps) (simp add: Let_def)
    moreover have "ustring (usee (kmem_mem s) root va max_n) = None"
      using usee_page [OF 2(2), of max_n] 2(1) by (cases ?n) (simp_all add: Let_def min_def split: if_splits)
    ultimately show ?thesis by simp
  next
    case 3
    have list: "usee (kmem_mem s) root va max_n = map Some ?bs @ ?rest"
      using usee_page [OF refl, of "kmem_mem s" root va max_n] 3 by (simp add: Let_def)
    have unf: "copyinstr root va max_n s =
        (if 0 \<in> set ?bs then Ret (0, takeWhile (\<lambda>b. b \<noteq> 0) ?bs @ [0])
         else seq (copyinstr root (?va0 + PGSIZE) (max_n - ?n) s) (\<lambda>(r, rest). Ret (r, ?bs @ rest)))"
      using walkaddr_eq [OF 1(2)] 3
      by (subst copyinstr.simps) (simp add: Let_def copyinstr_page_eq)
    show ?thesis
    proof (cases "0 \<in> set ?bs")
      case True
      then show ?thesis unfolding unf list ustring_append by simp
    next
      case False
      then have pg: "(False, ?bs) = copyinstr_page (kmem_mem s) (?pa + (va - ?va0)) ?n"
        by (simp add: copyinstr_page_eq)
      obtain r bs where IH: "copyinstr root (?va0 + PGSIZE) (max_n - ?n) s = Ret (r, bs)"
        "case ustring ?rest of None \<Rightarrow> r = -1 | Some str \<Rightarrow> r = 0 \<and> bs = str"
        using 1(1) [OF 3(1) refl walkaddr_eq [OF 1(2)] 3(2) refl pg _ 1(2)] by blast
      then show ?thesis unfolding unf list ustring_append using False by (auto split: option.splits)
    qed
  qed
qed

section \<open>\<open>copyout\<close>\<close>

lemma poke_apply:
  "length bs < 18446744073709551616 \<Longrightarrow>
   poke m a bs x = (if unat (x - a) < length bs then bs ! unat (x - a) else m x)"
proof (induction bs arbitrary: m a)
  case (Cons b bs)
  then have IH: "poke (m(a := b)) (a + 1) bs x =
      (if unat (x - (a + 1)) < length bs then bs ! unat (x - (a + 1)) else (m(a := b)) x)" by simp
  show ?case
  proof (cases "x = a")
    case True
    have "unat (a - (a + 1)) = 18446744073709551615" by (simp add: unsigned_minus_1_eq_mask mask_eq_exp_minus_1)
    then show ?thesis using IH True Cons.prems by simp
  next
    case False
    then have nz: "x - a \<noteq> 0" by simp
    have e: "x - (a + 1) = (x - a) - 1" by simp
    have "unat (x - (a + 1)) = unat (x - a) - 1" unfolding e by (rule unat_minus_one [OF nz])
    moreover have "0 < unat (x - a)" using nz unat_gt_0 by blast
    ultimately have "unat (x - a) = Suc (unat (x - (a + 1)))" by linarith
    then show ?thesis using IH False by simp
  qed
qed simp

text \<open>
  Mapped pages exist, the pages a user may access are neither free nor page tables, and no two virtual pages
  share one: what the allocator and \<open>mappages\<close> establish for a process.
\<close>

definition user_sep :: "kmem \<Rightarrow> uint64 list \<Rightarrow> uint64 \<Rightarrow> bool" where
  "user_sep s ps root \<longleftrightarrow>
     (\<forall>x < MAXVA. leaf (kmem_mem s) root x AND PTE_V \<noteq> 0 \<longrightarrow> PTE2PA (leaf (kmem_mem s) root x) \<noteq> 0) \<and>
     (\<forall>x. upage (kmem_mem s) root x \<noteq> 0 \<longrightarrow>
        upage (kmem_mem s) root x \<notin> set ps \<and> upage (kmem_mem s) root x \<notin> tables (kmem_mem s) root \<and>
        (\<forall>y. upage (kmem_mem s) root y = upage (kmem_mem s) root x \<longrightarrow> pgno y = pgno x))"

lemma page_aligned_PTE2PA [simp]: "page_aligned (PTE2PA v)"
proof -
  have m: "(4095 :: uint64) = mask 12" by (simp add: mask_eq_exp_minus_1)
  have "PTE2PA v AND 4095 = 0"
    unfolding m by (rule bit_word_eqI) (auto simp: PTE2PA_def bit_simps)
  then show ?thesis using and_4095_unat [of "PTE2PA v"] by (simp add: page_aligned_unat)
qed

lemma page_aligned_upage: "page_aligned (upage m root va)"
  by (simp add: upage_def Let_def page_aligned_unat [of 0])

lemma ubyte_addr_page: "pgno (upage m root va0 + (va - PGROUNDDOWN va)) = pgno (upage m root va0)"
proof -
  have "pgno (upage m root va0 + of_nat (unat (va - PGROUNDDOWN va))) = pgno (upage m root va0)"
    by (rule pgno_offset [OF page_aligned_upage]) (simp add: page_offset)
  then show ?thesis by simp
qed

lemma poke_page:
  assumes "page_aligned d" "unat off + length bs \<le> 4096" "pgno x \<noteq> pgno d"
  shows "poke m (d + off) bs x = m x"
proof -
  have "\<not> unat (x - (d + off)) < length bs"
  proof
    assume "unat (x - (d + off)) < length bs"
    then have "unat off + unat (x - (d + off)) < 4096" using assms(2) by simp
    then have "pgno (d + of_nat (unat off + unat (x - (d + off)))) = pgno d"
      by (rule pgno_offset [OF assms(1)])
    moreover have "d + of_nat (unat off + unat (x - (d + off))) = x" by simp
    ultimately show False using assms(3) by simp
  qed
  then show ?thesis using assms(2) by (simp add: poke_apply)
qed

text \<open>One chunk of \<open>copyout\<close>: the page table and every other user byte stay as they are.\<close>

lemma ubyte_poke:
  assumes sep: "user_sep s ps root"
    and d: "upage (kmem_mem s) root (PGROUNDDOWN va) = d" "d \<noteq> 0" and n: "length bs \<le> room va"
    and up: "\<And>y. upage (poke (kmem_mem s) (d + (va - PGROUNDDOWN va)) bs) root y = upage (kmem_mem s) root y"
  shows "ubyte (poke (kmem_mem s) (d + (va - PGROUNDDOWN va)) bs) root a =
      (if unat (a - va) < length bs then Some (bs ! unat (a - va)) else ubyte (kmem_mem s) root a)"
    (is "ubyte ?m root a = _")
proof (cases "unat (a - va) < length bs")
  case True
  define i where "i = unat (a - va)"
  have a: "a = va + of_nat i" "i < length bs" using True by (simp_all add: i_def)
  have "ubyte ?m root (va + of_nat i) = Some (?m (d + (va - PGROUNDDOWN va) + of_nat i))"
    using ubyte_run [of i va ?m root] a(2) n up d by (simp add: Let_def)
  moreover have "?m (d + (va - PGROUNDDOWN va) + of_nat i) = bs ! i"
    using a(2) n room_le [of va] by (simp add: poke_apply)
  ultimately have "ubyte ?m root a = Some (bs ! i)" by (simp only: a(1) [symmetric])
  then show ?thesis using a(2) by (simp add: i_def [symmetric])
next
  case False
  let ?d = "upage (kmem_mem s) root (PGROUNDDOWN a)"
  let ?y = "?d + (a - PGROUNDDOWN a)"
  have "?m ?y = kmem_mem s ?y" if "?d \<noteq> 0"
  proof (cases "PGROUNDDOWN a = PGROUNDDOWN va")
    case True
    then have eq: "?y - (d + (va - PGROUNDDOWN va)) = a - va" using d by simp
    have "length bs < 18446744073709551616" using n room_le [of va] by simp
    then show ?thesis using False by (simp only: poke_apply eq if_False)
  next
    case ne: False
    have "pgno (PGROUNDDOWN a) \<noteq> pgno (PGROUNDDOWN va)" using ne pgno_inj [of "PGROUNDDOWN a" "PGROUNDDOWN va"] by (simp del: pgno_PGROUNDDOWN)
    then have "?d \<noteq> d" using sep d that unfolding user_sep_def by metis
    then have "pgno ?y \<noteq> pgno d"
      using ubyte_addr_page pgno_inj [OF page_aligned_upage page_aligned_upage] d(1) by metis
    then show ?thesis
      using n page_aligned_upage d(1) by (intro poke_page) (auto simp: room_eq page_offset)
  qed
  then show ?thesis using False up by (simp add: ubyte_def Let_def)
qed

lemma copyout_chunk:
  assumes ok: "pt_ok s ps root" "user_sep s ps root"
    and d: "upage (kmem_mem s) root (PGROUNDDOWN va) = d" "d \<noteq> 0" and n: "length bs \<le> room va"
  defines "s' \<equiv> set_mem (poke (kmem_mem s) (d + (va - PGROUNDDOWN va)) bs) s"
  shows "pt_ok s' ps root" "user_sep s' ps root"
    "upage (kmem_mem s') root x = upage (kmem_mem s) root x"
    "leaf (kmem_mem s') root x = leaf (kmem_mem s) root x"
    "ubyte (kmem_mem s') root a =
      (if unat (a - va) < length bs then Some (bs ! unat (a - va)) else ubyte (kmem_mem s) root a)"
proof -
  have al: "page_aligned d" using page_aligned_upage d(1) by blast
  have off: "unat (va - PGROUNDDOWN va) + length bs \<le> 4096"
    using n by (simp add: room_eq page_offset)
  have mem: "kmem_mem s' = poke (kmem_mem s) (d + (va - PGROUNDDOWN va)) bs"
    by (simp add: s'_def set_mem_def)
  have fr: "kmem_mem s' y = kmem_mem s y" if "pgno y \<noteq> pgno d" for y
    unfolding mem by (rule poke_page [OF al off that])
  have nd: "d \<notin> set ps" "d \<notin> tables (kmem_mem s) root" using ok(2) d by (auto simp: user_sep_def)
  have inv: "kmem_inv s' ps"
  proof (rule kmem_inv_same_pages)
    show "kmem_inv s ps" using ok by (simp add: pt_ok_def)
    show "kmem_mem s y = kmem_mem s' y" if "p \<in> set ps" "pgno y = pgno p" for p y
    proof -
      have "page_aligned p" using that ok by (auto simp: pt_ok_def kmem_inv_def page_ok_def)
      then have "pgno y \<noteq> pgno d" using that nd al by (auto simp: pgno_inj)
      then show ?thesis by (simp add: fr)
    qed
  qed (simp_all add: s'_def set_mem_def)
  have "page_ok s' = page_ok s" by (simp add: s'_def set_mem_def fun_eq_iff)
  note other = pt_ok_other_page [OF ok(1) inv this subset_insertI al nd(2)]
  show "pt_ok s' ps root" by (rule other(1)) (rule fr)
  have tabs: "tables (kmem_mem s') root = tables (kmem_mem s) root" by (rule other(2)) (rule fr)
  have leaf: "leaf (kmem_mem s') root y = leaf (kmem_mem s) root y" for y by (rule other(4)) (rule fr)
  then show "leaf (kmem_mem s') root x = leaf (kmem_mem s) root x" .
  have up: "upage (kmem_mem s') root y = upage (kmem_mem s) root y" for y by (simp add: upage_def leaf)
  then show "upage (kmem_mem s') root x = upage (kmem_mem s) root x" .
  show "user_sep s' ps root"
    unfolding user_sep_def tabs leaf up by (rule ok(2) [unfolded user_sep_def])
  show "ubyte (kmem_mem s') root a =
      (if unat (a - va) < length bs then Some (bs ! unat (a - va)) else ubyte (kmem_mem s) root a)"
    unfolding mem by (rule ubyte_poke [OF ok(2) d n up [unfolded mem]])
qed

definition uwritable :: "memory \<Rightarrow> uint64 \<Rightarrow> uint64 \<Rightarrow> bool" where
  "uwritable m root va \<longleftrightarrow>
     (let va0 = PGROUNDDOWN va; v = leaf m root va0
      in va0 < MAXVA \<and> v AND PTE_V \<noteq> 0 \<and> v AND PTE_U \<noteq> 0 \<and> v AND PTE_W \<noteq> 0)"

lemma copyout_unfold:
  assumes ok: "pt_ok s ps root" "user_sep s ps root" and "src \<noteq> []"
  shows "copyout root va src s =
    (if uwritable (kmem_mem s) root va
     then let n = min (room va) (length src);
              d = upage (kmem_mem s) root (PGROUNDDOWN va)
          in copyout root (PGROUNDDOWN va + PGSIZE) (drop n src)
               (set_mem (poke (kmem_mem s) (d + (va - PGROUNDDOWN va)) (take n src)) s)
     else Ret (-1, s))"
proof (cases "PGROUNDDOWN va < MAXVA")
  case False
  moreover from this have "MAXVA \<le> PGROUNDDOWN va" by simp
  ultimately show ?thesis using assms(3) by (subst copyout.simps) (simp add: uwritable_def Let_def)
next
  case True
  then have lt: "PGROUNDDOWN va < MAXVA" "\<not> MAXVA \<le> PGROUNDDOWN va" "src \<noteq> []" using assms(3) by auto
  let ?t = "tab (kmem_mem s) root (vpath (PGROUNDDOWN va))"
  show ?thesis
  proof (cases ?t)
    case None
    then show ?thesis using lt
      by (subst copyout.simps) (simp add: uwritable_def Let_def walk_False leaf_def)
  next
    case (Some r)
    have "ld64 (kmem_mem s) (slot r (PX 0 (PGROUNDDOWN va))) = leaf (kmem_mem s) root (PGROUNDDOWN va)"
      using Some by (simp add: leaf_def)
    then show ?thesis using lt Some slot_nonzero [OF ok(1) Some]
      by (subst copyout.simps) (simp add: uwritable_def upage_def Let_def walk_False)
  qed
qed

lemma uwritable_run: "i < room va \<Longrightarrow> uwritable m root (va + of_nat i) = uwritable m root va"
  by (simp add: uwritable_def PGROUNDDOWN_run)

lemma uwritable_page: "uwritable (kmem_mem s) root va \<Longrightarrow> user_sep s ps root \<Longrightarrow>
    upage (kmem_mem s) root (PGROUNDDOWN va) \<noteq> 0"
  by (auto simp: uwritable_def upage_def user_sep_def Let_def)

text \<open>\<open>uwrite m root va src m'\<close>: user memory after the bytes \<open>src\<close> were written at \<open>va\<close>.\<close>

definition uwrite :: "memory \<Rightarrow> uint64 \<Rightarrow> uint64 \<Rightarrow> uint8 list \<Rightarrow> memory \<Rightarrow> bool" where
  "uwrite m root va src m' \<longleftrightarrow>
     (\<forall>a. ubyte m' root a =
        (if unat (a - va) < length src then Some (src ! unat (a - va)) else ubyte m root a))"

lemma uwrite_append:
  assumes "uwrite m root va xs m1" "uwrite m1 root (va + of_nat (length xs)) ys m2"
    and "length xs + length ys \<le> 274877906944"
  shows "uwrite m root va (xs @ ys) m2"
  unfolding uwrite_def
proof
  fix a
  define i where "i = unat (a - va)"
  have a: "a = va + of_nat i" by (simp add: i_def)
  show "ubyte m2 root a = (if unat (a - va) < length (xs @ ys) then Some ((xs @ ys) ! unat (a - va)) else ubyte m root a)"
  proof (cases "i < length xs")
    case True
    define e where "e = length xs - i"
    have e: "0 < e" "e \<le> length xs" using True by (simp_all add: e_def)
    have "a - (va + of_nat (length xs)) = - of_nat e" using True by (simp add: a e_def of_nat_diff)
    also have "\<dots> = of_nat (18446744073709551616 - e)" using e assms(3) by (simp add: of_nat_diff)
    finally have "unat (a - (va + of_nat (length xs))) = 18446744073709551616 - e"
      using e by (simp only: unat_of_nat_u64_small)
    then have "\<not> unat (a - (va + of_nat (length xs))) < length ys" using e assms(3) by simp
    then show ?thesis using assms(1,2) True by (simp add: uwrite_def i_def nth_append)
  next
    case False
    have "a - (va + of_nat (length xs)) = of_nat (i - length xs)" using False by (simp add: a of_nat_diff)
    moreover have "i < 18446744073709551616" unfolding i_def by (rule unat_lt_2p64)
    ultimately have "unat (a - (va + of_nat (length xs))) = i - length xs"
      by (simp only: unat_of_nat_u64_small less_imp_diff_less)
    then show ?thesis using assms(1,2) False by (auto simp: uwrite_def i_def nth_append)
  qed
qed

lemma all_less_append:
  "(\<forall>i < length (xs @ ys). P i) \<longleftrightarrow> (\<forall>i < length xs. P i) \<and> (\<forall>i < length ys. P (length xs + i))"
  by (auto simp: less_diff_conv2) (metis add_diff_inverse_nat nat_add_left_cancel_less)

lemma copyout_uwrite:
  assumes "pt_ok s ps root" "user_sep s ps root" "length src \<le> unat MAXVA"
  shows "\<exists>r s'. copyout root dstva src s = Ret (r, s') \<and> pt_ok s' ps root \<and> user_sep s' ps root \<and>
    (if \<forall>i < length src. uwritable (kmem_mem s) root (dstva + of_nat i)
     then r = 0 \<and> uwrite (kmem_mem s) root dstva src (kmem_mem s') else r = -1)"
  using assms
proof (induction "length src" arbitrary: dstva src s rule: less_induct)
  case less
  consider "src = []" | "src \<noteq> []" "\<not> uwritable (kmem_mem s) root dstva"
    | "src \<noteq> []" "uwritable (kmem_mem s) root dstva" by blast
  then show ?case
  proof cases
    case 1
    then show ?thesis using less.prems by (simp add: copyout.simps uwrite_def)
  next
    case 2
    then have "\<exists>i < length src. \<not> uwritable (kmem_mem s) root (dstva + of_nat i)"
      by (intro exI [of _ 0]) simp
    then show ?thesis using 2 less.prems by (simp add: copyout_unfold)
  next
    case 3
    define n where "n = min (room dstva) (length src)"
    define xs ys where "xs = take n src" and "ys = drop n src"
    define s1 where "s1 = set_mem (poke (kmem_mem s) (upage (kmem_mem s) root (PGROUNDDOWN dstva) +
      (dstva - PGROUNDDOWN dstva)) xs) s"
    have n: "length xs = n" "src = xs @ ys" "n \<le> room dstva" "0 < n"
      using 3(1) by (simp_all add: xs_def ys_def n_def)
    have va1: "dstva + of_nat n = PGROUNDDOWN dstva + PGSIZE" if "ys \<noteq> []"
      using that room_next [of dstva] by (auto simp: ys_def n_def min_def split: if_splits)
    note chunk = copyout_chunk [OF less.prems(1,2) refl uwritable_page [OF 3(2) less.prems(2)],
        of xs, folded s1_def]
    have w: "uwritable (kmem_mem s1) root x = uwritable (kmem_mem s) root x" for x
      using chunk(4) n by (simp add: uwritable_def)
    have unf: "copyout root dstva src s = copyout root (dstva + of_nat n) ys s1"
      using copyout_unfold [OF less.prems(1,2) 3(1), of dstva] 3(2) va1
      by (cases "ys = []") (simp_all add: Let_def xs_def ys_def n_def s1_def copyout.simps [of _ _ "[]"])
    have "length ys < length src" "length ys \<le> unat MAXVA" using n less.prems(3) by auto
    from less.hyps [OF this(1) chunk(1,2) this(2)] n
    obtain r s' where IH: "copyout root (dstva + of_nat n) ys s1 = Ret (r, s')" "pt_ok s' ps root"
      "user_sep s' ps root"
      "if \<forall>i < length ys. uwritable (kmem_mem s1) root (dstva + of_nat n + of_nat i)
       then r = 0 \<and> uwrite (kmem_mem s1) root (dstva + of_nat n) ys (kmem_mem s') else r = -1"
      by blast
    have all: "(\<forall>i < length src. uwritable (kmem_mem s) root (dstva + of_nat i)) \<longleftrightarrow>
        (\<forall>i < length ys. uwritable (kmem_mem s1) root (dstva + of_nat n + of_nat i))"
      unfolding n(2) w using all_less_append [of xs ys] uwritable_run 3(2) n by (auto simp: add.assoc)
    have "uwrite (kmem_mem s) root dstva xs (kmem_mem s1)" using chunk(5) n by (simp add: uwrite_def)
    from uwrite_append [OF this, of ys "kmem_mem s'"] n less.prems(3)
    have "uwrite (kmem_mem s1) root (dstva + of_nat n) ys (kmem_mem s') \<Longrightarrow>
        uwrite (kmem_mem s) root dstva src (kmem_mem s')" by (simp add: unat_MAXVA)
    then show ?thesis using IH unfolding unf all by (auto split: if_splits)
  qed
qed

lemma uwrite_usee:
  assumes "uwrite m root va src m'" "length src \<le> 274877906944"
  shows "usee m' root va (length src) = map Some src"
proof (rule nth_equalityI)
  fix i assume "i < length (usee m' root va (length src))"
  then have i: "i < length src" by (simp add: usee_def)
  then have "unat (va + of_nat i - va) = i" using assms(2) by simp
  then show "usee m' root va (length src) ! i = map Some src ! i"
    using assms(1) i by (simp add: usee_def uwrite_def)
qed (simp add: usee_def)

text \<open>C4. \<open>copyout\<close> always returns and keeps the page table; the result is 0 exactly when every byte
  of the range is in a page the user may write, and then user memory holds \<open>src\<close> at \<open>dstva\<close>, is
  unchanged elsewhere, and \<open>copyin\<close> of the same range returns \<open>src\<close>.\<close>

theorem copyout_copyin:
  assumes "pt_ok s ps root" "user_sep s ps root" "length src \<le> unat MAXVA"
  shows "\<exists>r s'. copyout root dstva src s = Ret (r, s') \<and> pt_ok s' ps root \<and> user_sep s' ps root \<and>
    (if \<forall>i < length src. uwritable (kmem_mem s) root (dstva + of_nat i)
     then r = 0 \<and> uwrite (kmem_mem s) root dstva src (kmem_mem s') \<and>
       copyin root dstva (length src) s' = Ret (0, src)
     else r = -1)"
proof -
  obtain r s' where out: "copyout root dstva src s = Ret (r, s')" "pt_ok s' ps root" "user_sep s' ps root"
    "if \<forall>i < length src. uwritable (kmem_mem s) root (dstva + of_nat i)
     then r = 0 \<and> uwrite (kmem_mem s) root dstva src (kmem_mem s') else r = -1"
    using copyout_uwrite [OF assms, of dstva] by blast
  have "copyin root dstva (length src) s' = Ret (0, src)"
    if "uwrite (kmem_mem s) root dstva src (kmem_mem s')"
  proof -
    have see: "usee (kmem_mem s') root dstva (length src) = map Some src"
      using uwrite_usee [OF that] assms(3) by (simp add: unat_MAXVA)
    obtain r bs where in_: "copyin root dstva (length src) s' = Ret (r, bs)"
      "if None \<in> set (usee (kmem_mem s') root dstva (length src)) then r = -1
       else r = 0 \<and> map Some bs = usee (kmem_mem s') root dstva (length src)"
      using copyin_usee [OF out(2), of dstva "length src"] by blast
    then show ?thesis unfolding see by (simp add: inj_map_eq_map)
  qed
  with out show ?thesis by (auto split: if_splits)
qed

lemma one_page_user:
  obtains s ps where "pt_ok s ps 0x80100000" "user_sep s ps 0x80100000"
    "\<And>i. i < 4096 \<Longrightarrow> uwritable (kmem_mem s) 0x80100000 (0x1000 + of_nat i)"
proof (rule one_page_mapped)
  fix s :: kmem and ps
  let ?root = "0x80100000 :: uint64" and ?m = "kmem_mem s"
  assume ok: "pt_ok s ps ?root" "page_ok s 0x80200000" "0x80200000 \<notin> set ps" "0x80200000 \<notin> tables (kmem_mem s) ?root"
    and leaf: "\<And>x. x < MAXVA \<Longrightarrow> leaf ?m ?root x = (if pgno x = pgno 0x1000 then demo_pte else 0)"
  have "0x10 AND demo_pte \<noteq> 0" "4 AND demo_pte \<noteq> 0" "1 AND demo_pte \<noteq> 0"
    by (simp_all add: demo_pte(1))
  then have bits: "demo_pte AND PTE_V \<noteq> 0" "demo_pte AND PTE_U \<noteq> 0" "demo_pte AND PTE_W \<noteq> 0"
    by (simp_all add: PTE_V_def PTE_U_def PTE_W_def and.commute)
  have up: "upage ?m ?root x = (if x < MAXVA \<and> pgno x = pgno 0x1000 then 0x80200000 else 0)" for x
    using leaf [of x] bits by (auto simp: upage_def demo_pte(2) Let_def)
  have "user_sep s ps ?root"
    using leaf ok(3,4) demo_pte(2) unfolding user_sep_def up by (auto split: if_splits)
  moreover have "uwritable ?m ?root (0x1000 + of_nat i)" if "i < 4096" for i
  proof -
    have 1: "PGROUNDDOWN 0x1000 = 0x1000" "room 0x1000 = 4096" "(0x1000 :: uint64) < MAXVA"
      by (simp_all add: PGROUNDDOWN_def PGSIZE_def room_eq MAXVA_def push_bit_eq_mult)
    then show ?thesis
      using uwritable_run [of i "0x1000" ?m ?root] that leaf bits by (simp add: uwritable_def)
  qed
  ultimately show thesis using that ok(1) by blast
qed

theorem copyout_copyin_witness:
  "\<exists>s ps s'. pt_ok s ps 0x80100000 \<and> copyout 0x80100000 0x1FFE [1, 2] s = Ret (0, s') \<and>
     copyin 0x80100000 0x1FFE 2 s' = Ret (0, [1, 2])"
proof (rule one_page_user)
  fix s :: kmem and ps
  assume ok: "pt_ok s ps 0x80100000" "user_sep s ps 0x80100000"
    and w: "\<And>i. i < 4096 \<Longrightarrow> uwritable (kmem_mem s) 0x80100000 (0x1000 + of_nat i)"
  have "uwritable (kmem_mem s) 0x80100000 (0x1FFE + of_nat i)" if "i < 2" for i
    using w [of "4094 + i"] that by simp
  then show ?thesis
    using copyout_copyin [OF ok, of "[1, 2]" "0x1FFE"] ok(1) by (auto simp: unat_MAXVA numeral_2_eq_2)
qed

text \<open>\<open>copyinstr\<close> at the string that \<open>copyout\<close> has stored before, and at an address that is not mapped.\<close>

theorem copyinstr_reads_witness:
  "(\<exists>s. ustring (usee (kmem_mem s) 0x80100000 0x1FFD 3) = Some [0x73, 0x68, 0] \<and>
      copyinstr 0x80100000 0x1FFD 3 s = Ret (0, [0x73, 0x68, 0])) \<and>
   (\<exists>bs. copyinstr 0x80100000 0x1000 4 two_pages = Ret (-1, bs))"
proof
  have "PGROUNDDOWN 0x1000 = 0x1000" by (simp add: PGROUNDDOWN_def PGSIZE_def)
  then have "ustring (usee (kmem_mem two_pages) 0x80100000 0x1000 4) = None"
    using two_pages_ok(2) by (simp add: usee_def ubyte_def upage_def upt_rec)
  then show "\<exists>bs. copyinstr 0x80100000 0x1000 4 two_pages = Ret (-1, bs)"
    using copyinstr_reads [OF two_pages_ok(1), of "0x1000" 4] by auto
  show "\<exists>s. ustring (usee (kmem_mem s) 0x80100000 0x1FFD 3) = Some [0x73, 0x68, 0] \<and>
      copyinstr 0x80100000 0x1FFD 3 s = Ret (0, [0x73, 0x68, 0])"
  proof (rule one_page_user)
    fix s :: kmem and ps
    assume ok: "pt_ok s ps 0x80100000" "user_sep s ps 0x80100000"
      and w: "\<And>i. i < 4096 \<Longrightarrow> uwritable (kmem_mem s) 0x80100000 (0x1000 + of_nat i)"
    let ?str = "[0x73, 0x68, 0] :: uint8 list"
    have "\<forall>i < length ?str. uwritable (kmem_mem s) 0x80100000 (0x1FFD + of_nat i)"
    proof (intro allI impI)
      fix i assume "i < length ?str"
      then show "uwritable (kmem_mem s) 0x80100000 (0x1FFD + of_nat i)" using w [of "4093 + i"] by simp
    qed
    then obtain s' where s': "pt_ok s' ps 0x80100000" "uwrite (kmem_mem s) 0x80100000 0x1FFD ?str (kmem_mem s')"
      using copyout_uwrite [OF ok, of ?str "0x1FFD"] by (auto simp: unat_MAXVA)
    have "usee (kmem_mem s') 0x80100000 0x1FFD 3 = map Some ?str" using uwrite_usee [OF s'(2)] by (simp add: numeral_3_eq_3)
    then show ?thesis using copyinstr_reads [OF s'(1), of "0x1FFD" 3] by (intro exI [of _ s']) auto
  qed
qed

end
