(* ===== verification/Sha256.thy ===== *)
theory Sha256
  imports Cstring
begin

text \<open>
  \<^verbatim>\<open>kernel/sha256.c\<close>: the hash the project adds to the kernel, with its callers
  \<^verbatim>\<open>sys_get_sha256\<close> (\<^verbatim>\<open>kernel/sysproc.c\<close>) and \<^verbatim>\<open>kernel_sha256\<close>
  (\<^verbatim>\<open>kernel/proc.c\<close>). The context is a record with the fields of
  \<open>SHA256_CTX\<close>; every arithmetic operation is on 32- or 64-bit words and wraps as in
  C. The second half states the hash the way the standard does (pad the whole message, cut it
  into blocks, run the compression recurrences) and shows that the streaming code computes it.
\<close>

section \<open>The code\<close>

definition ROTRIGHT :: "uint32 \<Rightarrow> nat \<Rightarrow> uint32" where
  "ROTRIGHT a b = drop_bit b a OR push_bit (32 - b) a"

definition CH :: "uint32 \<Rightarrow> uint32 \<Rightarrow> uint32 \<Rightarrow> uint32" where
  "CH x y z = (x AND y) XOR (NOT x AND z)"

definition MAJ :: "uint32 \<Rightarrow> uint32 \<Rightarrow> uint32 \<Rightarrow> uint32" where
  "MAJ x y z = (x AND y) XOR (x AND z) XOR (y AND z)"

definition EP0 :: "uint32 \<Rightarrow> uint32" where
  "EP0 x = ROTRIGHT x 2 XOR ROTRIGHT x 13 XOR ROTRIGHT x 22"

definition EP1 :: "uint32 \<Rightarrow> uint32" where
  "EP1 x = ROTRIGHT x 6 XOR ROTRIGHT x 11 XOR ROTRIGHT x 25"

definition SIG0 :: "uint32 \<Rightarrow> uint32" where
  "SIG0 x = ROTRIGHT x 7 XOR ROTRIGHT x 18 XOR drop_bit 3 x"

definition SIG1 :: "uint32 \<Rightarrow> uint32" where
  "SIG1 x = ROTRIGHT x 17 XOR ROTRIGHT x 19 XOR drop_bit 10 x"

text \<open>The table \<open>k\<close>, one inner list per row of the source.\<close>

definition k_rows :: "uint32 list list" where
  "k_rows =
    [[0x428a2f98, 0x71374491, 0xb5c0fbcf, 0xe9b5dba5, 0x3956c25b, 0x59f111f1, 0x923f82a4, 0xab1c5ed5],
     [0xd807aa98, 0x12835b01, 0x243185be, 0x550c7dc3, 0x72be5d74, 0x80deb1fe, 0x9bdc06a7, 0xc19bf174],
     [0xe49b69c1, 0xefbe4786, 0x0fc19dc6, 0x240ca1cc, 0x2de92c6f, 0x4a7484aa, 0x5cb0a9dc, 0x76f988da],
     [0x983e5152, 0xa831c66d, 0xb00327c8, 0xbf597fc7, 0xc6e00bf3, 0xd5a79147, 0x06ca6351, 0x14292967],
     [0x27b70a85, 0x2e1b2138, 0x4d2c6dfc, 0x53380d13, 0x650a7354, 0x766a0abb, 0x81c2c92e, 0x92722c85],
     [0xa2bfe8a1, 0xa81a664b, 0xc24b8b70, 0xc76c51a3, 0xd192e819, 0xd6990624, 0xf40e3585, 0x106aa070],
     [0x19a4c116, 0x1e376c08, 0x2748774c, 0x34b0bcb5, 0x391c0cb3, 0x4ed8aa4a, 0x5b9cca4f, 0x682e6ff3],
     [0x748f82ee, 0x78a5636f, 0x84c87814, 0x8cc70208, 0x90befffa, 0xa4506ceb, 0xbef9a3f7, 0xc67178f2]]"

definition k :: "uint32 list" where
  "k = concat k_rows"

record SHA256_CTX =
  data :: "uint8 list"
  datalen :: uint32
  bitlen :: uint64
  state :: "uint32 list"

text \<open>The message schedule \<open>m\<close>: sixteen big-endian words, then the recurrence.\<close>

definition msg_word :: "uint8 list \<Rightarrow> nat \<Rightarrow> uint32" where
  "msg_word dat i =
     (let j = 4 * i
      in push_bit 24 (ucast (dat ! j)) OR push_bit 16 (ucast (dat ! (j + 1)))
         OR push_bit 8 (ucast (dat ! (j + 2))) OR ucast (dat ! (j + 3)))"

definition schedule_step :: "nat \<Rightarrow> uint32 list \<Rightarrow> uint32 list" where
  "schedule_step i m =
     m @ [SIG1 (m ! (i - 2)) + m ! (i - 7) + SIG0 (m ! (i - 15)) + m ! (i - 16)]"

definition schedule :: "uint8 list \<Rightarrow> uint32 list" where
  "schedule dat = fold schedule_step [16..<64] (map (msg_word dat) [0..<16])"

type_synonym working = "uint32 \<times> uint32 \<times> uint32 \<times> uint32 \<times> uint32 \<times> uint32 \<times> uint32 \<times> uint32"

fun round_step :: "uint32 list \<Rightarrow> nat \<Rightarrow> working \<Rightarrow> working" where
  "round_step m i (a, b, c, d, e, f, g, h) =
     (let t1 = h + EP1 e + CH e f g + k ! i + m ! i;
          t2 = EP0 a + MAJ a b c
      in (t1 + t2, a, b, c, d + t1, e, f, g))"

definition sha256_transform :: "SHA256_CTX \<Rightarrow> uint8 list \<Rightarrow> SHA256_CTX" where
  "sha256_transform ctx dat =
     (let m = schedule dat; s = state ctx;
          (a, b, c, d, e, f, g, h) =
            fold (round_step m) [0..<64] (s ! 0, s ! 1, s ! 2, s ! 3, s ! 4, s ! 5, s ! 6, s ! 7)
      in ctx\<lparr>state := [s ! 0 + a, s ! 1 + b, s ! 2 + c, s ! 3 + d,
                        s ! 4 + e, s ! 5 + f, s ! 6 + g, s ! 7 + h]\<rparr>)"

text \<open>\<open>sha256_init\<close> leaves the \<open>data\<close> bytes as they were (a stack array).\<close>

definition sha256_init :: "SHA256_CTX \<Rightarrow> SHA256_CTX" where
  "sha256_init ctx =
     ctx\<lparr>datalen := 0, bitlen := 0,
         state := [0x6a09e667, 0xbb67ae85, 0x3c6ef372, 0xa54ff53a,
                   0x510e527f, 0x9b05688c, 0x1f83d9ab, 0x5be0cd19]\<rparr>"

definition update_byte :: "uint8 \<Rightarrow> SHA256_CTX \<Rightarrow> SHA256_CTX" where
  "update_byte x ctx =
     (let ctx = ctx\<lparr>data := (data ctx)[unat (datalen ctx) := x], datalen := datalen ctx + 1\<rparr>
      in if datalen ctx = 64
         then (let ctx = sha256_transform ctx (data ctx)
               in ctx\<lparr>bitlen := bitlen ctx + 512, datalen := 0\<rparr>)
         else ctx)"

definition sha256_update :: "SHA256_CTX \<Rightarrow> uint8 list \<Rightarrow> SHA256_CTX" where
  "sha256_update ctx xs = fold update_byte xs ctx"

text \<open>\<open>while (i < lim) data[i++] = 0\<close>\<close>

function zero_from :: "uint8 list \<Rightarrow> nat \<Rightarrow> nat \<Rightarrow> uint8 list" where
  "zero_from dat i lim = (if i < lim then zero_from (dat[i := 0]) (Suc i) lim else dat)"
  by pat_completeness auto
termination
  by (relation "measure (\<lambda>(dat, i, lim). lim - i)") auto

definition put_bitlen :: "uint64 \<Rightarrow> uint8 list \<Rightarrow> uint8 list" where
  "put_bitlen bits dat =
     dat[63 := ucast bits, 62 := ucast (drop_bit 8 bits), 61 := ucast (drop_bit 16 bits),
         60 := ucast (drop_bit 24 bits), 59 := ucast (drop_bit 32 bits),
         58 := ucast (drop_bit 40 bits), 57 := ucast (drop_bit 48 bits),
         56 := ucast (drop_bit 56 bits)]"

definition hash_byte :: "uint32 \<Rightarrow> nat \<Rightarrow> uint8" where
  "hash_byte w i = ucast (drop_bit (24 - i * 8) w AND 0x000000ff)"

definition sha256_final :: "SHA256_CTX \<Rightarrow> uint8 list" where
  "sha256_final ctx =
     (let i = unat (datalen ctx);
          ctx = (if datalen ctx < 56
                 then ctx\<lparr>data := zero_from ((data ctx)[i := 0x80]) (i + 1) 56\<rparr>
                 else (let ctx = ctx\<lparr>data := zero_from ((data ctx)[i := 0x80]) (i + 1) 64\<rparr>;
                           ctx = sha256_transform ctx (data ctx)
                       in ctx\<lparr>data := zero_from (data ctx) 0 56\<rparr>));
          ctx = ctx\<lparr>bitlen := bitlen ctx + ucast (datalen ctx * 8)\<rparr>;
          ctx = ctx\<lparr>data := put_bitlen (bitlen ctx) (data ctx)\<rparr>;
          ctx = sha256_transform ctx (data ctx)
      in [hash_byte (state ctx ! j) i. j \<leftarrow> [0..<8], i \<leftarrow> [0..<4]])"

definition hex_chars :: string where
  "hex_chars = ''0123456789abcdef''"

definition byte_to_hex :: "uint8 \<Rightarrow> string" where
  "byte_to_hex byte =
     [hex_chars ! unat (drop_bit 4 byte AND 0x0F), hex_chars ! unat (byte AND 0x0F)]"

definition hex_output :: "uint8 list \<Rightarrow> string" where
  "hex_output hash = concat (map byte_to_hex hash)"

text \<open>The three steps every caller performs on a fresh context, then the hexadecimal digest.\<close>

definition sha256_hash :: "SHA256_CTX \<Rightarrow> uint8 list \<Rightarrow> uint8 list" where
  "sha256_hash ctx input = sha256_final (sha256_update (sha256_init ctx) input)"

section \<open>The standard\<close>

text \<open>
  The functions of the Secure Hash Standard on 32-bit words, with the library's rotation;
  the message schedule \<open>W\<close> and the eight working variables are recurrences over the
  round number, and a message is padded as a whole before it is cut into 64-byte blocks.
\<close>

definition big_sigma0 :: "uint32 \<Rightarrow> uint32" where
  "big_sigma0 x = word_rotr 2 x XOR word_rotr 13 x XOR word_rotr 22 x"

definition big_sigma1 :: "uint32 \<Rightarrow> uint32" where
  "big_sigma1 x = word_rotr 6 x XOR word_rotr 11 x XOR word_rotr 25 x"

definition small_sigma0 :: "uint32 \<Rightarrow> uint32" where
  "small_sigma0 x = word_rotr 7 x XOR word_rotr 18 x XOR drop_bit 3 x"

definition small_sigma1 :: "uint32 \<Rightarrow> uint32" where
  "small_sigma1 x = word_rotr 17 x XOR word_rotr 19 x XOR drop_bit 10 x"

text \<open>
  The round constants, from their definition: the first 32 bits of the fractional parts of the cube
  roots of the first 64 primes. \<open>cbrt_bits j n r\<close> finds the last \<open>j\<close> bits of the integer cube root of
  \<open>n\<close>; the root of \<open>p * 2 ^ 96\<close> is that of \<open>p\<close> with 32 bits after the point.
\<close>

primrec cbrt_bits :: "nat \<Rightarrow> int \<Rightarrow> int \<Rightarrow> int" where
  "cbrt_bits 0 n r = r"
| "cbrt_bits (Suc j) n r =
     (let q = r + 2 ^ j in cbrt_bits j n (if q * q * q \<le> n then q else r))"

definition primes64 :: "int list" where
  "primes64 = [2, 3, 5, 7, 11, 13, 17, 19, 23, 29, 31, 37, 41, 43, 47, 53, 59, 61, 67, 71, 73, 79, 83, 89, 97, 101, 103, 107,
     109, 113, 127, 131, 137, 139, 149, 151, 157, 163, 167, 173, 179, 181, 191, 193, 197, 199, 211, 223, 227, 229, 233, 239,
     241, 251, 257, 263, 269, 271, 277, 281, 283, 293, 307, 311]"

definition round_consts :: "uint32 list" where
  "round_consts = map (\<lambda>p. word_of_int (cbrt_bits 35 (p * 2 ^ 96) 0)) primes64"

definition be_value :: "uint8 list \<Rightarrow> nat" where
  "be_value bs = foldl (\<lambda>v b. 256 * v + unat b) 0 bs"

fun W :: "uint8 list \<Rightarrow> nat \<Rightarrow> uint32" where
  "W blk t =
     (if t < 16 then of_nat (be_value (take 4 (drop (4 * t) blk)))
      else small_sigma1 (W blk (t - 2)) + W blk (t - 7) + small_sigma0 (W blk (t - 15)) + W blk (t - 16))"

declare W.simps [simp del]

fun vars_step :: "uint32 \<Rightarrow> working \<Rightarrow> working" where
  "vars_step kw (a, b, c, d, e, f, g, h) =
     (let T1 = h + big_sigma1 e + ((e AND f) XOR (NOT e AND g)) + kw;
          T2 = big_sigma0 a + ((a AND b) XOR (a AND c) XOR (b AND c))
      in (T1 + T2, a, b, c, d + T1, e, f, g))"

primrec vars :: "uint8 list \<Rightarrow> working \<Rightarrow> nat \<Rightarrow> working" where
  "vars blk H 0 = H"
| "vars blk H (Suc t) = vars_step (round_consts ! t + W blk t) (vars blk H t)"

fun to_working :: "uint32 list \<Rightarrow> working" where
  "to_working s = (s ! 0, s ! 1, s ! 2, s ! 3, s ! 4, s ! 5, s ! 6, s ! 7)"

fun of_working :: "working \<Rightarrow> uint32 list" where
  "of_working (a, b, c, d, e, f, g, h) = [a, b, c, d, e, f, g, h]"

definition compress :: "uint32 list \<Rightarrow> uint8 list \<Rightarrow> uint32 list" where
  "compress H blk = map2 (+) H (of_working (vars blk (to_working H) 64))"

definition initial_hash :: "uint32 list" where
  "initial_hash = [0x6a09e667, 0xbb67ae85, 0x3c6ef372, 0xa54ff53a,
                   0x510e527f, 0x9b05688c, 0x1f83d9ab, 0x5be0cd19]"

definition be64 :: "nat \<Rightarrow> uint8 list" where
  "be64 n = map (\<lambda>i. of_nat (n div 256 ^ (7 - i))) [0..<8]"

definition be32 :: "uint32 \<Rightarrow> uint8 list" where
  "be32 w = map (\<lambda>i. of_nat (unat w div 256 ^ (3 - i))) [0..<4]"

definition pad :: "uint8 list \<Rightarrow> uint8 list" where
  "pad msg = msg @ 0x80 # replicate ((119 - length msg mod 64) mod 64) 0 @ be64 (8 * length msg)"

fun blocks :: "uint8 list \<Rightarrow> uint8 list list" where
  "blocks xs = (if length xs < 64 then [] else take 64 xs # blocks (drop 64 xs))"

declare blocks.simps [simp del]

definition sha256_spec :: "uint8 list \<Rightarrow> uint8 list" where
  "sha256_spec msg = concat (map be32 (foldl compress initial_hash (blocks (pad msg))))"

section \<open>The code computes the standard\<close>

lemma ROTRIGHT_rotr:
  assumes "0 < b" "b < 32"
  shows "ROTRIGHT x b = word_rotr b x"
proof (rule bit_word_eqI)
  fix n assume "n < LENGTH(32)"
  then have n: "n < 32" by simp
  have "(n + b) mod 32 = (if n + b < 32 then n + b else n + b - 32)"
    using n assms by (simp add: mod_if)
  then show "bit (ROTRIGHT x b) n = bit (word_rotr b x) n"
    using n assms by (auto simp: ROTRIGHT_def bit_simps add.commute [of b n] dest: bit_imp_le_length)
qed

lemma sigma_eqs:
  "EP0 = big_sigma0" "EP1 = big_sigma1" "SIG0 = small_sigma0" "SIG1 = small_sigma1"
  by (auto simp: fun_eq_iff EP0_def EP1_def SIG0_def SIG1_def big_sigma0_def big_sigma1_def
      small_sigma0_def small_sigma1_def ROTRIGHT_rotr)

lemma k_length [simp]: "length k = 64"
  by (simp add: k_def k_rows_def)

lemma cube_mono: "a \<le> b \<Longrightarrow> 0 \<le> a \<Longrightarrow> a * a * a \<le> b * b * (b :: int)"
  by (intro mult_mono) auto

lemma cbrt_bits_eq:
  assumes "c * c * c \<le> n" "n < (c + 1) * (c + 1) * (c + 1)"
  shows "0 \<le> r \<Longrightarrow> r \<le> c \<Longrightarrow> c < r + 2 ^ j \<Longrightarrow> cbrt_bits j n r = c"
proof (induction j arbitrary: r)
  case (Suc j)
  let ?q = "r + 2 ^ j"
  have "?q * ?q * ?q \<le> n \<longleftrightarrow> ?q \<le> c"
    using assms cube_mono [of ?q c] cube_mono [of "c + 1" ?q] Suc.prems by (cases "?q \<le> c") auto
  then show ?case using Suc by (auto simp: Let_def)
qed simp

text \<open>The integer parts of the cube roots; with them the roots are determined by the table.\<close>

definition cbrt_ints :: "int list" where
  "cbrt_ints = [1, 1, 1, 1, 2, 2, 2, 2, 2, 3, 3, 3, 3, 3, 3, 3, 3, 3, 4, 4, 4, 4, 4, 4, 4, 4, 4, 4, 4, 4,
     5, 5, 5, 5, 5, 5, 5, 5, 5, 5, 5, 5, 5, 5, 5, 5, 5, 6, 6, 6, 6, 6, 6, 6, 6, 6, 6, 6, 6, 6, 6, 6, 6, 6]"

definition is_cbrt :: "int \<Rightarrow> int \<Rightarrow> bool" where
  "is_cbrt p c \<longleftrightarrow> 0 \<le> c \<and> c < 2 ^ 35 \<and> c * c * c \<le> p * 2 ^ 96 \<and> p * 2 ^ 96 < (c + 1) * (c + 1) * (c + 1)"

lemma k_is_cbrt: "list_all2 is_cbrt primes64 (map2 (\<lambda>e w. e * 2 ^ 32 + uint w) cbrt_ints k)"
  by (simp add: is_cbrt_def primes64_def cbrt_ints_def k_def k_rows_def)

lemma map_is_cbrt: "list_all2 is_cbrt ps cs \<Longrightarrow> map (\<lambda>p. word_of_int (cbrt_bits 35 (p * 2 ^ 96) 0) :: uint32) ps = map word_of_int cs"
proof (induction rule: list_all2_induct)
  case (Cons p ps c cs)
  then have "cbrt_bits 35 (p * 2 ^ 96) 0 = c" by (intro cbrt_bits_eq) (auto simp: is_cbrt_def)
  then show ?case using Cons by simp
qed simp

lemma map_frac: "length es = length ws \<Longrightarrow> map (word_of_int :: int \<Rightarrow> uint32) (map2 (\<lambda>e w. e * 2 ^ 32 + uint w) es ws) = ws"
proof (induction es ws rule: list_induct2)
  case (Cons e es w ws)
  have z: "(4294967296 :: uint32) = 0" by (rule word_uint_eqI) simp
  have "(word_of_int (e * 2 ^ 32 + uint w) :: uint32) = w" by (simp add: z)
  then show ?case using Cons by simp
qed simp

text \<open>The table of the code holds the constants of the standard.\<close>

lemma k_consts: "k = round_consts"
proof -
  have "length cbrt_ints = length k" by (simp add: cbrt_ints_def)
  then show ?thesis using map_is_cbrt [OF k_is_cbrt] map_frac [of cbrt_ints k] by (simp add: round_consts_def)
qed

lemma take4_drop:
  "j + 3 < length xs \<Longrightarrow> take 4 (drop j xs) = [xs ! j, xs ! (j + 1), xs ! (j + 2), xs ! (j + 3)]"
  by (rule nth_equalityI) (auto simp: less_Suc_eq numeral_eq_Suc)

lemma be_value4:
  "(of_nat (be_value [a, b, c, d]) :: uint32) =
     push_bit 24 (ucast a) OR push_bit 16 (ucast b) OR push_bit 8 (ucast c) OR ucast d"
proof -
  have 1: "push_bit 8 (ucast c) + ucast d = push_bit 8 (ucast c) OR (ucast d :: uint32)"
    by (rule disjunctive_add) (auto simp: bit_simps dest: bit_imp_le_length)
  have 2: "push_bit 16 (ucast b) + (push_bit 8 (ucast c) OR ucast d) =
      push_bit 16 (ucast b) OR (push_bit 8 (ucast c) OR ucast d :: uint32)"
    by (rule disjunctive_add) (auto simp: bit_simps dest: bit_imp_le_length)
  have 3: "push_bit 24 (ucast a) + (push_bit 16 (ucast b) OR (push_bit 8 (ucast c) OR ucast d)) =
      push_bit 24 (ucast a) OR (push_bit 16 (ucast b) OR (push_bit 8 (ucast c) OR ucast d :: uint32))"
    by (rule disjunctive_add) (auto simp: bit_simps dest: bit_imp_le_length)
  have "(of_nat (be_value [a, b, c, d]) :: uint32) =
      push_bit 24 (ucast a) + (push_bit 16 (ucast b) + (push_bit 8 (ucast c) + ucast d))"
    by (simp add: be_value_def push_bit_eq_mult algebra_simps)
  then show ?thesis by (simp only: 1 2 3 or.assoc)
qed

lemma msg_word_W: "length dat = 64 \<Longrightarrow> i < 16 \<Longrightarrow> msg_word dat i = W dat i"
  by (simp add: msg_word_def W.simps [of dat i] take4_drop be_value4 Let_def)

lemma schedule_prefix:
  assumes "length dat = 64" "16 \<le> n" "n \<le> 64"
  shows "fold schedule_step [16..<n] (map (msg_word dat) [0..<16]) = map (W dat) [0..<n]"
  using assms(2,3)
proof (induction n rule: dec_induct)
  case base
  then show ?case using assms(1) by (auto simp: msg_word_W)
next
  case (step n)
  then have n: "16 \<le> n" by simp
  have "schedule_step n (map (W dat) [0..<n]) = map (W dat) [0..<n] @ [W dat n]"
    using n by (simp add: schedule_step_def sigma_eqs W.simps [of dat n])
  with step show ?case by simp
qed

lemma schedule_W: "length dat = 64 \<Longrightarrow> schedule dat = map (W dat) [0..<64]"
  unfolding schedule_def by (rule schedule_prefix) auto

lemma working_cases: "(\<And>a b c d e f g h. (v :: working) = (a, b, c, d, e, f, g, h) \<Longrightarrow> P) \<Longrightarrow> P"
  by (metis prod.collapse)

lemma rounds_vars:
  assumes "\<And>i. i < 64 \<Longrightarrow> m ! i = W blk i" "n \<le> 64"
  shows "fold (round_step m) [0..<n] H = vars blk H n"
  using assms(2)
proof (induction n)
  case (Suc n)
  obtain a b c d e f g h where v: "vars blk H n = (a, b, c, d, e, f, g, h)"
    by (cases rule: working_cases)
  show ?case using Suc assms(1) [of n]
    by (simp add: v Let_def CH_def MAJ_def sigma_eqs add.assoc k_consts)
qed simp

lemma list8: "length xs = 8 \<Longrightarrow> xs = [xs ! 0, xs ! 1, xs ! 2, xs ! 3, xs ! 4, xs ! 5, xs ! 6, xs ! 7]"
  by (rule nth_equalityI) (auto simp: less_Suc_eq numeral_eq_Suc)

lemma transform_state:
  assumes "length dat = 64" "length (state ctx) = 8"
  shows "sha256_transform ctx dat = ctx\<lparr>state := compress (state ctx) dat\<rparr>"
proof -
  let ?H = "to_working (state ctx)"
  obtain a b c d e f g h where v: "vars dat ?H 64 = (a, b, c, d, e, f, g, h)"
    by (cases rule: working_cases)
  have "fold (round_step (schedule dat)) [0..<64] ?H = vars dat ?H 64"
    using assms(1) by (intro rounds_vars) (auto simp: schedule_W)
  moreover have "compress (state ctx) dat = [state ctx ! 0 + a, state ctx ! 1 + b,
      state ctx ! 2 + c, state ctx ! 3 + d, state ctx ! 4 + e, state ctx ! 5 + f,
      state ctx ! 6 + g, state ctx ! 7 + h]"
    unfolding compress_def v by (subst list8 [OF assms(2)]) simp
  ultimately show ?thesis
    using v by (simp add: sha256_transform_def Let_def)
qed

subsection \<open>The streaming context\<close>

text \<open>
  A context that has absorbed \<open>msg\<close>: the full blocks are compressed into \<open>state\<close>,
  the rest lies at the front of \<open>data\<close>, and \<open>bitlen\<close> counts the compressed bits.
\<close>

definition absorbed :: "SHA256_CTX \<Rightarrow> uint8 list \<Rightarrow> bool" where
  "absorbed ctx msg \<longleftrightarrow>
     length (data ctx) = 64 \<and> length (state ctx) = 8 \<and>
     unat (datalen ctx) = length msg mod 64 \<and>
     bitlen ctx = of_nat (8 * (64 * (length msg div 64))) \<and>
     take (length msg mod 64) (data ctx) = drop (64 * (length msg div 64)) msg \<and>
     state ctx = foldl compress initial_hash (blocks msg)"

lemma length_of_working [simp]: "length (of_working v) = 8"
  by (cases v rule: of_working.cases) simp

lemma length_compress [simp]: "length H = 8 \<Longrightarrow> length (compress H blk) = 8"
  by (simp add: compress_def)

lemma length_foldl_compress [simp]: "length H = 8 \<Longrightarrow> length (foldl compress H bs) = 8"
  by (induction bs arbitrary: H) auto

lemma length_initial_hash [simp]: "length initial_hash = 8"
  by (simp add: initial_hash_def)

lemma blocks_short [simp]: "length xs < 64 \<Longrightarrow> blocks xs = []"
  by (simp add: blocks.simps)

lemma blocks_append:
  "length xs mod 64 = 0 \<Longrightarrow> blocks (xs @ ys) = blocks xs @ blocks ys"
proof (induction xs rule: blocks.induct)
  case (1 xs)
  show ?case
  proof (cases "length xs < 64")
    case True
    with "1.prems" have "xs = []" by (simp add: mod_less)
    then show ?thesis by simp
  next
    case False
    then have "length (drop 64 xs) mod 64 = 0" using "1.prems" by (simp add: le_mod_geq)
    with False "1.IH" show ?thesis
      by (simp add: blocks.simps [of "xs @ ys"] blocks.simps [of xs])
  qed
qed

lemma blocks_one: "length xs = 64 \<Longrightarrow> blocks xs = [xs]"
  by (simp add: blocks.simps [of xs])

lemma blocks_full_part: "blocks msg = blocks (take (64 * (length msg div 64)) msg)"
proof -
  let ?n = "64 * (length msg div 64)"
  have "blocks msg = blocks (take ?n msg @ drop ?n msg)" by simp
  also have "\<dots> = blocks (take ?n msg) @ blocks (drop ?n msg)"
    by (rule blocks_append) (simp add: min_absorb2)
  also have "blocks (drop ?n msg) = []"
    by (simp add: minus_mult_div_eq_mod)
  finally show ?thesis by simp
qed

lemma absorbed_init: "length (data ctx) = 64 \<Longrightarrow> absorbed (sha256_init ctx) []"
  by (simp add: absorbed_def sha256_init_def initial_hash_def)

lemma absorbed_update_byte:
  assumes "absorbed ctx msg"
  shows "absorbed (update_byte x ctx) (msg @ [x])"
proof -
  let ?r = "length msg mod 64" and ?q = "length msg div 64"
  note a = assms [unfolded absorbed_def]
  have dl: "datalen ctx = of_nat ?r" using a by (simp add: word_unat_eq_iff unat_of_nat)
  have r: "?r < 64" by simp
  have d64: "datalen ctx + 1 = 64 \<longleftrightarrow> ?r = 63"
    using a by (auto simp: dl word_unat_eq_iff unat_word_ariths)
  show ?thesis
  proof (cases "?r = 63")
    case False
    then have r1: "Suc (length msg) mod 64 = Suc ?r" "Suc (length msg) div 64 = ?q"
      using r by (auto simp: mod_Suc div_Suc)
    have "unat (datalen ctx + 1) = Suc ?r"
      using a r by (simp add: dl unat_word_ariths unat_of_nat)
    moreover have "take (Suc ?r) ((data ctx)[?r := x]) = drop (64 * ?q) msg @ [x]"
      using a r by (simp add: take_Suc_conv_app_nth take_update_cancel)
    moreover have "blocks (msg @ [x]) = blocks msg"
    proof -
      have "64 * ?q \<le> length msg" by simp
      then show ?thesis
        using blocks_full_part [of "msg @ [x]"] blocks_full_part [of msg] r1 by simp
    qed
    ultimately show ?thesis
      using a False r1 d64 by (simp add: absorbed_def update_byte_def Let_def)
  next
    case True
    then have r1: "Suc (length msg) mod 64 = 0" "Suc (length msg) div 64 = Suc ?q"
      by (auto simp: mod_Suc div_Suc)
    let ?d = "(data ctx)[63 := x]"
    have d: "?d = drop (64 * ?q) msg @ [x]"
      using a True by (simp add: upd_conv_take_nth_drop)
    have "blocks (msg @ [x]) = blocks (take (64 * ?q) msg @ drop (64 * ?q) msg @ [x])"
      by (metis append.assoc append_take_drop_id)
    also have "\<dots> = blocks (take (64 * ?q) msg) @ blocks (drop (64 * ?q) msg @ [x])"
      by (rule blocks_append) (simp add: min_absorb2)
    also have "drop (64 * ?q) msg @ [x] = ?d" using d by simp
    also have "blocks ?d = [?d]" using a by (intro blocks_one) simp
    also have "blocks (take (64 * ?q) msg) = blocks msg" by (rule blocks_full_part [symmetric])
    finally have bl: "blocks (msg @ [x]) = blocks msg @ [?d]" .
    show ?thesis
      using a True r1 d64 bl
      by (simp add: absorbed_def update_byte_def Let_def transform_state algebra_simps)
  qed
qed

lemma absorbed_update: "absorbed ctx msg \<Longrightarrow> absorbed (sha256_update ctx xs) (msg @ xs)"
  unfolding sha256_update_def
proof (induction xs arbitrary: ctx msg)
  case (Cons x xs)
  then show ?case using Cons.IH [OF absorbed_update_byte [OF Cons.prems]] by simp
qed simp

subsection \<open>Padding\<close>

declare zero_from.simps [simp del]

lemma zero_from_eq:
  "i \<le> lim \<Longrightarrow> lim \<le> length dat \<Longrightarrow>
   zero_from dat i lim = take i dat @ replicate (lim - i) 0 @ drop lim dat"
proof (induction dat i lim rule: zero_from.induct)
  case (1 dat i lim)
  show ?case
  proof (cases "i < lim")
    case True
    have "take (Suc i) (dat[i := 0]) = take i dat @ [0]"
      using True "1.prems" by (simp add: take_Suc_conv_app_nth)
    moreover have "lim - i = Suc (lim - Suc i)" using True by simp
    ultimately show ?thesis
      using True "1.IH" "1.prems" by (simp add: zero_from.simps [of dat i lim])
  next
    case False
    with "1.prems" have "i = lim" by simp
    then show ?thesis by (simp add: zero_from.simps [of dat lim lim])
  qed
qed

lemma ucast_byte_of_nat:
  assumes "j \<le> 56"
  shows "(ucast (drop_bit j (of_nat n :: uint64)) :: uint8) = of_nat (n div 2 ^ j)"
proof (rule bit_word_eqI)
  fix i assume "i < LENGTH(8)"
  then have "i < 8" by simp
  with assms show "bit (ucast (drop_bit j (of_nat n :: uint64)) :: uint8) i = bit (of_nat (n div 2 ^ j) :: uint8) i"
    by (simp add: bit_simps flip: drop_bit_eq_div)
qed

lemma put_bitlen_eq:
  assumes "length dat = 64"
  shows "put_bitlen (of_nat n) dat = take 56 dat @ be64 n"
proof -
  have 8: "length (drop 56 dat) = 8" using assms by simp
  then obtain a b c d e f g h where t: "drop 56 dat = [a, b, c, d, e, f, g, h]"
    using list8 by blast
  have dat: "dat = take 56 dat @ [a, b, c, d, e, f, g, h]"
    by (metis append_take_drop_id t)
  have "put_bitlen (of_nat n) (take 56 dat @ [a, b, c, d, e, f, g, h]) =
      take 56 dat @ [of_nat (n div 2 ^ 56), of_nat (n div 2 ^ 48), of_nat (n div 2 ^ 40),
        of_nat (n div 2 ^ 32), of_nat (n div 2 ^ 24), of_nat (n div 2 ^ 16), of_nat (n div 2 ^ 8), of_nat (n div 2 ^ 0)]"
    using assms
    by (simp add: put_bitlen_def list_update_append ucast_byte_of_nat [where j = 0, simplified]
        ucast_byte_of_nat del: power_Suc)
  also have "[of_nat (n div 2 ^ 56), of_nat (n div 2 ^ 48), of_nat (n div 2 ^ 40),
        of_nat (n div 2 ^ 32), of_nat (n div 2 ^ 24), of_nat (n div 2 ^ 16), of_nat (n div 2 ^ 8), of_nat (n div 2 ^ 0)] = be64 n"
    by (simp add: be64_def upt_rec)
  finally show ?thesis using dat by simp
qed

lemma length_be64 [simp]: "length (be64 n) = 8"
  by (simp add: be64_def)

lemma hash_bytes: "map (hash_byte w) [0..<4] = be32 w"
proof -
  have "hash_byte w i = of_nat (unat w div 256 ^ (3 - i))" if "i < 4" for i
  proof (rule bit_word_eqI)
    fix n assume "n < LENGTH(8)"
    then have n: "n < 8" by simp
    have p: "(256 :: nat) ^ (3 - i) = 2 ^ (24 - i * 8)"
      using that by (cases i; cases "i - 1"; cases "i - 2"; cases "i - 3") auto
    have "n = 0 \<or> n = 1 \<or> n = 2 \<or> n = 3 \<or> n = 4 \<or> n = 5 \<or> n = 6 \<or> n = 7" using n by arith
    then have "bit (255 :: uint32) n" by auto
    then show "bit (hash_byte w i) n = bit (of_nat (unat w div 256 ^ (3 - i)) :: uint8) n"
      using n that unfolding p hash_byte_def by (simp add: bit_simps flip: drop_bit_eq_div)
  qed
  then show ?thesis by (simp add: be32_def)
qed

lemma pad_blocks:
  assumes "r = length msg mod 64" "part = drop (64 * (length msg div 64)) msg"
  shows "blocks (pad msg) = blocks msg @
     (if r < 56 then [part @ 0x80 # replicate (55 - r) 0 @ be64 (8 * length msg)]
      else [part @ 0x80 # replicate (63 - r) 0, replicate 56 0 @ be64 (8 * length msg)])"
proof -
  let ?n = "64 * (length msg div 64)"
  have part: "length part = r" using assms by (simp add: minus_mult_div_eq_mod)
  have "pad msg = take ?n msg @ part @ 0x80 # replicate ((119 - r) mod 64) 0 @ be64 (8 * length msg)"
    using assms by (simp add: pad_def)
  then have "blocks (pad msg) = blocks msg @
      blocks (part @ 0x80 # replicate ((119 - r) mod 64) 0 @ be64 (8 * length msg))"
    by (simp add: blocks_append min_absorb2 flip: blocks_full_part)
  also have "blocks (part @ 0x80 # replicate ((119 - r) mod 64) 0 @ be64 (8 * length msg)) =
     (if r < 56 then [part @ 0x80 # replicate (55 - r) 0 @ be64 (8 * length msg)]
      else [part @ 0x80 # replicate (63 - r) 0, replicate 56 0 @ be64 (8 * length msg)])"
  proof (cases "r < 56")
    case True
    have "(119 - r) mod 64 = 55 - r" using True by (simp add: mod_if)
    with True part show ?thesis by (simp add: blocks_one)
  next
    case False
    have r: "r < 64" using assms by simp
    have "(119 - r) mod 64 = 63 - r + 56" using False r by simp
    then have "part @ 0x80 # replicate ((119 - r) mod 64) 0 @ be64 (8 * length msg) =
        (part @ 0x80 # replicate (63 - r) 0) @ replicate 56 0 @ be64 (8 * length msg)"
      by (simp only: replicate_add append.assoc append_Cons)
    moreover have "length (part @ 0x80 # replicate (63 - r) (0 :: uint8)) = 64"
      using part r by simp
    ultimately show ?thesis
      using False blocks_append [of "part @ 0x80 # replicate (63 - r) 0"]
        blocks_one [of "part @ 0x80 # replicate (63 - r) 0"]
        blocks_one [of "replicate 56 0 @ be64 (8 * length msg)"] by simp
  qed
  finally show ?thesis .
qed

text \<open>
  The first block \<open>sha256_final\<close> closes: what is left of the message, the byte
  \<open>0x80\<close> and zeros up to \<open>lim\<close>; what follows in the buffer is stale.
\<close>

lemma first_padding:
  assumes "absorbed ctx msg" "r = length msg mod 64" "r < lim" "lim \<le> 64"
  shows "zero_from ((data ctx)[r := 0x80]) (r + 1) lim =
    drop (64 * (length msg div 64)) msg @ 0x80 # replicate (lim - Suc r) 0 @ drop lim (data ctx)"
proof -
  have len: "length (data ctx) = 64" and
    tk: "take r (data ctx) = drop (64 * (length msg div 64)) msg"
    using assms by (auto simp: absorbed_def)
  have "zero_from ((data ctx)[r := 0x80]) (Suc r) lim =
      take (Suc r) ((data ctx)[r := 0x80]) @ replicate (lim - Suc r) 0 @ drop lim ((data ctx)[r := 0x80])"
    using assms len by (intro zero_from_eq) auto
  also have "take (Suc r) ((data ctx)[r := 0x80]) = take r (data ctx) @ [0x80]"
    using assms len by (simp add: take_Suc_conv_app_nth)
  finally show ?thesis using assms(3) by (simp add: tk drop_update_cancel)
qed

lemma put_bitlen_zeroed:
  "length dat = 64 \<Longrightarrow> put_bitlen (of_nat n) (zero_from dat 0 56) = replicate 56 0 @ be64 n"
  by (simp add: zero_from_eq put_bitlen_eq)

lemma take_length_append: "length A = n \<Longrightarrow> take n (A @ B) = A"
  by simp

lemma sha256_final_absorbed:
  assumes abs: "absorbed ctx msg"
  shows "sha256_final ctx = sha256_spec msg"
proof -
  let ?part = "drop (64 * (length msg div 64)) msg" and ?r = "length msg mod 64"
  let ?bits = "8 * length msg"
  let ?out = "\<lambda>H. concat (map be32 H)"
  note a = abs [unfolded absorbed_def]
  have bits: "bitlen ctx + ucast (datalen ctx * 8) = of_nat ?bits"
  proof -
    have "unat (datalen ctx * 8) = ?r * 8" using a by (simp add: unat_word_ariths)
    then have "(ucast (datalen ctx * 8) :: uint64) = of_nat (?r * 8)" by (metis ucast_u32_u64)
    moreover have "64 * (length msg div 64) + ?r = length msg" by simp
    then have "?bits = 8 * (64 * (length msg div 64)) + ?r * 8" by (metis distrib_left mult.commute)
    ultimately show ?thesis using a by (simp only: of_nat_add)
  qed
  have digest: "[hash_byte (H ! j) i. j \<leftarrow> [0..<8], i \<leftarrow> [0..<4]] = ?out H" if "length H = 8" for H
    using that by (metis (no_types, lifting) hash_bytes list.map_comp map_nth o_def map_eq_conv)
  show ?thesis
  proof (cases "?r < 56")
    case True
    then have lt: "datalen ctx < 56" using a by (simp add: word_less_nat_alt)
    let ?d = "?part @ 0x80 # replicate (55 - ?r) 0 @ drop 56 (data ctx)"
    have z: "zero_from ((data ctx)[?r := 0x80]) (?r + 1) 56 = ?d"
      using first_padding [OF abs refl, of 56] True by simp
    have pl: "length ?part = ?r" by (simp add: minus_mult_div_eq_mod)
    have "length ?d = 64" using a True pl by simp
    then have "put_bitlen (of_nat ?bits) ?d = take 56 ?d @ be64 ?bits"
      by (rule put_bitlen_eq)
    moreover have "length (?part @ 0x80 # replicate (55 - ?r) (0 :: uint8)) = 56"
      using True pl by simp
    then have "take 56 ?d = ?part @ 0x80 # replicate (55 - ?r) 0"
      by (drule_tac take_length_append [where B = "drop 56 (data ctx)"]) (simp only: append.assoc append_Cons)
    ultimately have "put_bitlen (of_nat ?bits) ?d = ?part @ 0x80 # replicate (55 - ?r) 0 @ be64 ?bits"
      by simp
    then show ?thesis
      using a True lt z bits pl
      by (simp add: sha256_final_def Let_def transform_state digest sha256_spec_def pad_blocks)
  next
    case False
    then have nlt: "\<not> datalen ctx < 56" using a by (simp add: word_less_nat_alt)
    have pl: "length ?part = ?r" by (simp add: minus_mult_div_eq_mod)
    let ?d = "?part @ 0x80 # replicate (63 - ?r) 0"
    have z: "zero_from ((data ctx)[?r := 0x80]) (?r + 1) 64 = ?d"
      using first_padding [OF abs refl, of 64] a by simp
    have ld: "length ?d = 64" using pl by simp
    then have "put_bitlen (of_nat ?bits) (zero_from ?d 0 56) = replicate 56 0 @ be64 ?bits"
      by (rule put_bitlen_zeroed)
    then show ?thesis
      using a False nlt z bits pl ld
      by (simp add: sha256_final_def Let_def transform_state digest sha256_spec_def pad_blocks)
  qed
qed

lemma sha256_hash_spec: "length (data ctx) = 64 \<Longrightarrow> sha256_hash ctx msg = sha256_spec msg"
  using absorbed_update [OF absorbed_init, of ctx msg]
  by (simp add: sha256_hash_def sha256_final_absorbed)

text \<open>C3. The streaming implementation (\<open>sha256_init\<close>, \<open>sha256_update\<close>, \<open>sha256_final\<close>), started
  on any context and fed a message in any two pieces, returns the digest the standard defines
  on the padded message.\<close>

theorem sha256_correct:
  assumes "length (data ctx) = 64"
  shows "sha256_final (sha256_update (sha256_update (sha256_init ctx) m1) m2) = sha256_spec (m1 @ m2)"
  using sha256_hash_spec [OF assms, of "m1 @ m2"]
  by (simp add: sha256_hash_def sha256_update_def)

theorem sha256_correct_witness:
  "sha256_final (sha256_update (sha256_update
     (sha256_init \<lparr>data = replicate 64 0, datalen = 7, bitlen = 9, state = []\<rparr>) [0x61]) [0x62, 0x63])
   = sha256_spec [0x61, 0x62, 0x63]"
  using sha256_correct [of "\<lparr>data = replicate 64 0, datalen = 7, bitlen = 9, state = []\<rparr>" "[0x61]" "[0x62, 0x63]"]
  by simp

end
