(* ===== verification/Sha256_Prog.thy ===== *)
theory Sha256_Prog
  imports Sha256
begin

text \<open>
  The callers of the hash: the boot-time computation of \<^verbatim>\<open>kernel/main.c\<close>, its copy
  \<open>kernel_sha256\<close> in \<^verbatim>\<open>kernel/proc.c\<close>, and the program \<^verbatim>\<open>user/sha256.c\<close>, whose
  \<open>read\<close> calls are given by the list of their results. The program has a copy of the hash of its own
  (lines 7 to 157), which is that of \<^verbatim>\<open>kernel/sha256.c\<close> token for token but for comments; the
  definitions of \<open>Sha256\<close> stand for both. The context and the buffer are uninitialised stack arrays,
  hence arguments.
\<close>

section \<open>Printing a digest\<close>

definition boot_sha256 :: "SHA256_CTX \<Rightarrow> string" where
  "boot_sha256 ctx =
     (let input = bytes_of ''testing_kernel_implementation''
      in hex_output (sha256_final (sha256_update (sha256_init ctx) (takeWhile (\<lambda>b. b \<noteq> 0) input))))"

definition kernel_sha256 :: "SHA256_CTX \<Rightarrow> string" where
  "kernel_sha256 ctx =
     (let input = bytes_of ''kernel''
      in hex_output (sha256_final (sha256_update (sha256_init ctx) (takeWhile (\<lambda>b. b \<noteq> 0) input))))"

section \<open>\<open>sha256 <filename>\<close>\<close>

text \<open>
  A result of \<open>read\<close> is the bytes it delivers, none at the end of the file; \<open>None\<close> is \<open>-1\<close>.
  The loop returns the final \<open>bytesRead\<close>, the buffer, and what was written to the terminal.
\<close>

fun sha256_read_loop ::
  "uint8 list option list \<Rightarrow> uint8 list \<Rightarrow> uint8 list \<Rightarrow> int \<times> uint8 list \<times> uint8 list" where
  "sha256_read_loop [] buffer out = (0, buffer, out)"
| "sha256_read_loop (None # rs) buffer out = (-1, buffer, out)"
| "sha256_read_loop (Some [] # rs) buffer out = (0, buffer, out)"
| "sha256_read_loop (Some (b # bs) # rs) buffer out =
     (let chunk = b # bs; bytesRead = length chunk;
          buffer = chunk @ drop bytesRead buffer;
          buffer = buffer[bytesRead - 1 := 0]
      in sha256_read_loop rs buffer (out @ take (bytesRead - 1) buffer))"

datatype sha256_exit = Usage | Cannot_open | Error_reading | Printed "uint8 list" string

text \<open>\<open>strlen\<close> of a buffer with no zero byte runs past it: the model has no result then.\<close>

definition sha256_main ::
  "SHA256_CTX \<Rightarrow> uint8 list \<Rightarrow> nat \<Rightarrow> int \<Rightarrow> uint8 list option list \<Rightarrow> sha256_exit option" where
  "sha256_main ctx buffer argc fd reads =
     (if argc \<noteq> 2 then Some Usage
      else if fd < 0 then Some Cannot_open
      else case sha256_read_loop reads buffer [] of (bytesRead, buffer, out) \<Rightarrow>
        if bytesRead < 0 then Some Error_reading
        else if 0 \<notin> set buffer then None
        else let ctx = sha256_init ctx;
                 ctx = sha256_update ctx (takeWhile (\<lambda>b. b \<noteq> 0) buffer);
                 hash = sha256_final ctx
             in Some (Printed out (hex_output hash)))"

section \<open>Hexadecimal output can be read back\<close>

definition hex_value :: "char \<Rightarrow> nat" where
  "hex_value c = (if of_char c < (97 :: nat) then of_char c - 48 else of_char c - 87)"

fun unhex :: "string \<Rightarrow> uint8 list" where
  "unhex (a # b # cs) = of_nat (16 * hex_value a + hex_value b) # unhex cs"
| "unhex cs = []"

lemma hex_value_digit: "i < 16 \<Longrightarrow> hex_value (hex_chars ! i) = i"
proof -
  assume "i < 16"
  then have "i \<in> set [0..<16]" by simp
  moreover have "\<forall>i \<in> set [0..<16]. hex_value (hex_chars ! i) = i" by code_simp
  ultimately show ?thesis by blast
qed

lemma nibbles: "unat (drop_bit 4 b AND 0x0F :: uint8) = unat b div 16" "unat (b AND 0x0F :: uint8) = unat b mod 16"
proof -
  have m: "(0x0F :: uint8) = mask 4" by (simp add: mask_eq_exp_minus_1)
  have t: "x AND 0x0F = take_bit 4 x" for x :: uint8 unfolding m by (simp add: take_bit_eq_mask)
  show "unat (b AND 0x0F) = unat b mod 16"
    unfolding t by (simp add: take_bit_eq_mod unat_mod_distrib)
  have "unat (drop_bit 4 b) = unat b div 16"
    using unat_lt_2p8 [of b] by (simp add: drop_bit_eq_div unat_div_distrib)
  then show "unat (drop_bit 4 b AND 0x0F) = unat b div 16"
    using unat_lt_2p8 [of b] unfolding t by (simp add: take_bit_eq_mod unat_mod_distrib)
qed

lemma unhex_byte: "unhex (byte_to_hex b @ cs) = b # unhex cs"
proof -
  have "unat b div 16 < 16" "unat b mod 16 < 16" using unat_lt_2p8 [of b] by simp_all
  moreover have "of_nat (16 * (unat b div 16) + unat b mod 16) = b" by (simp only: mult_div_mod_eq) simp
  ultimately show ?thesis
    unfolding byte_to_hex_def nibbles(1) by (simp only: nibbles(2) append_Cons append_Nil unhex.simps hex_value_digit)
qed

lemma unhex_hex_output: "unhex (hex_output bs) = bs"
  by (induction bs) (simp_all add: hex_output_def unhex_byte)

lemma length_hex_output: "length (hex_output bs) = 2 * length bs"
  by (induction bs) (simp_all add: hex_output_def byte_to_hex_def)

text \<open>C38. The digest the kernel prints while booting is 64 hexadecimal digits that, read back, are
  the SHA-256 digest of the boot message as the standard defines it.\<close>

theorem boot_sha256_correct:
  assumes "length (data ctx) = 64"
  shows "unhex (boot_sha256 ctx) = sha256_spec (bytes_of ''testing_kernel_implementation'')"
proof -
  have "takeWhile (\<lambda>b. b \<noteq> 0) (bytes_of ''testing_kernel_implementation'')
      = bytes_of ''testing_kernel_implementation''" by (simp add: bytes_of_def)
  then show ?thesis
    unfolding boot_sha256_def Let_def unhex_hex_output
    using sha256_hash_spec [OF assms, of "bytes_of ''testing_kernel_implementation''"]
    by (simp only: sha256_hash_def)
qed

theorem boot_sha256_correct_witness:
  "unhex (boot_sha256 \<lparr>data = replicate 64 7, datalen = 0, bitlen = 0, state = []\<rparr>) =
     sha256_spec (bytes_of ''testing_kernel_implementation'')"
  by (rule boot_sha256_correct) simp

section \<open>What the program hashes\<close>

text \<open>
  Every \<open>read\<close> overwrites the buffer from its start, and the hash is taken once, after the loop.
\<close>

lemma read_loop_last:
  assumes "c \<noteq> []" "\<forall>c \<in> set cs. c \<noteq> []"
  shows "\<exists>rest out'. sha256_read_loop (map Some (cs @ [c])) buffer out = (0, butlast c @ 0 # rest, out')"
  using assms(2)
proof (induction cs arbitrary: buffer out)
  case Nil
  obtain b bs where c: "c = b # bs" using assms(1) by (cases c) auto
  have split: "c @ r = butlast c @ last c # r" for r
    using assms(1) append_butlast_last_id [of c] by (metis append.assoc append_Cons append_Nil)
  have "(c @ drop (length c) buffer)[length c - 1 := 0] = butlast c @ 0 # drop (length c) buffer"
    unfolding split length_butlast [symmetric] by (rule list_update_length)
  then show ?case using c by (simp add: Let_def)
next
  case (Cons d cs)
  then obtain b bs where "d = b # bs" by (cases d) auto
  then show ?case using Cons by (simp add: Let_def)
qed

text \<open>C37. For a file that \<open>read\<close> delivers in the pieces \<open>cs\<close> and \<open>c\<close>, the program prints the digest of
  the last piece alone, without its last byte and only up to its first zero byte; the earlier
  pieces do not enter the digest.\<close>

theorem sha256_main_last_piece:
  assumes "length (data ctx) = 64" "c \<noteq> []" "\<forall>c \<in> set cs. c \<noteq> []" "0 \<le> fd"
  shows "\<exists>out hex. sha256_main ctx buffer 2 fd (map Some (cs @ [c])) = Some (Printed out hex) \<and>
    unhex hex = sha256_spec (takeWhile (\<lambda>b. b \<noteq> 0) (butlast c))"
proof -
  obtain rest out where loop: "sha256_read_loop (map Some (cs @ [c])) buffer [] = (0, butlast c @ 0 # rest, out)"
    using read_loop_last [OF assms(2,3)] by blast
  have "takeWhile (\<lambda>b. b \<noteq> 0) (xs @ 0 # rest) = takeWhile (\<lambda>b. b \<noteq> 0) xs" for xs
    by (induction xs) auto
  then show ?thesis
    using sha256_hash_spec [OF assms(1)] assms(4) loop
    by (simp add: sha256_main_def Let_def unhex_hex_output sha256_hash_def)
qed

theorem sha256_main_last_piece_witness:
  "\<exists>out hex. sha256_main \<lparr>data = replicate 64 0, datalen = 0, bitlen = 0, state = []\<rparr> (replicate 10000 1)
     2 3 (map Some ([[0x61, 0x62]] @ [[0x63, 0x0A]])) = Some (Printed out hex) \<and>
     unhex hex = sha256_spec [0x63]"
  using sha256_main_last_piece [of "\<lparr>data = replicate 64 0, datalen = 0, bitlen = 0, state = []\<rparr>"
      "[0x63, 0x0A]" "[[0x61, 0x62]]" 3 "replicate 10000 1"]
  by simp

end
