(* ===== verification/Locks.thy ===== *)
theory Locks
  imports Kernel_Prelude
begin

text \<open>
  \<^verbatim>\<open>kernel/spinlock.c\<close> and \<^verbatim>\<open>kernel/sleeplock.c\<close>. The operations of one CPU are functions on
  its \<open>struct cpu\<close> and a lock; the interleaving of the CPUs of the machine on one lock is a
  step relation whose steps are the statements of \<open>acquire\<close> and \<open>release\<close>. The atomic swap, the store
  of \<open>lk->cpu\<close> and the clearing of \<open>lk->locked\<close> are steps of their own; the two loads of \<open>holding\<close> are
  one step with the \<open>push_off\<close> before them in \<open>acquire\<close>, and with the store of \<open>lk->cpu\<close> after them in
  \<open>release\<close>. The nesting count \<open>noff\<close> is an unbounded integer: it counts locks held at once, and its
  overflow is not modelled. The other theories use a spin lock only to say that what it protects is one step.
\<close>

section \<open>Interrupts and \<open>push_off\<close>/\<open>pop_off\<close>\<close>

text \<open>\<open>sie\<close> is the interrupt-enable bit that \<open>intr_get\<close>, \<open>intr_on\<close> and \<open>intr_off\<close> access.\<close>

record cpu =
  noff :: int
  intena :: bool
  sie :: bool

definition push_off :: "cpu \<Rightarrow> cpu" where
  "push_off c =
     (let old = sie c;
          c = c\<lparr>sie := False\<rparr>;
          c = (if noff c = 0 then c\<lparr>intena := old\<rparr> else c)
      in c\<lparr>noff := noff c + 1\<rparr>)"

definition pop_off :: "cpu \<Rightarrow> cpu res" where
  "pop_off c =
     (if sie c then Panic ''pop_off - interruptible''
      else if noff c < 1 then Panic ''pop_off''
      else let c = c\<lparr>noff := noff c - 1\<rparr>
           in Ret (if noff c = 0 \<and> intena c then c\<lparr>sie := True\<rparr> else c))"

primrec pop_offs :: "nat \<Rightarrow> cpu \<Rightarrow> cpu res" where
  "pop_offs 0 c = Ret c"
| "pop_offs (Suc n) c = seq (pop_off c) (pop_offs n)"

section \<open>Spin locks\<close>

text \<open>\<open>lk_cpu\<close> is the pointer \<open>lk->cpu\<close>, by the number of the CPU.\<close>

record spinlock =
  locked :: uint32
  lk_cpu :: "nat option"

definition initlock :: spinlock where
  "initlock = \<lparr>locked = 0, lk_cpu = None\<rparr>"

definition holding :: "nat \<Rightarrow> spinlock \<Rightarrow> bool" where
  "holding me lk \<longleftrightarrow> locked lk \<noteq> 0 \<and> lk_cpu lk = Some me"

text \<open>A CPU that has to spin is \<open>Blocked\<close>; the steps of the spinning are below.\<close>

definition acquire :: "nat \<Rightarrow> cpu \<times> spinlock \<Rightarrow> (cpu \<times> spinlock) res" where
  "acquire me = (\<lambda>(c, lk).
     let c = push_off c
     in if holding me lk then Panic ''acquire''
        else if locked lk \<noteq> 0 then Blocked
        else Ret (c, lk\<lparr>locked := 1, lk_cpu := Some me\<rparr>))"

definition release :: "nat \<Rightarrow> cpu \<times> spinlock \<Rightarrow> (cpu \<times> spinlock) res" where
  "release me = (\<lambda>(c, lk).
     if \<not> holding me lk then Panic ''release''
     else let lk = lk\<lparr>lk_cpu := None\<rparr>; lk = lk\<lparr>locked := 0\<rparr>
          in seq (pop_off c) (\<lambda>c. Ret (c, lk)))"

section \<open>CPUs contending for a lock\<close>

datatype lock_pc = Outside | Spinning | Swapped | Inside | Clearing | Popping | Panicked

record machine =
  m_cpus :: "nat \<Rightarrow> cpu"
  m_pc :: "nat \<Rightarrow> lock_pc"
  m_lock :: spinlock

inductive lock_step :: "machine \<Rightarrow> machine \<Rightarrow> bool" where
  toggle: "m_pc m c = Outside \<Longrightarrow>
    lock_step m (m\<lparr>m_cpus := (m_cpus m)(c := (m_cpus m c)\<lparr>sie := b\<rparr>)\<rparr>)"
| enter: "m_pc m c = Outside \<Longrightarrow>
    lock_step m (m\<lparr>m_cpus := (m_cpus m)(c := push_off (m_cpus m c)),
                   m_pc := (m_pc m)(c := if holding c (m_lock m) then Panicked else Spinning)\<rparr>)"
| spin: "m_pc m c = Spinning \<Longrightarrow> locked (m_lock m) \<noteq> 0 \<Longrightarrow>
    lock_step m (m\<lparr>m_lock := (m_lock m)\<lparr>locked := 1\<rparr>\<rparr>)"
| swap: "m_pc m c = Spinning \<Longrightarrow> locked (m_lock m) = 0 \<Longrightarrow>
    lock_step m (m\<lparr>m_lock := (m_lock m)\<lparr>locked := 1\<rparr>, m_pc := (m_pc m)(c := Swapped)\<rparr>)"
| record_cpu: "m_pc m c = Swapped \<Longrightarrow>
    lock_step m (m\<lparr>m_lock := (m_lock m)\<lparr>lk_cpu := Some c\<rparr>, m_pc := (m_pc m)(c := Inside)\<rparr>)"
| leave: "m_pc m c = Inside \<Longrightarrow>
    lock_step m (if holding c (m_lock m)
      then m\<lparr>m_lock := (m_lock m)\<lparr>lk_cpu := None\<rparr>, m_pc := (m_pc m)(c := Clearing)\<rparr>
      else m\<lparr>m_pc := (m_pc m)(c := Panicked)\<rparr>)"
| clear: "m_pc m c = Clearing \<Longrightarrow>
    lock_step m (m\<lparr>m_lock := (m_lock m)\<lparr>locked := 0\<rparr>, m_pc := (m_pc m)(c := Popping)\<rparr>)"
| pop: "m_pc m c = Popping \<Longrightarrow>
    lock_step m (case pop_off (m_cpus m c) of
        Ret cp \<Rightarrow> m\<lparr>m_cpus := (m_cpus m)(c := cp), m_pc := (m_pc m)(c := Outside)\<rparr>
      | _ \<Rightarrow> m\<lparr>m_pc := (m_pc m)(c := Panicked)\<rparr>)"

inductive lock_reach :: "machine \<Rightarrow> bool" where
  start: "m_lock m = initlock \<Longrightarrow> \<forall>c. m_pc m c = Outside \<and> noff (m_cpus m c) = 0 \<Longrightarrow> lock_reach m"
| step: "lock_reach m \<Longrightarrow> lock_step m m' \<Longrightarrow> lock_reach m'"

section \<open>Sleep locks\<close>

record sleeplock =
  sl_locked :: uint32
  sl_pid :: int

definition initsleeplock :: sleeplock where
  "initsleeplock = \<lparr>sl_locked = 0, sl_pid = 0\<rparr>"

definition acquiresleep :: "int \<Rightarrow> sleeplock \<Rightarrow> sleeplock res" where
  "acquiresleep mypid lk =
     (if sl_locked lk \<noteq> 0 then Blocked else Ret (lk\<lparr>sl_locked := 1, sl_pid := mypid\<rparr>))"

definition releasesleep :: "sleeplock \<Rightarrow> sleeplock" where
  "releasesleep lk = lk\<lparr>sl_locked := 0, sl_pid := 0\<rparr>"

definition holdingsleep :: "int \<Rightarrow> sleeplock \<Rightarrow> bool" where
  "holdingsleep mypid lk \<longleftrightarrow> sl_locked lk \<noteq> 0 \<and> sl_pid lk = mypid"

section \<open>Mutual exclusion\<close>

fun in_crit :: "lock_pc \<Rightarrow> bool" where
  "in_crit Swapped = True" | "in_crit Inside = True" | "in_crit Clearing = True"
| "in_crit Outside = False" | "in_crit Spinning = False" | "in_crit Popping = False"
| "in_crit Panicked = False"

definition crit :: "(nat \<Rightarrow> lock_pc) \<Rightarrow> nat set" where
  "crit f = {c. in_crit (f c)}"

definition lock_inv :: "machine \<Rightarrow> bool" where
  "lock_inv m \<longleftrightarrow>
     (if locked (m_lock m) = 0 then crit (m_pc m) = {} else \<exists>c. crit (m_pc m) = {c}) \<and>
     (\<forall>c. lk_cpu (m_lock m) = Some c \<longleftrightarrow> m_pc m c = Inside) \<and>
     (\<forall>c. m_pc m c \<noteq> Panicked) \<and>
     (\<forall>c. noff (m_cpus m c) = (if m_pc m c = Outside then 0 else 1)) \<and>
     (\<forall>c. m_pc m c \<noteq> Outside \<longrightarrow> \<not> sie (m_cpus m c))"

lemma crit_upd [simp]: "crit (f(c := p)) = (if in_crit p then insert c (crit f) else crit f - {c})"
  by (auto simp: crit_def)

lemma crit_iff: "c \<in> crit f \<longleftrightarrow> in_crit (f c)"
  by (simp add: crit_def)

lemma lock_inv_crit:
  assumes "lock_inv m" "in_crit (m_pc m c)"
  shows "crit (m_pc m) = {c}" "locked (m_lock m) \<noteq> 0"
proof -
  have "c \<in> crit (m_pc m)" using assms(2) by (simp add: crit_iff)
  then show "crit (m_pc m) = {c}" "locked (m_lock m) \<noteq> 0"
    using assms(1) by (auto simp: lock_inv_def split: if_splits)
qed

lemma lock_inv_alone:
  assumes "lock_inv m" "in_crit (m_pc m c)" "d \<noteq> c"
  shows "m_pc m d \<noteq> Inside"
proof
  assume "m_pc m d = Inside"
  then have "d \<in> crit (m_pc m)" by (simp add: crit_iff)
  then show False using lock_inv_crit(1) [OF assms(1,2)] assms(3) by simp
qed

lemma noff_push_off [simp]: "noff (push_off c) = noff c + 1" "\<not> sie (push_off c)"
  by (simp_all add: push_off_def Let_def)

lemma pop_off_Ret:
  "\<not> sie c \<Longrightarrow> noff c = 1 \<Longrightarrow> pop_off c = Ret (c\<lparr>noff := 0, sie := intena c\<rparr>)"
  by (cases c) (simp add: pop_off_def Let_def)

lemma lock_inv_step: "lock_step m m' \<Longrightarrow> lock_inv m \<Longrightarrow> lock_inv m'"
proof (induction rule: lock_step.induct)
  case (enter m c)
  then have "\<not> holding c (m_lock m)" "c \<notin> crit (m_pc m)"
    by (auto simp: lock_inv_def holding_def crit_iff)
  with enter show ?case by (simp add: lock_inv_def)
next
  case (swap m c)
  then have no: "crit (m_pc m) = {}" by (simp add: lock_inv_def)
  then have "m_pc m d \<noteq> Inside" for d using crit_iff [of d "m_pc m"] by auto
  with swap no show ?case by (simp add: lock_inv_def)
next
  case (record_cpu m c)
  then have "in_crit (m_pc m c)" by simp
  note one = lock_inv_crit [OF record_cpu(2) this]
  have "m_pc m d \<noteq> Inside" if "d \<noteq> c" for d by (rule lock_inv_alone [OF record_cpu(2) \<open>in_crit _\<close> that])
  with record_cpu one show ?case by (simp add: lock_inv_def)
next
  case (leave m c)
  then have "in_crit (m_pc m c)" by simp
  note one = lock_inv_crit [OF leave(2) this]
  have "m_pc m d \<noteq> Inside" if "d \<noteq> c" for d by (rule lock_inv_alone [OF leave(2) \<open>in_crit _\<close> that])
  moreover have "holding c (m_lock m)" using leave one by (simp add: lock_inv_def holding_def)
  ultimately show ?case using leave one by (simp add: lock_inv_def)
next
  case (clear m c)
  then have "in_crit (m_pc m c)" by simp
  note one = lock_inv_crit [OF clear(2) this]
  with clear show ?case by (simp add: lock_inv_def)
next
  case (pop m c)
  then have "pop_off (m_cpus m c) = Ret ((m_cpus m c)\<lparr>noff := 0, sie := intena (m_cpus m c)\<rparr>)"
    "c \<notin> crit (m_pc m)"
    by (auto simp: lock_inv_def crit_iff intro!: pop_off_Ret)
  with pop show ?case by (auto simp: lock_inv_def)
qed (auto simp: lock_inv_def)

lemma lock_inv_reach: "lock_reach m \<Longrightarrow> lock_inv m"
proof (induction rule: lock_reach.induct)
  case (start m)
  then show ?case by (auto simp: lock_inv_def initlock_def crit_def)
qed (rule lock_inv_step)

text \<open>C7. In every state that any number of CPUs can reach by any interleaving of \<open>acquire\<close> and
  \<open>release\<close> on a lock, at most one CPU is between the swap that takes the lock and the store
  that frees it, none has panicked, \<open>holding\<close> is true exactly on the CPU inside, and
  interrupts are off on every CPU that is acquiring, holding or releasing it.\<close>

theorem spinlock_mutual_exclusion:
  assumes "lock_reach m"
  shows "(in_crit (m_pc m c) \<and> in_crit (m_pc m d) \<longrightarrow> c = d) \<and> m_pc m c \<noteq> Panicked \<and>
    (holding c (m_lock m) \<longleftrightarrow> m_pc m c = Inside) \<and> (m_pc m c \<noteq> Outside \<longrightarrow> \<not> sie (m_cpus m c))"
proof -
  have inv: "lock_inv m" using assms by (rule lock_inv_reach)
  have "c = d" if "in_crit (m_pc m c)" "in_crit (m_pc m d)"
    using lock_inv_crit(1) [OF inv that(1)] lock_inv_crit(1) [OF inv that(2)] by simp
  moreover have "holding c (m_lock m) \<longleftrightarrow> m_pc m c = Inside"
    using inv lock_inv_crit(2) [OF inv, of c] by (auto simp: lock_inv_def holding_def)
  ultimately show ?thesis using inv by (simp add: lock_inv_def)
qed

theorem spinlock_mutual_exclusion_witness:
  "let m = \<lparr>m_cpus = (\<lambda>_. \<lparr>noff = 0, intena = False, sie = True\<rparr>), m_pc = (\<lambda>_. Outside), m_lock = initlock\<rparr>;
       m = m\<lparr>m_cpus := (m_cpus m)(3 := push_off (m_cpus m 3)), m_pc := (m_pc m)(3 := Spinning)\<rparr>
   in lock_reach m \<and> \<not> sie (m_cpus m 3) \<and> m_pc m 3 \<noteq> Panicked"
proof -
  define m where "m = \<lparr>m_cpus = (\<lambda>_. \<lparr>noff = 0, intena = False, sie = True\<rparr>), m_pc = (\<lambda>_ :: nat. Outside), m_lock = initlock\<rparr>"
  define m' where "m' = m\<lparr>m_cpus := (m_cpus m)(3 := push_off (m_cpus m 3)), m_pc := (m_pc m)(3 := Spinning)\<rparr>"
  have "lock_reach m" by (rule start) (simp_all add: m_def)
  moreover have "\<not> holding 3 (m_lock m)" by (simp add: m_def holding_def initlock_def)
  then have "lock_step m m'" using enter [of m 3] by (simp add: m'_def m_def)
  ultimately have r: "lock_reach m'" by (rule step)
  then have "\<not> sie (m_cpus m' 3) \<and> m_pc m' 3 \<noteq> Panicked"
    using spinlock_mutual_exclusion [OF r, of 3 3] by (simp add: m'_def)
  with r show ?thesis unfolding Let_def m_def [symmetric] m'_def [symmetric] by simp
qed

lemma push_offs: "0 < n \<Longrightarrow> noff c = 0 \<Longrightarrow>
    (push_off ^^ n) c = c\<lparr>noff := int n, intena := sie c, sie := False\<rparr>"
proof (induction n)
  case (Suc n)
  then show ?case by (cases "n = 0"; cases c) (simp_all add: push_off_def Let_def)
qed simp

lemma pop_offs_inner:
  "k < n \<Longrightarrow> pop_offs k (c\<lparr>noff := int n, intena := b, sie := False\<rparr>) =
    Ret (c\<lparr>noff := int (n - k), intena := b, sie := False\<rparr>)"
proof (induction k arbitrary: n)
  case (Suc k)
  then obtain m where "n = Suc m" "k < m" by (cases n) auto
  with Suc.IH [of m] show ?case by (cases c) (simp add: pop_off_def Let_def)
qed simp

lemma pop_offs_Suc: "pop_offs (Suc n) c = seq (pop_offs n c) pop_off"
proof (induction n arbitrary: c)
  case 0
  then show ?case by (cases "pop_off c") simp_all
next
  case (Suc n)
  have "pop_offs (Suc (Suc n)) c = seq (pop_off c) (pop_offs (Suc n))" by (simp only: pop_offs.simps)
  also have "\<dots> = seq (pop_offs (Suc n) c) pop_off" using Suc by (cases "pop_off c") simp_all
  finally show ?case .
qed

text \<open>C39. \<open>push_off\<close> and \<open>pop_off\<close> nest: after \<open>n\<close> calls of \<open>push_off\<close>, fewer than \<open>n\<close> calls of \<open>pop_off\<close>
  leave interrupts off, and \<open>n\<close> calls restore the state they had before; none of them panics.\<close>

theorem push_pop_nest:
  assumes "noff c = 0" "0 < n"
  shows "(\<forall>k < n. \<exists>c'. pop_offs k ((push_off ^^ n) c) = Ret c' \<and> \<not> sie c') \<and>
    pop_offs n ((push_off ^^ n) c) = Ret (c\<lparr>intena := sie c\<rparr>)"
proof -
  obtain m where n: "n = Suc m" using assms(2) by (cases n) auto
  have push: "(push_off ^^ n) c = c\<lparr>noff := int n, intena := sie c, sie := False\<rparr>"
    using assms by (intro push_offs)
  have "pop_offs n ((push_off ^^ n) c) = Ret (c\<lparr>intena := sie c\<rparr>)"
    unfolding push unfolding n pop_offs_Suc using pop_offs_inner [where k = m and n = "Suc m" and c = c] assms(1)
    by (cases c) (auto simp: pop_off_def Let_def)
  then show ?thesis unfolding push using pop_offs_inner [where n = n and c = c] by simp
qed

theorem push_pop_nest_witness:
  "pop_offs 2 ((push_off ^^ 2) \<lparr>noff = 0, intena = False, sie = True\<rparr>) =
     Ret \<lparr>noff = 0, intena = True, sie = True\<rparr>"
  using push_pop_nest [of "\<lparr>noff = 0, intena = False, sie = True\<rparr>" 2] by simp

end
