(* ===== verification/Bio.thy ===== *)
theory Bio
  imports Locks
begin

text \<open>
  \<^verbatim>\<open>kernel/bio.c\<close>: the cache of thirty disk blocks. Buffers are numbered, number \<open>HEAD\<close> is
  \<open>bcache.head\<close>, and \<open>prev\<close>/\<open>next\<close> are numbers, so the least-recently-used list is the
  doubly linked ring of the source. The disk is its contents; \<open>virtio_disk_rw\<close> transfers one
  block, its request queue is in theory \<open>Virtio\<close>. Every write to the disk is also appended
  to \<open>dtrace\<close>, which no operation reads. What \<open>bcache.lock\<close> protects is one step; a
  buffer's sleep lock is part of the state, and waiting for it is \<open>Blocked\<close>.
\<close>

section \<open>State\<close>

type_synonym block = "uint8 list"

definition BSIZE :: nat where "BSIZE = 1024"
definition NBUF :: nat where "NBUF = 30"
definition ROOTDEV :: uint32 where "ROOTDEV = 1"

abbreviation HEAD :: nat where "HEAD \<equiv> NBUF"

record buf =
  b_valid :: bool
  b_dev :: uint32
  b_blockno :: uint32
  b_lock :: sleeplock
  b_refcnt :: uint32
  b_prev :: nat
  b_next :: nat
  b_data :: block

record bstate =
  bufs :: "nat \<Rightarrow> buf"
  blk :: "uint32 \<Rightarrow> block"
  dtrace :: "(uint32 \<times> block) list"
  mypid :: int

definition upd_buf :: "nat \<Rightarrow> (buf \<Rightarrow> buf) \<Rightarrow> 'a bstate_scheme \<Rightarrow> 'a bstate_scheme" where
  "upd_buf b f s = s\<lparr>bufs := (bufs s)(b := f (bufs s b))\<rparr>"

section \<open>Operations\<close>

definition virtio_disk_rw :: "nat \<Rightarrow> bool \<Rightarrow> 'a bstate_scheme \<Rightarrow> 'a bstate_scheme" where
  "virtio_disk_rw b write s =
     (let blockno = b_blockno (bufs s b); dat = b_data (bufs s b)
      in if write
         then s\<lparr>blk := (blk s)(blockno := dat), dtrace := dtrace s @ [(blockno, dat)]\<rparr>
         else upd_buf b (b_data_update (\<lambda>_. blk s blockno)) s)"

definition lru_insert :: "nat \<Rightarrow> 'a bstate_scheme \<Rightarrow> 'a bstate_scheme" where
  "lru_insert b s =
     (let s = upd_buf b (b_next_update (\<lambda>_. b_next (bufs s HEAD))) s;
          s = upd_buf b (b_prev_update (\<lambda>_. HEAD)) s;
          s = upd_buf (b_next (bufs s HEAD)) (b_prev_update (\<lambda>_. b)) s
      in upd_buf HEAD (b_next_update (\<lambda>_. b)) s)"

definition lru_remove :: "nat \<Rightarrow> 'a bstate_scheme \<Rightarrow> 'a bstate_scheme" where
  "lru_remove b s =
     (let s = upd_buf (b_next (bufs s b)) (b_prev_update (\<lambda>_. b_prev (bufs s b))) s
      in upd_buf (b_prev (bufs s b)) (b_next_update (\<lambda>_. b_next (bufs s b))) s)"

definition binit :: "'a bstate_scheme \<Rightarrow> 'a bstate_scheme" where
  "binit s =
     (let s = upd_buf HEAD (b_prev_update (\<lambda>_. HEAD)) s;
          s = upd_buf HEAD (b_next_update (\<lambda>_. HEAD)) s
      in fold (\<lambda>b s. lru_insert b (upd_buf b (b_lock_update (\<lambda>_. initsleeplock)) s)) [0..<NBUF] s)"

text \<open>The two searches of \<open>bget\<close>, along \<open>next\<close> and along \<open>prev\<close>, end at the head.\<close>

partial_function (option) scan :: "(nat \<Rightarrow> nat) \<Rightarrow> (nat \<Rightarrow> bool) \<Rightarrow> nat \<Rightarrow> nat option option" where
  "scan step P b =
     (if b = HEAD then Some None else if P b then Some (Some b) else scan step P (step b))"

definition lock_buf :: "nat \<Rightarrow> 'a bstate_scheme \<Rightarrow> 'a bstate_scheme res" where
  "lock_buf b s =
     seq (acquiresleep (mypid s) (b_lock (bufs s b))) (\<lambda>lk. Ret (upd_buf b (b_lock_update (\<lambda>_. lk)) s))"

definition bget :: "uint32 \<Rightarrow> uint32 \<Rightarrow> 'a bstate_scheme \<Rightarrow> (nat \<times> 'a bstate_scheme) res" where
  "bget dev blockno s =
     (case scan (\<lambda>b. b_next (bufs s b))
             (\<lambda>b. b_dev (bufs s b) = dev \<and> b_blockno (bufs s b) = blockno) (b_next (bufs s HEAD)) of
        None \<Rightarrow> Blocked
      | Some (Some b) \<Rightarrow>
          seq (lock_buf b (upd_buf b (b_refcnt_update (\<lambda>n. n + 1)) s)) (\<lambda>s. Ret (b, s))
      | Some None \<Rightarrow>
          (case scan (\<lambda>b. b_prev (bufs s b)) (\<lambda>b. b_refcnt (bufs s b) = 0) (b_prev (bufs s HEAD)) of
             None \<Rightarrow> Blocked
           | Some (Some b) \<Rightarrow>
               seq (lock_buf b (upd_buf b (\<lambda>x. x\<lparr>b_dev := dev, b_blockno := blockno,
                      b_valid := False, b_refcnt := 1\<rparr>) s)) (\<lambda>s. Ret (b, s))
           | Some None \<Rightarrow> Panic ''bget: no buffers''))"

definition bread :: "uint32 \<Rightarrow> uint32 \<Rightarrow> 'a bstate_scheme \<Rightarrow> (nat \<times> 'a bstate_scheme) res" where
  "bread dev blockno s =
     seq (bget dev blockno s) (\<lambda>(b, s).
       if \<not> b_valid (bufs s b)
       then let s = virtio_disk_rw b False s in Ret (b, upd_buf b (b_valid_update (\<lambda>_. True)) s)
       else Ret (b, s))"

definition bwrite :: "nat \<Rightarrow> 'a bstate_scheme \<Rightarrow> 'a bstate_scheme res" where
  "bwrite b s =
     (if \<not> holdingsleep (mypid s) (b_lock (bufs s b)) then Panic ''bwrite''
      else Ret (virtio_disk_rw b True s))"

definition brelse :: "nat \<Rightarrow> 'a bstate_scheme \<Rightarrow> 'a bstate_scheme res" where
  "brelse b s =
     (if \<not> holdingsleep (mypid s) (b_lock (bufs s b)) then Panic ''brelse''
      else let s = upd_buf b (b_lock_update releasesleep) s;
               s = upd_buf b (b_refcnt_update (\<lambda>n. n - 1)) s
           in Ret (if b_refcnt (bufs s b) = 0 then lru_insert b (lru_remove b s) else s))"

definition bpin :: "nat \<Rightarrow> 'a bstate_scheme \<Rightarrow> 'a bstate_scheme" where
  "bpin b s = upd_buf b (b_refcnt_update (\<lambda>n. n + 1)) s"

definition bunpin :: "nat \<Rightarrow> 'a bstate_scheme \<Rightarrow> 'a bstate_scheme" where
  "bunpin b s = upd_buf b (b_refcnt_update (\<lambda>n. n - 1)) s"

text \<open>A store through \<open>b->data\<close> by the holder of the buffer.\<close>

definition set_data :: "nat \<Rightarrow> block \<Rightarrow> 'a bstate_scheme \<Rightarrow> 'a bstate_scheme" where
  "set_data b dat s = upd_buf b (b_data_update (\<lambda>_. dat)) s"

section \<open>The ring\<close>

text \<open>\<open>chain nx pv xs\<close>: consecutive elements of \<open>xs\<close> are linked both ways.\<close>

fun chain :: "(nat \<Rightarrow> nat) \<Rightarrow> (nat \<Rightarrow> nat) \<Rightarrow> nat list \<Rightarrow> bool" where
  "chain nx pv (x # y # zs) \<longleftrightarrow> nx x = y \<and> pv y = x \<and> chain nx pv (y # zs)"
| "chain nx pv _ \<longleftrightarrow> True"

definition ring :: "'a bstate_scheme \<Rightarrow> nat list \<Rightarrow> bool" where
  "ring s xs \<longleftrightarrow>
     distinct xs \<and> HEAD \<notin> set xs \<and>
     chain (\<lambda>b. b_next (bufs s b)) (\<lambda>b. b_prev (bufs s b)) (HEAD # xs @ [HEAD])"

lemma chain_split: "chain nx pv (xs @ y # zs) \<longleftrightarrow> chain nx pv (xs @ [y]) \<and> chain nx pv (y # zs)"
proof (induction xs)
  case (Cons x xs)
  then show ?case by (cases xs) auto
qed simp

lemma chain_cong:
  "(\<And>x. x \<in> set (butlast xs) \<Longrightarrow> nx x = nx' x) \<Longrightarrow> (\<And>x. x \<in> set (tl xs) \<Longrightarrow> pv x = pv' x) \<Longrightarrow>
   chain nx pv xs = chain nx' pv' xs"
  by (induction xs rule: chain.induct [of _ nx pv]) auto

lemma chain_rev: "chain nx pv xs = chain pv nx (rev xs)"
proof (induction xs rule: chain.induct [of _ nx pv])
  case (1 nx pv x y zs)
  have "chain pv nx (rev (x # y # zs)) = chain pv nx (rev zs @ y # [x])" by simp
  also have "\<dots> \<longleftrightarrow> chain pv nx (rev zs @ [y]) \<and> chain pv nx [y, x]" by (rule chain_split)
  finally show ?case using 1 by auto
qed simp_all

lemma chain_scan:
  "chain nx pv (xs @ [HEAD]) \<Longrightarrow> HEAD \<notin> set xs \<Longrightarrow>
   scan nx P (hd (xs @ [HEAD])) = Some (find P xs)"
proof (induction xs)
  case Nil
  then show ?case by (simp add: scan.simps)
next
  case (Cons x xs)
  then have "nx x = hd (xs @ [HEAD])" "chain nx pv (xs @ [HEAD])" by (cases xs; simp)+
  with Cons show ?case by (simp add: scan.simps [of nx P x])
qed

lemma chain_hd: "chain nx pv (x # zs) \<Longrightarrow> zs \<noteq> [] \<Longrightarrow> nx x = hd zs \<and> pv (hd zs) = x \<and> chain nx pv zs"
  by (cases zs) auto

abbreviation nxt :: "'a bstate_scheme \<Rightarrow> nat \<Rightarrow> nat" where "nxt s \<equiv> \<lambda>b. b_next (bufs s b)"
abbreviation prv :: "'a bstate_scheme \<Rightarrow> nat \<Rightarrow> nat" where "prv s \<equiv> \<lambda>b. b_prev (bufs s b)"

lemma ring_scan:
  assumes "ring s xs"
  shows "scan (nxt s) P (nxt s HEAD) = Some (find P xs)"
    "scan (prv s) P (prv s HEAD) = Some (find P (rev xs))"
proof -
  have c: "chain (nxt s) (prv s) (HEAD # xs @ [HEAD])" and h: "HEAD \<notin> set xs"
    using assms by (auto simp: ring_def)
  from chain_hd [OF c] have "nxt s HEAD = hd (xs @ [HEAD])" "chain (nxt s) (prv s) (xs @ [HEAD])" by auto
  then show "scan (nxt s) P (nxt s HEAD) = Some (find P xs)" using chain_scan h by simp
  from c have r: "chain (prv s) (nxt s) (HEAD # rev xs @ [HEAD])"
    using chain_rev [of "nxt s" "prv s" "HEAD # xs @ [HEAD]"] by simp
  from chain_hd [OF r] have "prv s HEAD = hd (rev xs @ [HEAD])" "chain (prv s) (nxt s) (rev xs @ [HEAD])" by auto
  then show "scan (prv s) P (prv s HEAD) = Some (find P (rev xs))"
    using chain_scan [of "prv s" "nxt s" "rev xs" P] h by simp
qed

lemma chain_insert:
  assumes c: "chain nx pv (h # xs @ [h])" and d: "distinct xs" "h \<notin> set xs" "b \<notin> set xs" "b \<noteq> h"
  shows "chain ((nx(b := nx h))(h := b)) ((pv(b := h))(nx h := b)) (h # b # xs @ [h])"
    (is "chain ?nx ?pv _")
proof -
  obtain y ys where y: "xs @ [h] = y # ys" by (cases xs) auto
  have hy: "nx h = y" and ch: "chain nx pv (y # ys)" using c y by auto
  have dy: "distinct (y # ys)" unfolding y [symmetric] using d by simp
  have bl: "butlast (y # ys) = xs" unfolding y [symmetric] by simp
  have "set (y # ys) = insert h (set xs)" unfolding y [symmetric] by simp
  then have ny: "b \<notin> set (y # ys)" using d by simp
  have "chain nx pv (y # ys) = chain ?nx ?pv (y # ys)"
  proof (rule chain_cong)
    fix x assume "x \<in> set (butlast (y # ys))"
    then show "nx x = ?nx x" using bl d by auto
  next
    fix x assume "x \<in> set (tl (y # ys))"
    then show "pv x = ?pv x" using dy ny hy by auto
  qed
  then have "chain ?nx ?pv (h # b # y # ys)" using ch ny d hy by simp
  then show ?thesis using y by simp
qed

lemma chain_delete:
  assumes c: "chain nx pv (h # xs @ b # ys @ [h])" and d: "distinct (xs @ b # ys)" "h \<notin> set (xs @ b # ys)"
  shows "chain (nx(pv b := nx b)) (pv(nx b := pv b)) (h # xs @ ys @ [h]) \<and> nx b \<noteq> b \<and> pv b \<noteq> b"
    (is "chain ?nx ?pv _ \<and> _")
proof -
  obtain us p where p: "h # xs = us @ [p]" using rev_exhaust [of "h # xs"] by blast
  obtain n vs where n: "ys @ [h] = n # vs" by (cases ys) auto
  have "h # xs @ b # ys @ [h] = (us @ [p]) @ b # n # vs" unfolding p [symmetric] n [symmetric] by simp
  with c have "chain nx pv ((us @ [p]) @ b # n # vs)" by (simp only:)
  then have "chain nx pv (us @ p # b # n # vs)" by (simp only: append_assoc append_Cons append_Nil)
  then have us: "chain nx pv (us @ [p])" and nb: "nx p = b" "pv b = p" "nx b = n" "pv n = b"
    and vs: "chain nx pv (n # vs)"
    using chain_split [of nx pv us p "b # n # vs"] by simp_all
  have sets: "set (us @ [p]) = insert h (set xs)" "set (n # vs) = insert h (set ys)"
    "butlast (n # vs) = ys" "tl (us @ [p]) = xs"
    unfolding p [symmetric] n [symmetric] by (simp_all add: butlast_append)
  have dist: "distinct (us @ [p])" "distinct (n # vs)"
    unfolding p [symmetric] n [symmetric] using d by auto
  have ne: "p \<notin> set us" "n \<notin> set vs" using dist by auto
  have "p \<in> insert h (set xs)" "n \<in> insert h (set ys)" using sets(1,2) by auto
  then have nb': "n \<notin> set xs" "p \<notin> set ys" "n \<noteq> b" "p \<noteq> b" using d by auto
  have "chain nx pv (us @ [p]) = chain ?nx ?pv (us @ [p])"
  proof (rule chain_cong)
    fix x assume "x \<in> set (butlast (us @ [p]))"
    then show "nx x = ?nx x" using ne nb by auto
  next
    fix x assume "x \<in> set (tl (us @ [p]))"
    then show "pv x = ?pv x" using sets(4) nb nb' by auto
  qed
  moreover have "chain nx pv (n # vs) = chain ?nx ?pv (n # vs)"
  proof (rule chain_cong)
    fix x assume "x \<in> set (butlast (n # vs))"
    then show "nx x = ?nx x" using sets(3) nb nb' by auto
  next
    fix x assume "x \<in> set (tl (n # vs))"
    then show "pv x = ?pv x" using ne nb by auto
  qed
  ultimately have "chain ?nx ?pv (us @ [p])" "chain ?nx ?pv (n # vs)" using us vs by auto
  then have "chain ?nx ?pv (us @ p # n # vs)"
    using nb chain_split [of ?nx ?pv us p "n # vs"] by simp
  moreover have "h # xs @ ys @ [h] = us @ p # n # vs" using p n by simp
  ultimately show ?thesis using nb nb' by simp
qed

section \<open>The cache invariant and what a client sees\<close>

lemma upd_buf_simps [simp]:
  "bufs (upd_buf b f s) = (bufs s)(b := f (bufs s b))"
  "blk (upd_buf b f s) = blk s" "dtrace (upd_buf b f s) = dtrace s" "mypid (upd_buf b f s) = mypid s"
  "bstate.more (upd_buf b f s) = bstate.more s"
  by (simp_all add: upd_buf_def)

definition cached :: "'a bstate_scheme \<Rightarrow> uint32 \<Rightarrow> nat \<Rightarrow> bool" where
  "cached s n b \<longleftrightarrow> b < NBUF \<and> b_dev (bufs s b) = ROOTDEV \<and> b_blockno (bufs s b) = n"

text \<open>The contents of a block as the holder of its buffer sees it.\<close>

definition view :: "'a bstate_scheme \<Rightarrow> uint32 \<Rightarrow> block" where
  "view s n =
     (case find (\<lambda>b. cached s n b \<and> b_valid (bufs s b)) [0..<NBUF] of
        Some b \<Rightarrow> b_data (bufs s b)
      | None \<Rightarrow> blk s n)"

definition buf_ok :: "'a bstate_scheme \<Rightarrow> nat \<Rightarrow> bool" where
  "buf_ok s b \<longleftrightarrow>
     length (b_data (bufs s b)) = BSIZE \<and>
     (b_valid (bufs s b) \<longrightarrow> b_dev (bufs s b) = ROOTDEV) \<and>
     (sl_locked (b_lock (bufs s b)) \<noteq> 0 \<longrightarrow> b_refcnt (bufs s b) \<noteq> 0) \<and>
     (b_refcnt (bufs s b) = 0 \<and> b_valid (bufs s b) \<longrightarrow>
        b_data (bufs s b) = blk s (b_blockno (bufs s b)))"

definition cache_uniq :: "'a bstate_scheme \<Rightarrow> bool" where
  "cache_uniq s \<longleftrightarrow> (\<forall>n b c. cached s n b \<and> cached s n c \<longrightarrow> b = c)"

definition cache_ok :: "'a bstate_scheme \<Rightarrow> nat list \<Rightarrow> bool" where
  "cache_ok s xs \<longleftrightarrow>
     ring s xs \<and> set xs = {0..<NBUF} \<and> (\<forall>b<NBUF. buf_ok s b) \<and>
     (\<forall>n. length (blk s n) = BSIZE) \<and>
     cache_uniq s"

lemma find_unique:
  "P b \<Longrightarrow> b \<in> set xs \<Longrightarrow> (\<And>c. c \<in> set xs \<Longrightarrow> P c \<Longrightarrow> c = b) \<Longrightarrow> find P xs = Some b"
proof (induction xs)
  case (Cons x xs)
  show ?case
  proof (cases "P x")
    case True
    then have "x = b" using Cons.prems(3) [of x] by simp
    then show ?thesis using True by simp
  next
    case False
    then have "b \<in> set xs" using Cons.prems(1,2) by auto
    from Cons.IH [OF Cons.prems(1) this Cons.prems(3)] have "find P xs = Some b" by simp
    then show ?thesis using False by simp
  qed
qed simp

lemma find_SomeD: "find P xs = Some x \<Longrightarrow> P x \<and> x \<in> set xs"
  by (induction xs) (auto split: if_splits)

lemma find_cong_set: "(\<And>x. x \<in> set xs \<Longrightarrow> P x = Q x) \<Longrightarrow> find P xs = find Q xs"
  by (induction xs) auto

lemma view_cached:
  "cache_ok s xs \<Longrightarrow> cached s n b \<Longrightarrow> view s n = (if b_valid (bufs s b) then b_data (bufs s b) else blk s n)"
proof -
  assume ok: "cache_ok s xs" and c: "cached s n b"
  then have u: "cached s n x \<Longrightarrow> x = b" for x unfolding cache_ok_def cache_uniq_def by blast
  show ?thesis
  proof (cases "b_valid (bufs s b)")
    case True
    have "find (\<lambda>b. cached s n b \<and> b_valid (bufs s b)) [0..<NBUF] = Some b"
    proof (rule find_unique)
      show "cached s n b \<and> b_valid (bufs s b)" "b \<in> set [0..<NBUF]" using c True by (auto simp: cached_def)
    qed (use u in blast)
    then show ?thesis using True by (simp add: view_def)
  next
    case False
    then have "find (\<lambda>b. cached s n b \<and> b_valid (bufs s b)) [0..<NBUF] = None"
      using u unfolding find_None_iff by blast
    then show ?thesis using False by (simp add: view_def)
  qed
qed

lemma view_uncached: "(\<And>b. \<not> cached s n b) \<Longrightarrow> view s n = blk s n"
  by (simp add: view_def find_None_iff option.case_eq_if)

lemma view_cases:
  assumes "cache_ok s xs"
  obtains b where "cached s n b" "view s n = (if b_valid (bufs s b) then b_data (bufs s b) else blk s n)"
  | "\<And>b. \<not> cached s n b" "view s n = blk s n"
  using view_cached [OF assms] view_uncached [of s n] by blast

lemma view_length: "cache_ok s xs \<Longrightarrow> length (view s n) = BSIZE"
  by (rule view_cases [of s xs n]) (auto simp: cache_ok_def buf_ok_def cached_def)

lemma ring_cong:
  "(\<And>b. b_next (bufs s' b) = b_next (bufs s b)) \<Longrightarrow> (\<And>b. b_prev (bufs s' b) = b_prev (bufs s b)) \<Longrightarrow>
   ring s' xs = ring s xs"
  by (simp add: ring_def)

lemma cached_upd [simp]:
  "cached (upd_buf b f s) n c \<longleftrightarrow>
     (if c = b then b < NBUF \<and> b_dev (f (bufs s b)) = ROOTDEV \<and> b_blockno (f (bufs s b)) = n else cached s n c)"
  by (simp add: cached_def)

lemma buf_ok_other [simp]: "c \<noteq> b \<Longrightarrow> buf_ok (upd_buf b f s) c = buf_ok s c"
  by (simp add: buf_ok_def)

lemma cache_ok_upd:
  assumes "cache_ok s xs" "buf_ok (upd_buf b f s) b"
    and "b_next (f (bufs s b)) = b_next (bufs s b)" "b_prev (f (bufs s b)) = b_prev (bufs s b)"
    and "\<And>c. c \<noteq> b \<Longrightarrow> b_dev (f (bufs s b)) = ROOTDEV \<Longrightarrow> \<not> cached s (b_blockno (f (bufs s b))) c"
  shows "cache_ok (upd_buf b f s) xs"
proof -
  have "ring (upd_buf b f s) xs" using assms(1,3,4) by (simp add: cache_ok_def ring_cong [of "upd_buf b f s" s])
  moreover have "buf_ok (upd_buf b f s) c" if "c < NBUF" for c
    using that assms(1,2) by (cases "c = b") (auto simp: cache_ok_def)
  moreover have "cache_uniq (upd_buf b f s)" unfolding cache_uniq_def
  proof (intro allI impI, elim conjE)
    fix n c d assume that: "cached (upd_buf b f s) n c" "cached (upd_buf b f s) n d"
    have "\<And>n c d. cached s n c \<Longrightarrow> cached s n d \<Longrightarrow> c = d" using assms(1) unfolding cache_ok_def cache_uniq_def by blast
    moreover have "c = b \<and> b_dev (f (bufs s b)) = ROOTDEV \<and> b_blockno (f (bufs s b)) = n \<or> c \<noteq> b \<and> cached s n c"
      "d = b \<and> b_dev (f (bufs s b)) = ROOTDEV \<and> b_blockno (f (bufs s b)) = n \<or> d \<noteq> b \<and> cached s n d"
      using that by (simp_all split: if_splits)
    ultimately show "c = d" using assms(5) by blast
  qed
  ultimately show ?thesis using assms(1) by (simp add: cache_ok_def)
qed

lemma view_upd:
  assumes ok: "cache_ok s xs" "cache_ok (upd_buf b f s) xs" and b: "b < NBUF"
    and x: "b_valid (f (bufs s b))" "b_dev (f (bufs s b)) = ROOTDEV"
    and old: "cached s (b_blockno (f (bufs s b))) b \<or> b_refcnt (bufs s b) = 0"
  shows "view (upd_buf b f s) = (view s)(b_blockno (f (bufs s b)) := b_data (f (bufs s b)))"
proof
  fix m
  let ?s = "upd_buf b f s" and ?n = "b_blockno (f (bufs s b))"
  show "view ?s m = ((view s)(?n := b_data (f (bufs s b)))) m"
  proof (cases "m = ?n")
    case True
    then have "cached ?s m b" using b x by simp
    from view_cached [OF ok(2) this] show ?thesis using True x by simp
  next
    case False
    show ?thesis
    proof (rule view_cases [OF ok(2), of m])
      fix c assume c: "cached ?s m c" "view ?s m = (if b_valid (bufs ?s c) then b_data (bufs ?s c) else blk ?s m)"
      then have "c \<noteq> b" using False by auto
      then show ?thesis using c False view_cached [OF ok(1), of m c] by simp
    next
      assume n: "\<And>c. \<not> cached ?s m c" and v: "view ?s m = blk ?s m"
      then have nc: "\<And>c. c \<noteq> b \<Longrightarrow> \<not> cached s m c" by (metis cached_upd)
      have "view s m = blk s m"
      proof (cases "cached s m b")
        case True
        then have "b_refcnt (bufs s b) = 0" using False old by (auto simp: cached_def)
        then have "b_valid (bufs s b) \<longrightarrow> b_data (bufs s b) = blk s m"
          using ok(1) b True by (auto simp: cache_ok_def buf_ok_def cached_def)
        then show ?thesis using view_cached [OF ok(1) True] by simp
      qed (use nc view_uncached [of s m] in metis)
      then show ?thesis using v False by simp
    qed
  qed
qed

section \<open>Reading a block\<close>

definition taken :: "'a bstate_scheme \<Rightarrow> uint32 \<Rightarrow> uint32 \<Rightarrow> buf \<Rightarrow> buf" where
  "taken s n r x = x\<lparr>b_valid := True, b_dev := ROOTDEV, b_blockno := n,
     b_lock := \<lparr>sl_locked = 1, sl_pid = mypid s\<rparr>, b_refcnt := r, b_data := view s n\<rparr>"

lemma upd_upd [simp]: "upd_buf b f (upd_buf b g s) = upd_buf b (\<lambda>x. f (g x)) s"
  by (simp add: upd_buf_def)

lemma upd_buf_cong: "f (bufs s b) = g (bufs s b) \<Longrightarrow> upd_buf b f s = upd_buf b g s"
  by (simp add: upd_buf_def)

lemma cache_find:
  assumes "cache_ok s xs"
  shows "cached s n b \<Longrightarrow> find (\<lambda>b. b_dev (bufs s b) = ROOTDEV \<and> b_blockno (bufs s b) = n) xs = Some b"
    and "(\<And>b. \<not> cached s n b) \<Longrightarrow> find (\<lambda>b. b_dev (bufs s b) = ROOTDEV \<and> b_blockno (bufs s b) = n) xs = None"
proof -
  have xs: "set xs = {0..<NBUF}" using assms by (simp add: cache_ok_def)
  have u: "\<And>b c. cached s n b \<Longrightarrow> cached s n c \<Longrightarrow> b = c"
    using assms unfolding cache_ok_def cache_uniq_def by blast
  show "find (\<lambda>b. b_dev (bufs s b) = ROOTDEV \<and> b_blockno (bufs s b) = n) xs = Some b" if "cached s n b"
  proof (rule find_unique)
    fix c assume "c \<in> set xs" "b_dev (bufs s c) = ROOTDEV \<and> b_blockno (bufs s c) = n"
    then have "cached s n c" using xs by (auto simp: cached_def)
    then show "c = b" using u that by blast
  qed (use that xs in \<open>auto simp: cached_def\<close>)
  show "find (\<lambda>b. b_dev (bufs s b) = ROOTDEV \<and> b_blockno (bufs s b) = n) xs = None" if "\<And>b. \<not> cached s n b"
    using that xs by (fastforce simp: find_None_iff cached_def)
qed

lemma bread_hit:
  assumes ok: "cache_ok s xs" and c: "cached s n b" and l: "sl_locked (b_lock (bufs s b)) = 0"
  shows "bread ROOTDEV n s = Ret (b, upd_buf b (taken s n (b_refcnt (bufs s b) + 1)) s)"
proof -
  have r: "ring s xs" using ok by (simp add: cache_ok_def)
  show ?thesis using l c view_cached [OF ok c]
    by (auto simp: bread_def bget_def ring_scan [OF r] cache_find(1) [OF ok c] lock_buf_def acquiresleep_def
        virtio_disk_rw_def taken_def Let_def cached_def intro!: upd_buf_cong)
qed

lemma bread_miss:
  assumes ok: "cache_ok s xs" and c: "\<And>b. \<not> cached s n b"
    and f: "find (\<lambda>b. b_refcnt (bufs s b) = 0) (rev xs) = Some b"
  shows "bread ROOTDEV n s = Ret (b, upd_buf b (taken s n 1) s)"
proof -
  have r: "ring s xs" using ok by (simp add: cache_ok_def)
  have b: "b_refcnt (bufs s b) = 0" "b < NBUF" using find_SomeD [OF f] ok by (auto simp: cache_ok_def)
  then have "sl_locked (b_lock (bufs s b)) = 0" using ok by (auto simp: cache_ok_def buf_ok_def)
  then show ?thesis using view_uncached [of s n] c
    by (auto simp: bread_def bget_def ring_scan [OF r] cache_find(2) [OF ok c] f lock_buf_def acquiresleep_def
        virtio_disk_rw_def taken_def Let_def intro!: upd_buf_cong)
qed

lemma taken_simps [simp]:
  "b_valid (taken s n r x)" "b_dev (taken s n r x) = ROOTDEV" "b_blockno (taken s n r x) = n"
  "b_lock (taken s n r x) = \<lparr>sl_locked = 1, sl_pid = mypid s\<rparr>" "b_refcnt (taken s n r x) = r"
  "b_data (taken s n r x) = view s n" "b_next (taken s n r x) = b_next x" "b_prev (taken s n r x) = b_prev x"
  by (simp_all add: taken_def)

lemma taken_ok:
  assumes ok: "cache_ok s xs" and b: "b < NBUF" and r: "r \<noteq> 0"
    and c: "cached s n b \<or> (\<forall>c. \<not> cached s n c) \<and> b_refcnt (bufs s b) = 0"
  shows "cache_ok (upd_buf b (taken s n r) s) xs" "view (upd_buf b (taken s n r) s) = view s"
proof -
  have "\<not> cached s n c" if "c \<noteq> b" for c
    using c ok that unfolding cache_ok_def cache_uniq_def by blast
  then show ok': "cache_ok (upd_buf b (taken s n r) s) xs"
    using ok r view_length [OF ok] by (intro cache_ok_upd) (auto simp: buf_ok_def)
  show "view (upd_buf b (taken s n r) s) = view s"
    using view_upd [OF ok ok' b] c by (auto simp: cached_def)
qed

section \<open>Releasing a buffer\<close>

definition same_slot :: "buf \<Rightarrow> buf \<Rightarrow> bool" where
  "same_slot x y \<longleftrightarrow> b_valid x = b_valid y \<and> b_dev x = b_dev y \<and> b_blockno x = b_blockno y \<and>
     b_lock x = b_lock y \<and> b_refcnt x = b_refcnt y \<and> b_data x = b_data y"

lemma view_cong:
  assumes "blk s' = blk s" "\<And>c. b_valid (bufs s' c) = b_valid (bufs s c) \<and> b_dev (bufs s' c) = b_dev (bufs s c) \<and>
      b_blockno (bufs s' c) = b_blockno (bufs s c) \<and> b_data (bufs s' c) = b_data (bufs s c)"
  shows "view s' = view s"
  by (intro ext) (simp only: view_def cached_def assms)

lemma same_slot_keeps:
  assumes "\<And>c. same_slot (bufs s' c) (bufs s c)" "blk s' = blk s"
  shows "cached s' = cached s" "view s' = view s" "buf_ok s' = buf_ok s" "cache_uniq s' = cache_uniq s"
proof -
  have eq: "b_valid (bufs s' c) = b_valid (bufs s c)" "b_dev (bufs s' c) = b_dev (bufs s c)"
    "b_blockno (bufs s' c) = b_blockno (bufs s c)" "b_lock (bufs s' c) = b_lock (bufs s c)"
    "b_refcnt (bufs s' c) = b_refcnt (bufs s c)" "b_data (bufs s' c) = b_data (bufs s c)" for c
    using assms(1) [of c] by (auto simp: same_slot_def)
  show c: "cached s' = cached s" by (intro ext) (simp add: cached_def eq)
  show "view s' = view s" by (rule view_cong) (simp_all add: eq assms(2))
  show "buf_ok s' = buf_ok s" by (intro ext) (simp add: buf_ok_def eq assms(2))
  show "cache_uniq s' = cache_uniq s" by (simp add: cache_uniq_def c)
qed

lemma lru_same_slot:
  "same_slot (bufs (lru_insert b s) c) (bufs s c)" "same_slot (bufs (lru_remove b s) c) (bufs s c)"
  by (auto simp: lru_insert_def lru_remove_def same_slot_def Let_def)

lemma lru_other [simp]:
  "blk (lru_insert b s) = blk s" "blk (lru_remove b s) = blk s"
  "dtrace (lru_insert b s) = dtrace s" "dtrace (lru_remove b s) = dtrace s"
  "mypid (lru_insert b s) = mypid s" "mypid (lru_remove b s) = mypid s"
  "bstate.more (lru_insert b s) = bstate.more s" "bstate.more (lru_remove b s) = bstate.more s"
  by (auto simp: lru_insert_def lru_remove_def Let_def)

lemma ring_insert:
  assumes "ring s xs" "b \<notin> set xs" "b \<noteq> HEAD"
  shows "ring (lru_insert b s) (b # xs)"
proof -
  have "nxt (lru_insert b s) = ((nxt s)(b := nxt s HEAD))(HEAD := b)"
    "prv (lru_insert b s) = ((prv s)(b := HEAD))(nxt s HEAD := b)"
    using assms(3) by (auto simp: lru_insert_def Let_def fun_eq_iff)
  then show ?thesis
    using assms chain_insert [of "nxt s" "prv s" HEAD xs b] by (simp add: ring_def)
qed

lemma ring_remove:
  assumes "ring s (us @ b # vs)"
  shows "ring (lru_remove b s) (us @ vs)"
proof -
  have c: "chain ((nxt s)(prv s b := nxt s b)) ((prv s)(nxt s b := prv s b)) (HEAD # us @ vs @ [HEAD])"
    and ne: "nxt s b \<noteq> b" "prv s b \<noteq> b"
    using assms chain_delete [of "nxt s" "prv s" HEAD us b vs] by (auto simp: ring_def)
  have "nxt (lru_remove b s) = (nxt s)(prv s b := nxt s b)"
    "prv (lru_remove b s) = (prv s)(nxt s b := prv s b)"
    using ne by (auto simp: lru_remove_def Let_def fun_eq_iff)
  then show ?thesis using assms c by (simp add: ring_def)
qed

lemma ring_move:
  assumes "ring s xs" "b \<in> set xs"
  shows "ring (lru_insert b (lru_remove b s)) (b # remove1 b xs)"
proof -
  obtain us vs where xs: "xs = us @ b # vs" using assms(2) split_list by metis
  then have d: "b \<notin> set us" "b \<notin> set vs" "b \<noteq> HEAD" using assms(1) by (auto simp: ring_def)
  then show ?thesis using ring_insert [OF ring_remove, of s us b vs b] assms(1) xs by (simp add: remove1_append)
qed

lemma brelse_ok:
  assumes "cache_ok s xs" "b < NBUF" "holdingsleep (mypid s) (b_lock (bufs s b))"
    and "b_refcnt (bufs s b) = 1 \<longrightarrow> b_valid (bufs s b) \<longrightarrow> b_data (bufs s b) = blk s (b_blockno (bufs s b))"
  shows "\<exists>s'. brelse b s = Ret s' \<and>
           cache_ok s' (if b_refcnt (bufs s b) = 1 then b # remove1 b xs else xs) \<and>
           sl_locked (b_lock (bufs s' b)) = 0 \<and> b_refcnt (bufs s' b) = b_refcnt (bufs s b) - 1 \<and>
           view s' = view s \<and> blk s' = blk s \<and> dtrace s' = dtrace s"
proof -
  let ?f = "\<lambda>x. b_refcnt_update (\<lambda>n. n - 1) (b_lock_update releasesleep x)"
  let ?s1 = "upd_buf b ?f s"
  let ?s' = "if b_refcnt (bufs s b) = 1 then lru_insert b (lru_remove b ?s1) else ?s1"
  have eq: "brelse b s = Ret ?s'"
    using assms(3) by (auto simp: brelse_def Let_def)
  have ok1: "cache_ok ?s1 xs"
  proof (rule cache_ok_upd [OF assms(1)])
    show "buf_ok ?s1 b" using assms by (auto simp: cache_ok_def buf_ok_def releasesleep_def)
    show "\<not> cached s (b_blockno (?f (bufs s b))) c" if "c \<noteq> b" "b_dev (?f (bufs s b)) = ROOTDEV" for c
      using assms(1,2) that unfolding cache_ok_def cache_uniq_def by (auto simp: cached_def)
  qed simp_all
  have v1: "view ?s1 = view s"
    by (rule view_cong) simp_all
  have slot: "same_slot (bufs ?s' c) (bufs ?s1 c)" for c
    using lru_same_slot(1) [of b "lru_remove b ?s1" c] lru_same_slot(2) [of b ?s1 c] by (auto simp: same_slot_def)
  have "ring ?s' (if b_refcnt (bufs s b) = 1 then b # remove1 b xs else xs)"
    using ok1 assms(2) by (simp add: cache_ok_def ring_move)
  moreover have "blk ?s' = blk ?s1" by simp
  moreover have "set (b # remove1 b xs) = set xs"
    using ok1 assms(2) by (auto simp: cache_ok_def ring_def)
  ultimately have "cache_ok ?s' (if b_refcnt (bufs s b) = 1 then b # remove1 b xs else xs)"
    using ok1 same_slot_keeps [of ?s' ?s1, OF slot] by (auto simp: cache_ok_def)
  moreover have "view ?s' = view s" using v1 same_slot_keeps(2) [of ?s' ?s1, OF slot] by simp
  moreover have "sl_locked (b_lock (bufs ?s' b)) = 0 \<and> b_refcnt (bufs ?s' b) = b_refcnt (bufs s b) - 1"
    using slot [of b] by (auto simp: same_slot_def releasesleep_def)
  ultimately show ?thesis using eq by simp
qed

section \<open>Initialisation\<close>

lemma ring_binit_step:
  "ring s xs \<Longrightarrow> b \<notin> set xs \<Longrightarrow> b \<noteq> HEAD \<Longrightarrow>
   ring (lru_insert b (upd_buf b (b_lock_update (\<lambda>_. initsleeplock)) s)) (b # xs)"
  by (rule ring_insert) (simp_all add: ring_cong [of "upd_buf b _ s" s])

lemma ring_binit_fold:
  "ring s [] \<Longrightarrow> n \<le> NBUF \<Longrightarrow>
   ring (fold (\<lambda>b s. lru_insert b (upd_buf b (b_lock_update (\<lambda>_. initsleeplock)) s)) [0..<n] s) (rev [0..<n])"
proof (induction n)
  case (Suc n)
  then show ?case using ring_binit_step [of _ "rev [0..<n]" n] by simp
qed simp

lemma binit_slots:
  fixes s :: "'a bstate_scheme"
  assumes "\<And>c. b_lock (bufs s c) = initsleeplock"
  shows "same_slot (bufs (binit s) c) (bufs s c)" "blk (binit s) = blk s"
proof -
  have step: "(\<forall>c. same_slot (bufs (fold (\<lambda>b s. lru_insert b (upd_buf b (b_lock_update (\<lambda>_. initsleeplock)) s)) bs t) c) (bufs s c)) \<and>
      blk (fold (\<lambda>b s. lru_insert b (upd_buf b (b_lock_update (\<lambda>_. initsleeplock)) s)) bs t) = blk t"
    if "\<forall>c. same_slot (bufs t c) (bufs s c)" for bs and t :: "'a bstate_scheme"
    using that
  proof (induction bs arbitrary: t)
    case (Cons b bs)
    have "\<forall>c. same_slot (bufs (lru_insert b (upd_buf b (b_lock_update (\<lambda>_. initsleeplock)) t)) c) (bufs s c)"
    proof
      fix c
      show "same_slot (bufs (lru_insert b (upd_buf b (b_lock_update (\<lambda>_. initsleeplock)) t)) c) (bufs s c)"
        using lru_same_slot(1) [of b "upd_buf b (b_lock_update (\<lambda>_. initsleeplock)) t" c]
          spec [OF Cons.prems, of c] assms [of c] by (auto simp: same_slot_def split: if_splits)
    qed
    then show ?case using Cons.IH by simp
  qed simp
  show "same_slot (bufs (binit s) c) (bufs s c)" "blk (binit s) = blk s"
    unfolding binit_def Let_def using step by (simp_all add: same_slot_def)
qed

lemma binit_ok:
  assumes "\<forall>c. \<not> b_valid (bufs s c) \<and> b_dev (bufs s c) = 0 \<and> b_refcnt (bufs s c) = 0 \<and>
      b_lock (bufs s c) = initsleeplock \<and> length (b_data (bufs s c)) = BSIZE"
    and "\<forall>n. length (blk s n) = BSIZE"
  shows "cache_ok (binit s) (rev [0..<NBUF]) \<and> view (binit s) = blk s"
proof -
  note slots = binit_slots [of s]
  have "ring (binit s) (rev [0..<NBUF])"
    unfolding binit_def Let_def by (rule ring_binit_fold) (simp_all add: ring_def)
  moreover have "buf_ok s b" for b using assms by (auto simp: buf_ok_def initsleeplock_def)
  moreover have nc: "\<not> cached s n b" for n b using assms(1) by (auto simp: cached_def ROOTDEV_def)
  ultimately show ?thesis
    using assms same_slot_keeps [of "binit s" s, OF slots] view_uncached [of s] slots(2)
    by (auto simp: cache_ok_def cache_uniq_def atLeast0LessThan)
qed

definition zero_buf :: buf where
  "zero_buf = \<lparr>b_valid = False, b_dev = 0, b_blockno = 0, b_lock = initsleeplock, b_refcnt = 0,
     b_prev = 0, b_next = 0, b_data = replicate BSIZE 0\<rparr>"

definition boot_cache :: bstate where
  "boot_cache = \<lparr>bufs = (\<lambda>_. zero_buf), blk = (\<lambda>n. replicate BSIZE (ucast n)), dtrace = [], mypid = 1\<rparr>"

lemma boot_binit_ok:
  "cache_ok (binit boot_cache) (rev [0..<NBUF])" "view (binit boot_cache) = blk boot_cache"
  using binit_ok [of boot_cache] by (simp_all add: boot_cache_def zero_buf_def)

lemma boot_binit_slot: "same_slot (bufs (binit boot_cache) c) zero_buf" "blk (binit boot_cache) = blk boot_cache"
  using binit_slots(1) [of boot_cache c] binit_slots(2) [of boot_cache] by (simp_all add: boot_cache_def zero_buf_def)

lemma boot_binit_buf:
  "b_refcnt (bufs (binit boot_cache) c) = 0" "\<not> cached (binit boot_cache) n c"
  using boot_binit_slot(1) [of c] by (simp_all add: same_slot_def zero_buf_def cached_def ROOTDEV_def)

text \<open>
  C40. \<open>binit\<close> on zeroed memory links the thirty buffers into one well-formed
  least-recently-used list, buffer 0 the oldest, and every block reads as the disk has it.
\<close>

theorem binit_cache_ok:
  assumes "\<forall>c. \<not> b_valid (bufs s c) \<and> b_dev (bufs s c) = 0 \<and> b_refcnt (bufs s c) = 0 \<and>
      b_lock (bufs s c) = initsleeplock \<and> length (b_data (bufs s c)) = BSIZE"
    and "\<forall>n. length (blk s n) = BSIZE"
  shows "cache_ok (binit s) (rev [0..<NBUF]) \<and> view (binit s) = blk s"
  using binit_ok [OF assms] .

theorem binit_cache_ok_witness:
  "cache_ok (binit boot_cache) (rev [0..<NBUF]) \<and> view (binit boot_cache) = blk boot_cache"
  by (rule binit_cache_ok) (simp_all add: boot_cache_def zero_buf_def)

text \<open>
  C10. Reading a block: if no other thread holds the block's buffer, and the block is cached
  or some buffer is unreferenced, then \<open>bread\<close> returns a buffer locked by the caller whose
  data is the current contents of the block (the cached copy if there is one, the disk's
  otherwise). No block's contents and nothing on the disk changes, and the cache stays well
  formed. When the block was not cached, the recycled buffer is the least recently used of
  the unreferenced ones.
\<close>

theorem bread_reads_block:
  assumes "cache_ok s xs"
    and "\<forall>b. cached s n b \<longrightarrow> sl_locked (b_lock (bufs s b)) = 0 \<and> b_refcnt (bufs s b) \<noteq> -1"
    and "\<exists>b<NBUF. cached s n b \<or> b_refcnt (bufs s b) = 0"
  shows "\<exists>b s'. bread ROOTDEV n s = Ret (b, s') \<and> cache_ok s' xs \<and>
           cached s' n b \<and> b_valid (bufs s' b) \<and> b_data (bufs s' b) = view s n \<and>
           holdingsleep (mypid s) (b_lock (bufs s' b)) \<and>
           view s' = view s \<and> blk s' = blk s \<and> dtrace s' = dtrace s \<and>
           (cached s n b \<or> Some b = find (\<lambda>b. b_refcnt (bufs s b) = 0) (rev xs))"
proof (cases "\<exists>b. cached s n b")
  case True
  then obtain b where c: "cached s n b" by blast
  then have b: "b < NBUF" "sl_locked (b_lock (bufs s b)) = 0" using assms(2) by (auto simp: cached_def)
  have "b_refcnt (bufs s b) + 1 \<noteq> 0" using assms(2) c by (metis add_eq_0_iff2)
  from taken_ok [OF assms(1) b(1) this] bread_hit [OF assms(1) c b(2)] show ?thesis
    using c b(1) by (auto simp: holdingsleep_def)
next
  case False
  then obtain b0 where "b0 < NBUF" "b_refcnt (bufs s b0) = 0" using assms(3) by blast
  then obtain b where f: "find (\<lambda>b. b_refcnt (bufs s b) = 0) (rev xs) = Some b"
    using assms(1) by (cases "find (\<lambda>b. b_refcnt (bufs s b) = 0) (rev xs)") (auto simp: find_None_iff cache_ok_def)
  then have b: "b < NBUF" "b_refcnt (bufs s b) = 0" using find_SomeD [OF f] assms(1) by (auto simp: cache_ok_def)
  from taken_ok [OF assms(1) b(1), of 1 n] bread_miss [OF assms(1) _ f, of n] show ?thesis
    using False b f by (auto simp: holdingsleep_def)
qed

theorem bread_reads_block_witness:
  "\<exists>b s'. bread ROOTDEV 5 (binit boot_cache) = Ret (b, s') \<and> b_data (bufs s' b) = replicate BSIZE 5"
proof -
  have "\<exists>b<NBUF. cached (binit boot_cache) 5 b \<or> b_refcnt (bufs (binit boot_cache) b) = 0"
    using boot_binit_buf by (intro exI [of _ 0]) (simp add: NBUF_def)
  moreover have "view (binit boot_cache) 5 = replicate BSIZE 5"
    unfolding boot_binit_ok(2) by (simp add: boot_cache_def)
  ultimately show ?thesis
    using bread_reads_block [OF boot_binit_ok(1), of 5] boot_binit_buf by auto
qed

text \<open>
  C26. Releasing a buffer: the holder's \<open>brelse\<close> succeeds, unlocks the buffer and drops one
  reference; the last release moves the buffer to the most-recently-used end of the list and
  leaves the order of the others. No block's contents changes and the cache stays well
  formed. The holder must have written its changes back, or pinned the buffer, first.
\<close>

theorem brelse_releases:
  assumes "cache_ok s xs" "b < NBUF" "holdingsleep (mypid s) (b_lock (bufs s b))"
    and "b_refcnt (bufs s b) = 1 \<longrightarrow> b_valid (bufs s b) \<longrightarrow> b_data (bufs s b) = blk s (b_blockno (bufs s b))"
  shows "\<exists>s'. brelse b s = Ret s' \<and>
           cache_ok s' (if b_refcnt (bufs s b) = 1 then b # remove1 b xs else xs) \<and>
           sl_locked (b_lock (bufs s' b)) = 0 \<and> b_refcnt (bufs s' b) = b_refcnt (bufs s b) - 1 \<and>
           view s' = view s \<and> blk s' = blk s \<and> dtrace s' = dtrace s"
  using brelse_ok [OF assms] .

theorem brelse_releases_witness:
  "\<exists>s'. brelse 0 (upd_buf 0 (taken (binit boot_cache) 5 1) (binit boot_cache)) = Ret s' \<and>
     cache_ok s' (0 # remove1 0 (rev [0..<NBUF])) \<and> view s' 5 = replicate BSIZE 5"
proof -
  let ?s = "upd_buf 0 (taken (binit boot_cache) 5 1) (binit boot_cache)"
  have ok: "cache_ok ?s (rev [0..<NBUF])" and v: "view ?s = view (binit boot_cache)"
    using taken_ok [OF boot_binit_ok(1), of 0 1 5] boot_binit_buf by (auto simp: NBUF_def)
  have "(0::nat) < NBUF" by (simp add: NBUF_def)
  moreover have "view ?s 5 = replicate BSIZE 5" "blk ?s 5 = replicate BSIZE 5"
    unfolding v boot_binit_ok(2) by (simp_all add: boot_binit_slot(2)) (simp_all add: boot_cache_def)
  ultimately show ?thesis
    using brelse_releases [OF ok, of 0] v by (auto simp: holdingsleep_def)
qed

section \<open>A thread's view of the cache\<close>

text \<open>
  \<open>held H P s\<close>: the running thread is the only one using the cache, it holds the buffers
  \<open>H\<close>, and exactly the blocks \<open>P\<close> are pinned (modified and not yet on the disk). The lemmas
  say what each operation does to \<open>H\<close>, \<open>P\<close>, the disk and the contents of the blocks.
\<close>

definition refs :: "nat set \<Rightarrow> uint32 set \<Rightarrow> nat \<Rightarrow> buf \<Rightarrow> uint32" where
  "refs H P b x = (if b \<in> H then 1 else 0) + (if b_dev x = ROOTDEV \<and> b_blockno x \<in> P then 1 else 0)"

definition held :: "nat set \<Rightarrow> uint32 set \<Rightarrow> 'a bstate_scheme \<Rightarrow> bool" where
  "held H P s \<longleftrightarrow>
     (\<exists>xs. cache_ok s xs) \<and> H \<subseteq> {..<NBUF} \<and> finite P \<and>
     (\<forall>b<NBUF. b_refcnt (bufs s b) = refs H P b (bufs s b)) \<and>
     (\<forall>b<NBUF. b \<notin> H \<longrightarrow> sl_locked (b_lock (bufs s b)) = 0) \<and>
     (\<forall>b\<in>H. holdingsleep (mypid s) (b_lock (bufs s b)) \<and> b_valid (bufs s b) \<and> b_dev (bufs s b) = ROOTDEV) \<and>
     (\<forall>n\<in>P. \<exists>b. cached s n b)"

lemma refs_0: "refs H P b x = 0 \<longleftrightarrow> b \<notin> H \<and> \<not> (b_dev x = ROOTDEV \<and> b_blockno x \<in> P)"
  by (simp add: refs_def)

lemma refs_no_wrap: "refs H P b x \<noteq> -1"
  by (simp add: refs_def)

lemma held_cached: "held H P s \<Longrightarrow> b \<in> H \<Longrightarrow> cached s (b_blockno (bufs s b)) b"
  by (auto simp: held_def cached_def)

lemma held_uniq: "held H P s \<Longrightarrow> cached s n b \<Longrightarrow> cached s n c \<Longrightarrow> b = c"
  unfolding held_def cache_ok_def cache_uniq_def by blast

lemma held_view: "held H P s \<Longrightarrow> b \<in> H \<Longrightarrow> view s (b_blockno (bufs s b)) = b_data (bufs s b)"
  using held_cached [of H P s b] view_cached [of s _ "b_blockno (bufs s b)" b] by (auto simp: held_def)

lemma held_length: "held H P s \<Longrightarrow> length (view s n) = BSIZE" "held H P s \<Longrightarrow> length (blk s n) = BSIZE"
  using view_length by (auto simp: held_def cache_ok_def)

lemma held_free_buffer:
  assumes h: "held H P s" and c: "card H + card P < NBUF"
  shows "\<exists>b<NBUF. b_refcnt (bufs s b) = 0"
proof -
  let ?Q = "{b. b < NBUF \<and> b_dev (bufs s b) = ROOTDEV \<and> b_blockno (bufs s b) \<in> P}"
  have fin: "finite H" "finite P" "finite ?Q" using h by (auto simp: held_def finite_subset)
  have "inj_on (\<lambda>b. b_blockno (bufs s b)) ?Q"
    using held_uniq [OF h] by (intro inj_onI) (auto simp: cached_def)
  then have "card ?Q \<le> card P" using fin by (intro card_inj_on_le) auto
  then have "card (H \<union> ?Q) < NBUF" using c card_Un_le [of H ?Q] by simp
  then have "\<not> {..<NBUF} \<subseteq> H \<union> ?Q" using fin card_mono [of "H \<union> ?Q" "{..<NBUF}"] by auto
  then obtain b where "b < NBUF" "b \<notin> H" "b \<notin> ?Q" by blast
  then show ?thesis using h by (intro exI [of _ b]) (auto simp: held_def refs_0)
qed

lemma held_taken:
  assumes h: "held H P s" and b: "b < NBUF" "b \<notin> H"
    and c: "cached s n b \<or> (\<forall>c. \<not> cached s n c) \<and> b_refcnt (bufs s b) = 0"
    and r: "r = (if cached s n b then b_refcnt (bufs s b) + 1 else 1)"
  shows "held (insert b H) P (upd_buf b (taken s n r) s)" "view (upd_buf b (taken s n r) s) = view s"
proof -
  obtain xs where ok: "cache_ok s xs" using h by (auto simp: held_def)
  have rb: "b_refcnt (bufs s b) = refs H P b (bufs s b)" using h b by (simp add: held_def)
  have "r \<noteq> 0" using r rb refs_no_wrap [of H P b "bufs s b"] by (auto simp: add_eq_0_iff2 split: if_splits)
  note t = taken_ok [OF ok b(1) this c]
  have nP: "n \<notin> P" if "\<not> cached s n b" using that c h by (auto simp: held_def)
  have "refs H P b (bufs s b) = (if n \<in> P then 1 else 0)" if "cached s n b"
    using that b(2) by (auto simp: refs_def cached_def)
  then have rr: "r = refs (insert b H) P b (taken s n r (bufs s b))"
    using r rb nP by (auto simp: refs_def)
  have pin: "\<exists>d. cached (upd_buf b (taken s n r) s) m d" if m: "m \<in> P" for m
  proof -
    obtain d where d: "cached s m d" using h m by (auto simp: held_def)
    show ?thesis
    proof (cases "d = b")
      case True
      then have "n = m" using c d m rb b(2) by (auto simp: cached_def refs_0 split: if_splits)
      then show ?thesis using b by (intro exI [of _ b]) simp
    qed (use d in \<open>auto intro!: exI [of _ d]\<close>)
  qed
  show "held (insert b H) P (upd_buf b (taken s n r) s)"
    using h b t(1) rr pin by (auto simp: held_def holdingsleep_def refs_def)
  show "view (upd_buf b (taken s n r) s) = view s" by (rule t(2))
qed

lemma held_bread:
  assumes h: "held H P s" and n: "\<And>b. b \<in> H \<Longrightarrow> b_blockno (bufs s b) \<noteq> n"
    and room: "n \<in> P \<or> card H + card P < NBUF"
  shows "\<exists>b r. bread ROOTDEV n s = Ret (b, upd_buf b (taken s n r) s) \<and> b \<notin> H \<and> b < NBUF \<and>
    held (insert b H) P (upd_buf b (taken s n r) s) \<and> view (upd_buf b (taken s n r) s) = view s"
proof (cases "\<exists>b. cached s n b")
  case True
  obtain xs where ok: "cache_ok s xs" using h by (auto simp: held_def)
  from True obtain b where c: "cached s n b" by blast
  then have b: "b < NBUF" "b \<notin> H" using n by (auto simp: cached_def)
  then have "sl_locked (b_lock (bufs s b)) = 0" using h by (auto simp: held_def)
  from bread_hit [OF ok c this] held_taken [OF h b, of n] show ?thesis using b c by auto
next
  case False
  obtain xs where ok: "cache_ok s xs" using h by (auto simp: held_def)
  have "n \<notin> P" using False h by (auto simp: held_def)
  then obtain b0 where "b0 < NBUF" "b_refcnt (bufs s b0) = 0" using held_free_buffer [OF h] room by blast
  then obtain b where f: "find (\<lambda>b. b_refcnt (bufs s b) = 0) (rev xs) = Some b"
    using ok by (cases "find (\<lambda>b. b_refcnt (bufs s b) = 0) (rev xs)") (auto simp: find_None_iff cache_ok_def)
  then have b: "b < NBUF" "b_refcnt (bufs s b) = 0" using find_SomeD [OF f] ok by (auto simp: cache_ok_def)
  then have "b \<notin> H" using h by (auto simp: held_def refs_0)
  from bread_miss [OF ok _ f, of n] held_taken [OF h b(1) this, of n 1] show ?thesis
    using b False \<open>b \<notin> H\<close> by auto
qed

lemma heldD:
  assumes "held H P s" "b \<in> H"
  shows "b_refcnt (bufs s b) = refs H P b (bufs s b)" "b_dev (bufs s b) = ROOTDEV" "b < NBUF"
    "holdingsleep (mypid s) (b_lock (bufs s b))" "length (b_data (bufs s b)) = BSIZE"
  using assms by (auto simp: held_def cache_ok_def buf_ok_def)

lemma held_upd:
  assumes h: "held H P s" and b: "b \<in> H"
    and f: "b_next (f (bufs s b)) = b_next (bufs s b)" "b_prev (f (bufs s b)) = b_prev (bufs s b)"
      "b_dev (f (bufs s b)) = b_dev (bufs s b)" "b_blockno (f (bufs s b)) = b_blockno (bufs s b)"
      "b_valid (f (bufs s b)) = b_valid (bufs s b)" "b_lock (f (bufs s b)) = b_lock (bufs s b)"
      "length (b_data (f (bufs s b))) = BSIZE" "b_refcnt (f (bufs s b)) = refs H P' b (bufs s b)"
    and P': "finite P'" "\<And>n. n \<noteq> b_blockno (bufs s b) \<Longrightarrow> n \<in> P' \<longleftrightarrow> n \<in> P"
  shows "held H P' (upd_buf b f s)"
    "view (upd_buf b f s) = (view s)(b_blockno (bufs s b) := b_data (f (bufs s b)))"
proof -
  obtain xs where ok: "cache_ok s xs" using h by (auto simp: held_def)
  have bN: "b < NBUF" and c: "cached s (b_blockno (bufs s b)) b" using h b held_cached [OF h b] by (auto simp: held_def)
  have nc: "\<not> cached s (b_blockno (bufs s b)) c" if "c \<noteq> b" for c using held_uniq [OF h c] that by blast
  have "buf_ok (upd_buf b f s) b" using h b f by (auto simp: buf_ok_def held_def refs_0)
  then have ok': "cache_ok (upd_buf b f s) xs" using cache_ok_upd [OF ok] nc f by auto
  have pin: "\<exists>d. cached (upd_buf b f s) m d" if m: "m \<in> P'" for m
  proof (cases "m = b_blockno (bufs s b)")
    case True
    then show ?thesis using c f by (intro exI [of _ b]) (auto simp: cached_def)
  next
    case False
    then obtain d where "cached s m d" using P' m h by (auto simp: held_def)
    then show ?thesis using False by (intro exI [of _ d]) (auto simp: cached_def)
  qed
  have "b_refcnt (bufs s d) = refs H P' d (bufs s d)" if "d < NBUF" "d \<noteq> b" for d
  proof -
    have "b_dev (bufs s d) = ROOTDEV \<Longrightarrow> b_blockno (bufs s d) \<noteq> b_blockno (bufs s b)"
      using nc [of d] that by (auto simp: cached_def)
    then show ?thesis using h that P'(2) by (auto simp: held_def refs_def)
  qed
  moreover have "refs H P' b (f (bufs s b)) = refs H P' b (bufs s b)" using f by (simp add: refs_def)
  ultimately show "held H P' (upd_buf b f s)"
    using h b bN f ok' pin P'(1) by (auto simp: held_def)
  show "view (upd_buf b f s) = (view s)(b_blockno (bufs s b) := b_data (f (bufs s b)))"
    using view_upd [OF ok ok' bN] h b f c by (auto simp: held_def)
qed

lemma held_set_data:
  assumes h: "held H P s" and b: "b \<in> H" and l: "length d = BSIZE"
  shows "held H P (set_data b d s)" "view (set_data b d s) = (view s)(b_blockno (bufs s b) := d)"
  using held_upd [OF h b, of "b_data_update (\<lambda>_. d)" P] heldD [OF h b] l by (simp_all add: set_data_def)

lemma set_data_simps [simp]:
  "blk (set_data b d s) = blk s" "dtrace (set_data b d s) = dtrace s" "mypid (set_data b d s) = mypid s"
  "bstate.more (set_data b d s) = bstate.more s" "b_data (bufs (set_data b d s) b) = d"
  "c \<noteq> b \<Longrightarrow> bufs (set_data b d s) c = bufs s c"
  "b_blockno (bufs (set_data b d s) c) = b_blockno (bufs s c)"
  by (simp_all add: set_data_def)

lemma held_bpin:
  assumes h: "held H P s" and b: "b \<in> H" and n: "b_blockno (bufs s b) \<notin> P"
  shows "held H (insert (b_blockno (bufs s b)) P) (bpin b s)" "view (bpin b s) = view s"
proof -
  show "held H (insert (b_blockno (bufs s b)) P) (bpin b s)" "view (bpin b s) = view s"
    using held_upd [OF h b, of "b_refcnt_update (\<lambda>n. n + 1)" "insert (b_blockno (bufs s b)) P"]
      heldD [OF h b] held_view [OF h b] b n by (simp_all add: bpin_def refs_def fun_upd_idem)
qed

lemma held_bunpin:
  assumes h: "held H P s" and b: "b \<in> H" and n: "b_blockno (bufs s b) \<in> P"
  shows "held H (P - {b_blockno (bufs s b)}) (bunpin b s)" "view (bunpin b s) = view s"
proof -
  show "held H (P - {b_blockno (bufs s b)}) (bunpin b s)" "view (bunpin b s) = view s"
    using held_upd [OF h b, of "b_refcnt_update (\<lambda>n. n - 1)" "P - {b_blockno (bufs s b)}"]
      heldD [OF h b] held_view [OF h b] b n by (simp_all add: bunpin_def refs_def fun_upd_idem)
qed

lemma bpin_simps [simp]:
  "blk (bpin b s) = blk s" "dtrace (bpin b s) = dtrace s" "mypid (bpin b s) = mypid s"
  "bstate.more (bpin b s) = bstate.more s" "b_data (bufs (bpin b s) c) = b_data (bufs s c)"
  "b_blockno (bufs (bpin b s) c) = b_blockno (bufs s c)"
  "blk (bunpin b s) = blk s" "dtrace (bunpin b s) = dtrace s" "mypid (bunpin b s) = mypid s"
  "bstate.more (bunpin b s) = bstate.more s" "b_data (bufs (bunpin b s) c) = b_data (bufs s c)"
  "b_blockno (bufs (bunpin b s) c) = b_blockno (bufs s c)"
  by (simp_all add: bpin_def bunpin_def)

lemma held_bwrite:
  assumes h: "held H P s" and b: "b \<in> H"
  shows "\<exists>s'. bwrite b s = Ret s' \<and> held H P s' \<and> view s' = view s \<and> bufs s' = bufs s \<and>
    blk s' = (blk s)(b_blockno (bufs s b) := b_data (bufs s b)) \<and>
    dtrace s' = dtrace s @ [(b_blockno (bufs s b), b_data (bufs s b))] \<and>
    mypid s' = mypid s \<and> bstate.more s' = bstate.more s"
proof -
  let ?n = "b_blockno (bufs s b)"
  let ?s = "virtio_disk_rw b True s"
  have s': "bufs ?s = bufs s" "blk ?s = (blk s)(?n := b_data (bufs s b))" "mypid ?s = mypid s"
    by (simp_all add: virtio_disk_rw_def Let_def)
  obtain xs where ok: "cache_ok s xs" using h by (auto simp: held_def)
  have c: "cached ?s = cached s" by (intro ext) (simp add: cached_def s'(1))
  have nc: "cached s ?n d \<Longrightarrow> d = b" for d using held_uniq [OF h held_cached [OF h b]] by blast
  have "ring ?s xs" using ok s'(1) ring_cong [of ?s s] by (simp add: cache_ok_def)
  moreover have "buf_ok ?s d" if "d < NBUF" for d
  proof (cases "d = b")
    case True
    then show ?thesis using h b ok that s' by (auto simp: cache_ok_def buf_ok_def held_def refs_0)
  next
    case False
    then have "b_dev (bufs s d) = ROOTDEV \<Longrightarrow> b_blockno (bufs s d) \<noteq> ?n"
      using nc [of d] that by (auto simp: cached_def)
    then show ?thesis using ok that s' by (auto simp: cache_ok_def buf_ok_def)
  qed
  ultimately have ok': "cache_ok ?s xs"
    using ok s' held_view [OF h b] held_length(1) [OF h, of ?n] by (auto simp: cache_ok_def cache_uniq_def c)
  then have h': "held H P ?s" using h c s' by (auto simp: held_def)
  moreover have "view ?s m = view s m" for m
  proof (cases "m = ?n")
    case True
    then show ?thesis using held_view [OF h b] held_view [OF h' b] s'(1) by simp
  next
    case False
    then show ?thesis by (simp only: view_def c s' fun_upd_apply if_False)
  qed
  then have "view ?s = view s" by blast
  moreover have "bwrite b s = Ret ?s" using h b by (simp add: bwrite_def held_def)
  ultimately show ?thesis using s' \<open>view ?s = view s\<close> by (simp add: virtio_disk_rw_def Let_def)
qed

lemma held_brelse:
  assumes h: "held H P s" and b: "b \<in> H"
    and clean: "b_blockno (bufs s b) \<in> P \<or> b_data (bufs s b) = blk s (b_blockno (bufs s b))"
  shows "\<exists>s'. brelse b s = Ret s' \<and> held (H - {b}) P s' \<and> view s' = view s \<and> blk s' = blk s \<and>
    dtrace s' = dtrace s \<and> mypid s' = mypid s \<and> bstate.more s' = bstate.more s \<and>
    (\<forall>c. c \<noteq> b \<longrightarrow> same_slot (bufs s' c) (bufs s c))"
proof -
  let ?f = "\<lambda>x. b_refcnt_update (\<lambda>n. n - 1) (b_lock_update releasesleep x)"
  let ?s1 = "upd_buf b ?f s"
  let ?s' = "if b_refcnt (bufs s b) = 1 then lru_insert b (lru_remove b ?s1) else ?s1"
  note hd = heldD [OF h b]
  obtain xs where ok: "cache_ok s xs" using h by (auto simp: held_def)
  have eq: "brelse b s = Ret ?s'" using hd by (auto simp: brelse_def Let_def)
  have "b_refcnt (bufs s b) = 1 \<Longrightarrow> b_blockno (bufs s b) \<notin> P" using hd b by (auto simp: refs_def)
  then have ok': "\<exists>ys. cache_ok ?s' ys" "view ?s' = view s" "blk ?s' = blk s" "dtrace ?s' = dtrace s"
    using brelse_ok [OF ok hd(3,4)] clean eq by auto
  have slot: "same_slot (bufs ?s' c) (bufs ?s1 c)" for c
    using lru_same_slot(1) [of b "lru_remove b ?s1" c] lru_same_slot(2) [of b ?s1 c] by (auto simp: same_slot_def)
  have c: "cached ?s' = cached s"
    using same_slot_keeps(1) [of ?s' ?s1, OF slot] by (intro ext) (simp add: cached_def)
  have "held (H - {b}) P ?s'"
  proof -
    have "b_refcnt (bufs ?s' d) = refs (H - {b}) P d (bufs ?s' d)" if "d < NBUF" for d
      using that h hd b slot [of d] by (cases "d = b") (auto simp: held_def refs_def same_slot_def)
    moreover have "sl_locked (b_lock (bufs ?s' d)) = 0" if "d < NBUF" "d \<notin> H - {b}" for d
      using that h slot [of d] by (cases "d = b") (auto simp: held_def same_slot_def releasesleep_def)
    moreover have "holdingsleep (mypid ?s') (b_lock (bufs ?s' d)) \<and> b_valid (bufs ?s' d) \<and> b_dev (bufs ?s' d) = ROOTDEV"
      if "d \<in> H - {b}" for d using that h slot [of d] by (auto simp: held_def same_slot_def)
    ultimately show ?thesis using h ok' c by (auto simp: held_def)
  qed
  moreover have "same_slot (bufs ?s' d) (bufs s d)" if "d \<noteq> b" for d
    using slot [of d] that by (simp add: same_slot_def)
  ultimately show ?thesis using eq ok' by (intro exI [of _ ?s']) simp
qed

end
