(* ===== verification/Disk_Bytes.thy ===== *)
theory Disk_Bytes
  imports Kernel_Prelude
begin

text \<open>
  Little-endian integers inside byte lists: how RISC-V code reads and writes the fields of a
  structure laid over a disk block, an executable's header or a kernel buffer. Writes keep
  the length, reads return what was written, and disjoint fields do not interfere.
\<close>

definition get16 :: "uint8 list \<Rightarrow> nat \<Rightarrow> uint16" where
  "get16 d i = ucast (d ! i) OR push_bit 8 (ucast (d ! (i + 1)))"

definition get32 :: "uint8 list \<Rightarrow> nat \<Rightarrow> uint32" where
  "get32 d i = ucast (d ! i) OR push_bit 8 (ucast (d ! (i + 1)))
     OR push_bit 16 (ucast (d ! (i + 2))) OR push_bit 24 (ucast (d ! (i + 3)))"

definition get64 :: "uint8 list \<Rightarrow> nat \<Rightarrow> uint64" where
  "get64 d i = ucast (get32 d i) OR push_bit 32 (ucast (get32 d (i + 4)))"

definition put16 :: "nat \<Rightarrow> uint16 \<Rightarrow> uint8 list \<Rightarrow> uint8 list" where
  "put16 i v d = d[i := ucast v, i + 1 := ucast (drop_bit 8 v)]"

definition put32 :: "nat \<Rightarrow> uint32 \<Rightarrow> uint8 list \<Rightarrow> uint8 list" where
  "put32 i v d = d[i := ucast v, i + 1 := ucast (drop_bit 8 v),
     i + 2 := ucast (drop_bit 16 v), i + 3 := ucast (drop_bit 24 v)]"

text \<open>Replacing the bytes from \<open>i\<close> on by \<open>bs\<close>, as \<open>memmove\<close> into a buffer does.\<close>

definition put_bytes :: "nat \<Rightarrow> uint8 list \<Rightarrow> uint8 list \<Rightarrow> uint8 list" where
  "put_bytes i bs d = take i d @ bs @ drop (i + length bs) d"

definition get_bytes :: "uint8 list \<Rightarrow> nat \<Rightarrow> nat \<Rightarrow> uint8 list" where
  "get_bytes d i n = take n (drop i d)"

lemma put_length [simp]:
  "length (put16 i v d) = length d" "length (put32 i w d) = length d"
  "i + length bs \<le> length d \<Longrightarrow> length (put_bytes i bs d) = length d"
  by (simp_all add: put16_def put32_def put_bytes_def)

lemma get16_put16 [simp]: "i + 2 \<le> length d \<Longrightarrow> get16 (put16 i v d) i = v"
  by (rule bit_word_eqI)
    (auto simp: get16_def put16_def bit_or_iff bit_push_bit_iff bit_unsigned_iff bit_drop_bit_eq)

lemma get32_put32 [simp]:
  assumes "i + 4 \<le> length d"
  shows "get32 (put32 i v d) i = v"
proof (rule bit_word_eqI)
  fix n assume "n < LENGTH(32)"
  then consider "n < 8" | "8 \<le> n" "n < 16" | "16 \<le> n" "n < 24" | "24 \<le> n" "n < 32" by force
  then show "bit (get32 (put32 i v d) i) n = bit v n"
    by cases (use assms in \<open>auto simp: get32_def put32_def bit_or_iff bit_push_bit_iff bit_unsigned_iff bit_drop_bit_eq\<close>)
qed

lemma get_put_other [simp]:
  "i + 2 \<le> j \<or> j + 2 \<le> i \<Longrightarrow> get16 (put16 i v d) j = get16 d j"
  "i + 2 \<le> j \<or> j + 4 \<le> i \<Longrightarrow> get32 (put16 i v d) j = get32 d j"
  "i + 4 \<le> j \<or> j + 2 \<le> i \<Longrightarrow> get16 (put32 i w d) j = get16 d j"
  "i + 4 \<le> j \<or> j + 4 \<le> i \<Longrightarrow> get32 (put32 i w d) j = get32 d j"
  by (auto simp: get16_def get32_def put16_def put32_def)

lemma nth_put_bytes:
  "i + length bs \<le> length d \<Longrightarrow> j < length d \<Longrightarrow>
   put_bytes i bs d ! j = (if i \<le> j \<and> j < i + length bs then bs ! (j - i) else d ! j)"
  by (auto simp: put_bytes_def nth_append)

lemma get_bytes_put_bytes:
  "i + length bs \<le> length d \<Longrightarrow> get_bytes (put_bytes i bs d) i (length bs) = bs"
  by (simp add: get_bytes_def put_bytes_def)

lemma get_bytes_length: "i + n \<le> length d \<Longrightarrow> length (get_bytes d i n) = n"
  by (simp add: get_bytes_def)

lemma put_bytes_self: "i + n \<le> length d \<Longrightarrow> put_bytes i (get_bytes d i n) d = d"
  by (simp add: put_bytes_def get_bytes_def) (metis append_take_drop_id drop_drop add.commute)

end
