(* ===== verification/Log.thy ===== *)
theory Log
  imports Bio Disk_Bytes
begin

text \<open>
  \<^verbatim>\<open>kernel/log.c\<close>: the write-ahead log that makes a group of file-system updates atomic.
  The state extends the block cache by \<open>struct log\<close>. A thread that has to wait in
  \<open>begin_op\<close> is \<open>Blocked\<close>, and its call starts again from the new state; \<open>wakeup\<close> only
  makes waiting threads try again. The log header read from the disk is trusted, as in the
  source: a count above \<open>LOGSIZE\<close> would overrun the in-memory header.
\<close>

section \<open>State\<close>

definition MAXOPBLOCKS :: int where "MAXOPBLOCKS = 10"
definition LOGSIZE :: int where "LOGSIZE = 30"

record lstate = bstate +
  l_start :: uint32
  l_size :: int
  outstanding :: int
  committing :: bool
  l_dev :: uint32
  lh_n :: int
  lh_block :: "nat \<Rightarrow> uint32"

section \<open>Operations\<close>

definition install_one :: "bool \<Rightarrow> nat \<Rightarrow> 'a lstate_scheme \<Rightarrow> 'a lstate_scheme res" where
  "install_one recovering i s =
     seq (bread (l_dev s) (l_start s + of_nat i + 1) s) (\<lambda>(lbuf, s).
     seq (bread (l_dev s) (lh_block s i) s) (\<lambda>(dbuf, s).
     seq (bwrite dbuf (set_data dbuf (b_data (bufs s lbuf)) s)) (\<lambda>s.
     let s = if \<not> recovering then bunpin dbuf s else s in
     seq (brelse lbuf s) (\<lambda>s. brelse dbuf s))))"

definition install_trans :: "bool \<Rightarrow> 'a lstate_scheme \<Rightarrow> 'a lstate_scheme res" where
  "install_trans recovering s = foldM (install_one recovering) [0..<nat (lh_n s)] s"

definition read_head :: "'a lstate_scheme \<Rightarrow> 'a lstate_scheme res" where
  "read_head s =
     seq (bread (l_dev s) (l_start s) s) (\<lambda>(buf, s).
     let lh = b_data (bufs s buf); n = sint (get32 lh 0);
         s = s\<lparr>lh_n := n, lh_block := (\<lambda>i. if i < nat n then get32 lh (4 + 4 * i) else lh_block s i)\<rparr>
     in brelse buf s)"

definition put_head :: "int \<Rightarrow> (nat \<Rightarrow> uint32) \<Rightarrow> block \<Rightarrow> block" where
  "put_head n f hb = fold (\<lambda>i. put32 (4 + 4 * i) (f i)) [0..<nat n] (put32 0 (word_of_int n) hb)"

definition write_head :: "'a lstate_scheme \<Rightarrow> 'a lstate_scheme res" where
  "write_head s =
     seq (bread (l_dev s) (l_start s) s) (\<lambda>(buf, s).
     seq (bwrite buf (set_data buf (put_head (lh_n s) (lh_block s) (b_data (bufs s buf))) s)) (\<lambda>s.
     brelse buf s))"

definition recover_from_log :: "'a lstate_scheme \<Rightarrow> 'a lstate_scheme res" where
  "recover_from_log s =
     seq (read_head s) (\<lambda>s. seq (install_trans True s) (\<lambda>s. write_head (s\<lparr>lh_n := 0\<rparr>)))"

definition initlog :: "uint32 \<Rightarrow> uint32 \<Rightarrow> int \<Rightarrow> 'a lstate_scheme \<Rightarrow> 'a lstate_scheme res" where
  "initlog dev logstart nlog s =
     (if 4 + 4 * LOGSIZE \<ge> int BSIZE then Panic ''initlog: too big logheader''
      else recover_from_log (s\<lparr>l_start := logstart, l_size := nlog, l_dev := dev\<rparr>))"

definition begin_op :: "'a lstate_scheme \<Rightarrow> 'a lstate_scheme res" where
  "begin_op s =
     (if committing s then Blocked
      else if lh_n s + (outstanding s + 1) * MAXOPBLOCKS > LOGSIZE then Blocked
      else Ret (s\<lparr>outstanding := outstanding s + 1\<rparr>))"

definition write_one :: "nat \<Rightarrow> 'a lstate_scheme \<Rightarrow> 'a lstate_scheme res" where
  "write_one i s =
     seq (bread (l_dev s) (l_start s + of_nat i + 1) s) (\<lambda>(to, s).
     seq (bread (l_dev s) (lh_block s i) s) (\<lambda>(frm, s).
     seq (bwrite to (set_data to (b_data (bufs s frm)) s)) (\<lambda>s.
     seq (brelse frm s) (\<lambda>s. brelse to s))))"

definition write_log :: "'a lstate_scheme \<Rightarrow> 'a lstate_scheme res" where
  "write_log s = foldM write_one [0..<nat (lh_n s)] s"

definition commit :: "'a lstate_scheme \<Rightarrow> 'a lstate_scheme res" where
  "commit s =
     (if lh_n s > 0
      then seq (write_log s) (\<lambda>s. seq (write_head s) (\<lambda>s. seq (install_trans False s) (\<lambda>s.
             write_head (s\<lparr>lh_n := 0\<rparr>))))
      else Ret s)"

definition end_op :: "'a lstate_scheme \<Rightarrow> 'a lstate_scheme res" where
  "end_op s =
     (let s = s\<lparr>outstanding := outstanding s - 1\<rparr>
      in if committing s then Panic ''log.committing''
         else if outstanding s = 0
         then seq (commit (s\<lparr>committing := True\<rparr>)) (\<lambda>s. Ret (s\<lparr>committing := False\<rparr>))
         else Ret s)"

text \<open>The index at which \<open>log_write\<close> stores the block: an earlier entry for it, or the end.\<close>

definition absorb :: "uint32 \<Rightarrow> 'a lstate_scheme \<Rightarrow> nat" where
  "absorb n s =
     (case find (\<lambda>i. lh_block s i = n) [0..<nat (lh_n s)] of Some i \<Rightarrow> i | None \<Rightarrow> nat (lh_n s))"

definition log_write :: "nat \<Rightarrow> 'a lstate_scheme \<Rightarrow> 'a lstate_scheme res" where
  "log_write b s =
     (if lh_n s \<ge> LOGSIZE \<or> lh_n s \<ge> l_size s - 1 then Panic ''too big a transaction''
      else if outstanding s < 1 then Panic ''log_write outside of trans''
      else let n = b_blockno (bufs s b); i = absorb n s;
               s = s\<lparr>lh_block := (lh_block s)(i := n)\<rparr>
           in Ret (if i = nat (lh_n s) then (bpin b s)\<lparr>lh_n := lh_n s + 1\<rparr> else s))"

section \<open>The on-disk header\<close>

lemma put_head_length [simp]: "length (put_head n f hb) = length hb"
proof -
  have "length (fold (\<lambda>i. put32 (4 + 4 * i) (f i)) xs d) = length d" for xs d
    by (induction xs arbitrary: d) auto
  then show ?thesis by (simp add: put_head_def)
qed

lemma put_head_get:
  assumes "4 + 4 * nat n \<le> length hb"
  shows "get32 (put_head n f hb) 0 = word_of_int n"
    and "i < nat n \<Longrightarrow> get32 (put_head n f hb) (4 + 4 * i) = f i"
proof -
  have "get32 (fold (\<lambda>i. put32 (4 + 4 * i) (f i)) [0..<m] d) 0 = get32 d 0 \<and>
      length (fold (\<lambda>i. put32 (4 + 4 * i) (f i)) [0..<m] d) = length d \<and>
      (\<forall>i<m. get32 (fold (\<lambda>i. put32 (4 + 4 * i) (f i)) [0..<m] d) (4 + 4 * i) = f i)"
    if "4 + 4 * m \<le> length d" for m d
    using that by (induction m) (auto simp: less_Suc_eq)
  from this [of "nat n" "put32 0 (word_of_int n) hb"] assms
  show "get32 (put_head n f hb) 0 = word_of_int n"
    "i < nat n \<Longrightarrow> get32 (put_head n f hb) (4 + 4 * i) = f i"
    by (simp_all add: put_head_def)
qed

section \<open>One block at a time\<close>

lemma log_fields:
  assumes "bstate.more s' = bstate.more s"
  shows "l_start s' = l_start s" "l_size s' = l_size s" "outstanding s' = outstanding s"
    "committing s' = committing s" "l_dev s' = l_dev s" "lh_n s' = lh_n s" "lh_block s' = lh_block s"
  using assms by (cases s; cases s'; simp)+

lemma upd_buf_log [simp]:
  "l_start (upd_buf b f s) = l_start s" "l_size (upd_buf b f s) = l_size s"
  "outstanding (upd_buf b f s) = outstanding s" "committing (upd_buf b f s) = committing s"
  "l_dev (upd_buf b f s) = l_dev s" "lh_n (upd_buf b f s) = lh_n s" "lh_block (upd_buf b f s) = lh_block s"
  by (simp_all add: upd_buf_def)

lemma held_same:
  assumes "bufs s' = bufs s" "blk s' = blk s" "mypid s' = mypid s"
  shows "held H P s' = held H P s" "view s' = view s"
proof -
  have c: "cached s' = cached s" by (intro ext) (simp add: cached_def assms)
  show "view s' = view s" by (rule view_cong) (simp_all add: assms)
  have "buf_ok s' = buf_ok s" by (intro ext) (simp add: buf_ok_def assms)
  then have "cache_ok s' = cache_ok s"
    by (intro ext) (simp add: cache_ok_def ring_def cache_uniq_def assms c)
  then show "held H P s' = held H P s" by (simp add: held_def assms c)
qed

lemma held_log_upd [simp]:
  "held H P (s\<lparr>l_start := a\<rparr>) = held H P s" "held H P (s\<lparr>l_size := b\<rparr>) = held H P s"
  "held H P (s\<lparr>outstanding := c\<rparr>) = held H P s" "held H P (s\<lparr>committing := d\<rparr>) = held H P s"
  "held H P (s\<lparr>l_dev := e\<rparr>) = held H P s" "held H P (s\<lparr>lh_n := f\<rparr>) = held H P s"
  "held H P (s\<lparr>lh_block := g\<rparr>) = held H P s"
  "view (s\<lparr>l_start := a\<rparr>) = view s" "view (s\<lparr>l_size := b\<rparr>) = view s"
  "view (s\<lparr>outstanding := c\<rparr>) = view s" "view (s\<lparr>committing := d\<rparr>) = view s"
  "view (s\<lparr>l_dev := e\<rparr>) = view s" "view (s\<lparr>lh_n := f\<rparr>) = view s" "view (s\<lparr>lh_block := g\<rparr>) = view s"
  by (intro held_same; simp)+

text \<open>What a step that writes \<open>d\<close> to block \<open>n\<close> of the disk leaves.\<close>

definition wrote :: "uint32 \<Rightarrow> block \<Rightarrow> 'a bstate_scheme \<Rightarrow> 'a bstate_scheme \<Rightarrow> bool" where
  "wrote n d s s' \<longleftrightarrow>
     view s' = (view s)(n := d) \<and> blk s' = (blk s)(n := d) \<and> dtrace s' = dtrace s @ [(n, d)] \<and>
     mypid s' = mypid s \<and> bstate.more s' = bstate.more s"

lemma write_one_ok:
  assumes h: "held {} P s" and n: "lh_block s i \<in> P" "l_start s + of_nat i + 1 \<notin> P"
    and room: "card P < NBUF" and dev: "l_dev s = ROOTDEV"
  shows "\<exists>s'. write_one i s = Ret s' \<and> held {} P s' \<and>
           wrote (l_start s + of_nat i + 1) (view s (lh_block s i)) s s'"
proof -
  let ?n = "l_start s + of_nat i + 1" and ?m = "lh_block s i"
  obtain to r where 1: "bread ROOTDEV ?n s = Ret (to, upd_buf to (taken s ?n r) s)"
      "held {to} P (upd_buf to (taken s ?n r) s)" "view (upd_buf to (taken s ?n r) s) = view s"
    using held_bread [OF h, of ?n] room by auto
  define s1 where "s1 = upd_buf to (taken s ?n r) s"
  have nm: "?n \<noteq> ?m" using n by auto
  obtain frm q where 2: "bread ROOTDEV ?m s1 = Ret (frm, upd_buf frm (taken s1 ?m q) s1)" "frm \<noteq> to"
      "held {frm, to} P (upd_buf frm (taken s1 ?m q) s1)" "view (upd_buf frm (taken s1 ?m q) s1) = view s1"
    using held_bread [OF 1(2), of ?m] n nm unfolding s1_def by auto
  define s2 where "s2 = upd_buf frm (taken s1 ?m q) s1"
  have d2: "b_data (bufs s2 frm) = view s ?m" "b_blockno (bufs s2 to) = ?n" "b_blockno (bufs s2 frm) = ?m"
    using 1(3) 2(2) by (simp_all add: s2_def s1_def)
  define s3 where "s3 = set_data to (b_data (bufs s2 frm)) s2"
  have 3: "held {frm, to} P s3" "view s3 = (view s)(?n := view s ?m)"
    using held_set_data [OF 2(3), of to "view s ?m"] held_length(1) [OF h] 1(3) 2(2,4) d2
    by (simp_all add: s3_def s2_def s1_def)
  obtain s4 where 4: "bwrite to s3 = Ret s4" "held {frm, to} P s4" "view s4 = view s3" "bufs s4 = bufs s3"
      "blk s4 = (blk s3)(b_blockno (bufs s3 to) := b_data (bufs s3 to))"
      "dtrace s4 = dtrace s3 @ [(b_blockno (bufs s3 to), b_data (bufs s3 to))]"
      "mypid s4 = mypid s3" "bstate.more s4 = bstate.more s3"
    using held_bwrite [OF 3(1), of to] by auto
  have d4: "b_blockno (bufs s4 frm) = ?m" "b_blockno (bufs s4 to) = ?n" "b_data (bufs s4 to) = view s ?m"
    "blk s4 = (blk s)(?n := view s ?m)" "dtrace s4 = dtrace s @ [(?n, view s ?m)]"
    "mypid s4 = mypid s" "bstate.more s4 = bstate.more s"
    using 4(4-8) d2 by (simp_all add: s3_def) (simp_all add: s2_def s1_def)
  obtain s5 where 5: "brelse frm s4 = Ret s5" "held ({frm, to} - {frm}) P s5" "view s5 = view s4" "blk s5 = blk s4"
      "dtrace s5 = dtrace s4" "mypid s5 = mypid s4" "bstate.more s5 = bstate.more s4"
      "\<forall>c. c \<noteq> frm \<longrightarrow> same_slot (bufs s5 c) (bufs s4 c)"
    using held_brelse [OF 4(2), of frm] n(1) d4 by auto
  have d5: "b_blockno (bufs s5 to) = ?n" "b_data (bufs s5 to) = view s ?m"
    using spec [OF 5(8), of to] 2(2) d4 by (auto simp: same_slot_def)
  have "held {to} P s5" using 5(2) 2(2) by (simp add: insert_Diff_if)
  then obtain s6 where 6: "brelse to s5 = Ret s6" "held {} P s6" "view s6 = view s5" "blk s6 = blk s5"
      "dtrace s6 = dtrace s5" "mypid s6 = mypid s5" "bstate.more s6 = bstate.more s5"
    using held_brelse [of "{to}" P s5 to] d5 d4 5(4) by auto
  have "write_one i s = Ret s6"
    using 1(1) 2(1) 4(1) 5(1) 6(1) dev unfolding write_one_def by (simp add: s3_def s2_def s1_def)
  moreover have "wrote ?n (view s ?m) s s6"
    using 6(3-7) 5(3-7) 4(3) 3(2) d4 unfolding wrote_def by simp
  ultimately show ?thesis using 6(2) by blast
qed

lemma held_clean:
  assumes h: "held H P s" and n: "n \<notin> P" "\<And>b. b \<in> H \<Longrightarrow> b_blockno (bufs s b) \<noteq> n"
  shows "view s n = blk s n"
proof -
  obtain xs where ok: "cache_ok s xs" using h by (auto simp: held_def)
  show ?thesis
  proof (rule view_cases [OF ok, of n])
    fix b assume b: "cached s n b" and v: "view s n = (if b_valid (bufs s b) then b_data (bufs s b) else blk s n)"
    then have "b_refcnt (bufs s b) = 0" using h n by (auto simp: held_def cached_def refs_0)
    then show ?thesis using ok b v by (auto simp: cache_ok_def buf_ok_def cached_def)
  qed
qed

lemma install_one_ok:
  assumes h: "held {} P s" and n: "lh_block s i \<in> P \<longleftrightarrow> \<not> recovering" "l_start s + of_nat i + 1 \<notin> P"
      "lh_block s i \<noteq> l_start s + of_nat i + 1"
    and room: "1 + card P < NBUF \<or> \<not> recovering \<and> card P < NBUF" and dev: "l_dev s = ROOTDEV"
  shows "\<exists>s'. install_one recovering i s = Ret s' \<and> held {} (P - {lh_block s i}) s' \<and>
           wrote (lh_block s i) (view s (l_start s + of_nat i + 1)) s s'"
proof -
  let ?n = "l_start s + of_nat i + 1" and ?m = "lh_block s i"
  let ?P = "P - {?m}"
  obtain lb r where 1: "bread ROOTDEV ?n s = Ret (lb, upd_buf lb (taken s ?n r) s)"
      "held {lb} P (upd_buf lb (taken s ?n r) s)" "view (upd_buf lb (taken s ?n r) s) = view s"
    using held_bread [OF h, of ?n] room by auto
  define s1 where "s1 = upd_buf lb (taken s ?n r) s"
  obtain db q where 2: "bread ROOTDEV ?m s1 = Ret (db, upd_buf db (taken s1 ?m q) s1)" "db \<noteq> lb"
      "held {db, lb} P (upd_buf db (taken s1 ?m q) s1)" "view (upd_buf db (taken s1 ?m q) s1) = view s1"
    using held_bread [OF 1(2), of ?m] n room unfolding s1_def by auto
  define s2 where "s2 = upd_buf db (taken s1 ?m q) s1"
  have d2: "b_data (bufs s2 lb) = view s ?n" "b_blockno (bufs s2 lb) = ?n" "b_blockno (bufs s2 db) = ?m"
    using 2(2) by (simp_all add: s2_def s1_def)
  define s3 where "s3 = set_data db (b_data (bufs s2 lb)) s2"
  have 3: "held {db, lb} P s3" "view s3 = (view s)(?m := view s ?n)"
    using held_set_data [OF 2(3), of db "view s ?n"] held_length(1) [OF h] 1(3) 2(2,4) d2
    by (simp_all add: s3_def s2_def s1_def)
  obtain s4 where 4: "bwrite db s3 = Ret s4" "held {db, lb} P s4" "view s4 = view s3" "bufs s4 = bufs s3"
      "blk s4 = (blk s3)(b_blockno (bufs s3 db) := b_data (bufs s3 db))"
      "dtrace s4 = dtrace s3 @ [(b_blockno (bufs s3 db), b_data (bufs s3 db))]"
      "mypid s4 = mypid s3" "bstate.more s4 = bstate.more s3"
    using held_bwrite [OF 3(1), of db] by auto
  define s5 where "s5 = (if \<not> recovering then bunpin db s4 else s4)"
  have d5: "b_blockno (bufs s5 db) = ?m" "b_blockno (bufs s5 lb) = ?n" "b_data (bufs s5 db) = view s ?n"
    "b_data (bufs s5 lb) = view s ?n" "blk s5 = (blk s)(?m := view s ?n)"
    "dtrace s5 = dtrace s @ [(?m, view s ?n)]" "mypid s5 = mypid s" "bstate.more s5 = bstate.more s"
    using 4(4-8) d2 2(2) by (simp_all add: s5_def s3_def) (simp_all add: s2_def s1_def)
  have b4: "b_blockno (bufs s4 db) = ?m" using d5(1) by (simp add: s5_def split: if_splits)
  have 5: "held {db, lb} ?P s5 \<and> view s5 = view s4"
    using 4(2) held_bunpin [OF 4(2), of db] n(1) b4 by (auto simp: s5_def)
  have "blk s5 ?n = view s ?n" using held_clean [OF h n(2)] d5(5) by auto
  then obtain s6 where 6: "brelse lb s5 = Ret s6" "held ({db, lb} - {lb}) ?P s6" "view s6 = view s5" "blk s6 = blk s5"
      "dtrace s6 = dtrace s5" "mypid s6 = mypid s5" "bstate.more s6 = bstate.more s5"
      "\<forall>c. c \<noteq> lb \<longrightarrow> same_slot (bufs s6 c) (bufs s5 c)"
    using held_brelse [of _ ?P s5 lb] 5 d5 by auto
  have d6: "b_blockno (bufs s6 db) = ?m" "b_data (bufs s6 db) = view s ?n"
    using spec [OF 6(8), of db] 2(2) d5 by (auto simp: same_slot_def)
  have "{db, lb} - {lb} = {db}" using 2(2) by auto
  then obtain s7 where 7: "brelse db s6 = Ret s7" "held {} ?P s7" "view s7 = view s6" "blk s7 = blk s6"
      "dtrace s7 = dtrace s6" "mypid s7 = mypid s6" "bstate.more s7 = bstate.more s6"
    using held_brelse [of "{db}" ?P s6 db] d6 d5 6(2,4) by auto
  have "install_one recovering i s = Ret s7"
    using 1(1) 2(1) 4(1) 6(1) 7(1) dev unfolding install_one_def by (simp add: s5_def s3_def s2_def s1_def)
  moreover have "wrote ?m (view s ?n) s s7"
    using 7(3-7) 6(3-7) 5 4(3) 3(2) d5 unfolding wrote_def by simp
  ultimately show ?thesis using 7(2) by blast
qed

text \<open>Writing the block \<open>l_start\<close> through the cache, as both header functions do.\<close>

lemma write_head_ok:
  assumes h: "held {} P s" and n: "l_start s \<notin> P" and room: "card P < NBUF" and dev: "l_dev s = ROOTDEV"
  shows "\<exists>s'. write_head s = Ret s' \<and> held {} P s' \<and>
           wrote (l_start s) (put_head (lh_n s) (lh_block s) (view s (l_start s))) s s'"
proof -
  let ?n = "l_start s"
  let ?d = "put_head (lh_n s) (lh_block s) (view s ?n)"
  obtain b r where 1: "bread ROOTDEV ?n s = Ret (b, upd_buf b (taken s ?n r) s)"
      "held {b} P (upd_buf b (taken s ?n r) s)" "view (upd_buf b (taken s ?n r) s) = view s"
    using held_bread [OF h, of ?n] room by auto
  define s1 where "s1 = upd_buf b (taken s ?n r) s"
  define s2 where "s2 = set_data b ?d s1"
  have 2: "held {b} P s2" "view s2 = (view s)(?n := ?d)"
    using held_set_data [OF 1(2), of b ?d] held_length(1) [OF h] 1(3) by (simp_all add: s2_def s1_def)
  obtain s3 where 3: "bwrite b s2 = Ret s3" "held {b} P s3" "view s3 = view s2" "bufs s3 = bufs s2"
      "blk s3 = (blk s2)(b_blockno (bufs s2 b) := b_data (bufs s2 b))"
      "dtrace s3 = dtrace s2 @ [(b_blockno (bufs s2 b), b_data (bufs s2 b))]"
      "mypid s3 = mypid s2" "bstate.more s3 = bstate.more s2"
    using held_bwrite [OF 2(1), of b] by auto
  have d: "b_blockno (bufs s3 b) = ?n" "b_data (bufs s3 b) = ?d" "blk s3 = (blk s)(?n := ?d)"
    "dtrace s3 = dtrace s @ [(?n, ?d)]" "mypid s3 = mypid s" "bstate.more s3 = bstate.more s"
    using 3(4-8) by (simp_all add: s2_def) (simp_all add: s1_def)
  obtain s4 where 4: "brelse b s3 = Ret s4" "held {} P s4" "view s4 = view s3" "blk s4 = blk s3"
      "dtrace s4 = dtrace s3" "mypid s4 = mypid s3" "bstate.more s4 = bstate.more s3"
    using held_brelse [OF 3(2), of b] d by auto
  have "write_head s = Ret s4"
    using 1(1) 3(1) 4(1) dev unfolding write_head_def by (simp add: s2_def s1_def)
  moreover have "wrote ?n ?d s s4" using 4(3-7) 3(3) 2(2) d unfolding wrote_def by simp
  ultimately show ?thesis using 4(2) by blast
qed

lemma read_head_ok:
  assumes h: "held {} P s" and n: "l_start s \<notin> P" and room: "card P < NBUF" and dev: "l_dev s = ROOTDEV"
  shows "\<exists>s'. read_head s = Ret s' \<and> held {} P s' \<and> view s' = view s \<and> blk s' = blk s \<and>
     dtrace s' = dtrace s \<and> mypid s' = mypid s \<and> l_start s' = l_start s \<and> l_size s' = l_size s \<and>
     outstanding s' = outstanding s \<and> committing s' = committing s \<and> l_dev s' = l_dev s \<and>
     lh_n s' = sint (get32 (view s (l_start s)) 0) \<and>
     (\<forall>i<nat (lh_n s'). lh_block s' i = get32 (view s (l_start s)) (4 + 4 * i))"
proof -
  let ?n = "l_start s" and ?lh = "view s (l_start s)"
  obtain b r where 1: "bread ROOTDEV ?n s = Ret (b, upd_buf b (taken s ?n r) s)"
      "held {b} P (upd_buf b (taken s ?n r) s)" "view (upd_buf b (taken s ?n r) s) = view s"
    using held_bread [OF h, of ?n] room by auto
  let ?m = "sint (get32 ?lh 0)"
  define s1 where "s1 = (upd_buf b (taken s ?n r) s)\<lparr>lh_n := ?m,
    lh_block := (\<lambda>i. if i < nat ?m then get32 ?lh (4 + 4 * i) else lh_block s i)\<rparr>"
  have "held {b} P s1" "b_blockno (bufs s1 b) = ?n" "b_data (bufs s1 b) = blk s1 ?n"
    using 1(2) held_clean [OF h n] by (simp_all add: s1_def)
  then obtain s2 where 2: "brelse b s1 = Ret s2" "held {} P s2" "view s2 = view s1" "blk s2 = blk s1"
      "dtrace s2 = dtrace s1" "mypid s2 = mypid s1" "bstate.more s2 = bstate.more s1"
    using held_brelse [of "{b}" P s1 b] by auto
  have "read_head s = Ret s2" using 1(1) 2(1) dev unfolding read_head_def by (simp add: s1_def Let_def cong: if_cong)
  then show ?thesis using 2 1(3) log_fields [OF 2(7)] by (intro exI [of _ s2]) (simp add: s1_def)
qed

section \<open>The loops over the log\<close>

definition apply_writes :: "(uint32 \<times> block) list \<Rightarrow> (uint32 \<Rightarrow> block) \<Rightarrow> uint32 \<Rightarrow> block" where
  "apply_writes ws f = fold (\<lambda>(n, d) f. f(n := d)) ws f"

definition wrote_all :: "(uint32 \<times> block) list \<Rightarrow> 'a bstate_scheme \<Rightarrow> 'a bstate_scheme \<Rightarrow> bool" where
  "wrote_all ws s s' \<longleftrightarrow>
     view s' = apply_writes ws (view s) \<and> blk s' = apply_writes ws (blk s) \<and> dtrace s' = dtrace s @ ws \<and>
     mypid s' = mypid s \<and> bstate.more s' = bstate.more s"

lemma apply_writes_simps [simp]:
  "apply_writes [] f = f" "apply_writes (xs @ ys) f = apply_writes ys (apply_writes xs f)"
  "apply_writes ((n, d) # ws) f = apply_writes ws (f(n := d))"
  by (simp_all add: apply_writes_def)

lemma apply_writes_other: "n \<notin> fst ` set ws \<Longrightarrow> apply_writes ws f n = f n"
  by (induction ws arbitrary: f) auto

lemma apply_writes_map:
  assumes "i < m" "inj_on a {..<m}"
  shows "apply_writes (map (\<lambda>i. (a i, d i)) [0..<m]) f (a i) = d i"
  using assms
proof (induction m)
  case (Suc m)
  show ?case
  proof (cases "i = m")
    case False
    then have "a i \<noteq> a m" using Suc.prems by (auto simp: inj_on_def)
    then show ?thesis using Suc False by (auto simp: inj_on_def)
  qed simp
qed simp

lemma wrote_all_trans: "wrote_all ws s t \<Longrightarrow> wrote n d t u \<Longrightarrow> wrote_all (ws @ [(n, d)]) s u"
  by (simp add: wrote_all_def wrote_def)

lemma wrote_all_append: "wrote_all ws s t \<Longrightarrow> wrote_all vs t u \<Longrightarrow> wrote_all (ws @ vs) s u"
  by (simp add: wrote_all_def)

lemma wrote_all_held: "wrote_all [] s s"
  by (simp add: wrote_all_def)

lemma wrote_all_fields:
  assumes "wrote_all ws s s'"
  shows "l_start s' = l_start s" "l_size s' = l_size s" "outstanding s' = outstanding s"
    "committing s' = committing s" "l_dev s' = l_dev s" "lh_n s' = lh_n s" "lh_block s' = lh_block s"
  using log_fields [of s' s] assms by (simp_all add: wrote_all_def)

text \<open>The writes of the two loops.\<close>

definition log_writes :: "nat \<Rightarrow> 'a lstate_scheme \<Rightarrow> (uint32 \<times> block) list" where
  "log_writes m s = map (\<lambda>i. (l_start s + of_nat i + 1, view s (lh_block s i))) [0..<m]"

definition home_writes :: "nat \<Rightarrow> 'a lstate_scheme \<Rightarrow> (uint32 \<times> block) list" where
  "home_writes m s = map (\<lambda>i. (lh_block s i, view s (l_start s + of_nat i + 1))) [0..<m]"

lemma write_loop_ok:
  assumes h: "held {} P s" and room: "card P < NBUF" and dev: "l_dev s = ROOTDEV"
    and P: "\<And>i. i < m \<Longrightarrow> lh_block s i \<in> P" "\<And>i. i < m \<Longrightarrow> l_start s + of_nat i + 1 \<notin> P"
  shows "\<exists>s'. foldM write_one [0..<m] s = Ret s' \<and> held {} P s' \<and> wrote_all (log_writes m s) s s'"
  using P
proof (induction m)
  case 0
  then show ?case using h by (simp add: log_writes_def wrote_all_def)
next
  case (Suc m)
  then obtain t where t: "foldM write_one [0..<m] s = Ret t" "held {} P t" "wrote_all (log_writes m s) s t"
    by (meson less_SucI)
  note f = wrote_all_fields [OF t(3)]
  have nP: "lh_block s m \<in> P" "l_start s + of_nat m + 1 \<notin> P" using Suc.prems by auto
  have "lh_block s m \<notin> fst ` set (log_writes m s)"
    using Suc.prems(1) [of m] Suc.prems(2) by (fastforce simp: log_writes_def)
  then have "view t (lh_block s m) = view s (lh_block s m)"
    using t(3) by (simp add: wrote_all_def apply_writes_other)
  then obtain u where "write_one m t = Ret u" "held {} P u"
      "wrote (l_start s + of_nat m + 1) (view s (lh_block s m)) t u"
    using write_one_ok [OF t(2), of m] f nP room dev by auto
  then show ?case using t(1) wrote_all_trans [OF t(3)] by (simp add: log_writes_def)
qed

lemma install_loop_ok:
  assumes h: "held {} P s" and dev: "l_dev s = ROOTDEV"
    and room: "1 + card P < NBUF \<or> \<not> recovering \<and> card P < NBUF"
    and P: "\<And>i. i < m \<Longrightarrow> lh_block s i \<in> P \<longleftrightarrow> \<not> recovering" "\<And>i. i < m \<Longrightarrow> l_start s + of_nat i + 1 \<notin> P"
    and inj: "recovering \<or> inj_on (lh_block s) {..<m}"
    and D: "\<And>i j. i < m \<Longrightarrow> j < m \<Longrightarrow> lh_block s i \<noteq> l_start s + of_nat j + 1"
  shows "\<exists>s'. foldM (install_one recovering) [0..<m] s = Ret s' \<and>
           held {} (P - lh_block s ` {..<m}) s' \<and> wrote_all (home_writes m s) s s'"
  using P inj D
proof (induction m)
  case 0
  then show ?case using h by (simp add: home_writes_def wrote_all_def)
next
  case (Suc m)
  let ?Q = "P - lh_block s ` {..<m}"
  have "recovering \<or> inj_on (lh_block s) {..<m}" using Suc.prems(3) by (auto intro: inj_on_subset)
  from Suc.IH [OF Suc.prems(1) Suc.prems(2) this Suc.prems(4)]
  obtain t where t: "foldM (install_one recovering) [0..<m] s = Ret t" "held {} ?Q t"
      "wrote_all (home_writes m s) s t" by auto
  note f = wrote_all_fields [OF t(3)]
  have "lh_block s m \<notin> lh_block s ` {..<m}" if "\<not> recovering"
    using Suc.prems(3) that by (auto simp: inj_on_image_mem_iff [of _ "{..<Suc m}"])
  then have nQ: "lh_block s m \<in> ?Q \<longleftrightarrow> \<not> recovering" "l_start s + of_nat m + 1 \<notin> ?Q"
    using Suc.prems(1) [of m] Suc.prems(2) [of m] by auto
  have "card ?Q \<le> card P" using h by (intro card_mono) (auto simp: held_def)
  then have room': "1 + card ?Q < NBUF \<or> \<not> recovering \<and> card ?Q < NBUF" using room by linarith
  have ne: "lh_block s m \<noteq> l_start s + of_nat m + 1" using Suc.prems(4) by simp
  have "lh_block s i \<noteq> l_start s + of_nat m + 1" if "i < m" for i
    using Suc.prems(4) [of i m] that by simp
  then have "l_start s + of_nat m + 1 \<notin> fst ` set (home_writes m s)"
    by (auto simp: home_writes_def) (metis add.commute)
  then have "view t (l_start s + of_nat m + 1) = view s (l_start s + of_nat m + 1)"
    using t(3) by (simp add: wrote_all_def apply_writes_other)
  then obtain u where u: "install_one recovering m t = Ret u" "held {} (?Q - {lh_block s m}) u"
      "wrote (lh_block s m) (view s (l_start s + of_nat m + 1)) t u"
    using install_one_ok [OF t(2), of m recovering] f nQ room' dev ne by auto
  have "?Q - {lh_block s m} = P - lh_block s ` {..<Suc m}" by (auto simp: less_Suc_eq)
  then show ?case using t(1) u wrote_all_trans [OF t(3) u(3)] by (simp add: home_writes_def)
qed

section \<open>Transactions\<close>

definition pins :: "'a lstate_scheme \<Rightarrow> uint32 set" where
  "pins s = lh_block s ` {..<nat (lh_n s)}"

definition log_area :: "'a lstate_scheme \<Rightarrow> uint32 set" where
  "log_area s = (\<lambda>j. l_start s + of_nat j) ` {..<nat (l_size s)}"

text \<open>
  A transaction in progress, its running thread holding the buffers \<open>H\<close>: the blocks in the
  in-memory header are distinct, outside the log, and are the pinned ones.
\<close>

definition in_tx :: "nat set \<Rightarrow> 'a lstate_scheme \<Rightarrow> bool" where
  "in_tx H s \<longleftrightarrow>
     l_dev s = ROOTDEV \<and> 0 \<le> lh_n s \<and> lh_n s < l_size s \<and> l_size s \<le> LOGSIZE \<and>
     inj_on (lh_block s) {..<nat (lh_n s)} \<and> pins s \<inter> log_area s = {} \<and> held H (pins s) s"

lemma log_pos_inj: "i < 100 \<Longrightarrow> j < 100 \<Longrightarrow> (a :: uint32) + of_nat i = a + of_nat j \<longleftrightarrow> i = j"
proof
  assume ij: "i < 100" "j < 100" and "a + of_nat i = a + of_nat j"
  then have "unat (of_nat i :: uint32) = unat (of_nat j :: uint32)" by simp
  then show "i = j" using ij by (simp add: unat_of_nat)
qed simp

lemma in_txD:
  assumes "in_tx H s" "i \<le> nat (lh_n s)"
  shows "l_start s + of_nat i \<notin> pins s" "card (pins s) < NBUF" "nat (lh_n s) < 30"
proof -
  have n: "nat (lh_n s) < 30" "i < nat (l_size s)" using assms by (auto simp: in_tx_def LOGSIZE_def)
  then have "l_start s + of_nat i \<in> log_area s" by (auto simp: log_area_def)
  then show "l_start s + of_nat i \<notin> pins s" using assms by (auto simp: in_tx_def)
  show "nat (lh_n s) < 30" using n by simp
  have "card (pins s) \<le> nat (lh_n s)" unfolding pins_def using card_image_le [of "{..<nat (lh_n s)}" "lh_block s"] by simp
  then show "card (pins s) < NBUF" using n by (simp add: NBUF_def)
qed

lemma log_pos_Suc: "l_start s + of_nat i + 1 = l_start s + of_nat (Suc i)"
  by simp

definition head1 :: "'a lstate_scheme \<Rightarrow> block" where
  "head1 s = put_head (lh_n s) (lh_block s) (view s (l_start s))"

definition head0 :: "'a lstate_scheme \<Rightarrow> block" where
  "head0 s = put_head 0 (lh_block s) (head1 s)"

definition data_writes :: "nat \<Rightarrow> 'a lstate_scheme \<Rightarrow> (uint32 \<times> block) list" where
  "data_writes m s = map (\<lambda>i. (lh_block s i, view s (lh_block s i))) [0..<m]"

definition commit_writes :: "'a lstate_scheme \<Rightarrow> (uint32 \<times> block) list" where
  "commit_writes s =
     log_writes (nat (lh_n s)) s @ [(l_start s, head1 s)] @ data_writes (nat (lh_n s)) s @ [(l_start s, head0 s)]"

lemma log_writes_fst:
  assumes "in_tx H s" "m \<le> nat (lh_n s)"
  shows "l_start s \<notin> fst ` set (log_writes m s)" "b \<in> pins s \<Longrightarrow> b \<notin> fst ` set (log_writes m s)"
    "b \<notin> log_area s \<Longrightarrow> b \<notin> fst ` set (log_writes m s)"
proof -
  have "l_start s + of_nat (Suc i) \<noteq> l_start s + of_nat 0" if "i < m" for i
    using log_pos_inj [of "Suc i" 0 "l_start s"] that assms(2) in_txD(3) [OF assms] by simp
  then show "l_start s \<notin> fst ` set (log_writes m s)" by (auto simp: log_writes_def) (metis add.commute)
  have *: "l_start s + of_nat (Suc i) \<in> log_area s" if "i < m" for i
    using that assms unfolding log_area_def by (intro image_eqI [OF refl]) (auto simp: in_tx_def)
  have mem: "b \<in> fst ` set (log_writes m s) \<longleftrightarrow> (\<exists>i<m. b = l_start s + of_nat (Suc i))"
    by (auto simp: log_writes_def image_image ac_simps)
  show "b \<in> pins s \<Longrightarrow> b \<notin> fst ` set (log_writes m s)" "b \<notin> log_area s \<Longrightarrow> b \<notin> fst ` set (log_writes m s)"
    unfolding mem using * assms(1) by (auto simp: in_tx_def)
qed

lemma log_writes_get:
  assumes "in_tx H s" "i < nat (lh_n s)"
  shows "apply_writes (log_writes (nat (lh_n s)) s) f (l_start s + of_nat i + 1) = view s (lh_block s i)"
proof -
  have "inj_on (\<lambda>i. l_start s + of_nat i + 1) {..<nat (lh_n s)}"
    using in_txD(3) [OF assms(1), of 0] log_pos_inj [of _ _ "l_start s"] by (intro inj_onI) auto
  from apply_writes_map [OF assms(2) this] show ?thesis by (simp add: log_writes_def)
qed

lemma commit_ok:
  assumes t: "in_tx {} s" and pos: "0 < lh_n s"
  shows "\<exists>s'. commit s = Ret s' \<and> held {} {} s' \<and> wrote_all (commit_writes s) (s\<lparr>lh_n := 0\<rparr>) s'"
proof -
  let ?n = "nat (lh_n s)"
  have dev: "l_dev s = ROOTDEV" and h: "held {} (pins s) s" and inj: "inj_on (lh_block s) {..<?n}"
    using t by (auto simp: in_tx_def)
  have pin: "lh_block s i \<in> pins s" if "i < ?n" for i using that by (simp add: pins_def)
  have pos_out: "l_start s + of_nat i + 1 \<notin> pins s" if "i < ?n" for i
    using in_txD(1) [OF t, of "Suc i"] that by (simp add: ac_simps)
  have start_out: "l_start s \<notin> pins s" using in_txD(1) [OF t, of 0] by simp
  note room = in_txD(2) [OF t, of 0, simplified]
  obtain s1 where 1: "write_log s = Ret s1" "held {} (pins s) s1" "wrote_all (log_writes ?n s) s s1"
    using write_loop_ok [OF h room dev pin pos_out] by (auto simp: write_log_def)
  note f1 = wrote_all_fields [OF 1(3)]
  have "view s1 (l_start s) = view s (l_start s)"
    using 1(3) log_writes_fst(1) [OF t, of ?n] by (simp add: wrote_all_def apply_writes_other)
  then obtain s2 where 2: "write_head s1 = Ret s2" "held {} (pins s) s2" "wrote (l_start s) (head1 s) s1 s2"
    using write_head_ok [OF 1(2)] start_out room dev f1 by (auto simp: head1_def)
  from 1(3) 2(3) have w2: "wrote_all (log_writes ?n s @ [(l_start s, head1 s)]) s s2" by (rule wrote_all_trans)
  note f2 = wrote_all_fields [OF w2]
  have v2: "view s2 (l_start s + of_nat i + 1) = view s (lh_block s i)" if "i < ?n" for i
    using w2 log_writes_get [OF t that] log_pos_inj [of "Suc i" 0 "l_start s"] that in_txD(3) [OF t, of 0]
    by (auto simp: wrote_all_def ac_simps)
  have it: "install_trans False s2 = foldM (install_one False) [0..<?n] s2" by (simp add: install_trans_def f2)
  have e: "pins s - lh_block s2 ` {..<?n} = {}" by (simp add: pins_def f2)
  have "\<exists>s3. foldM (install_one False) [0..<?n] s2 = Ret s3 \<and>
      held {} (pins s - lh_block s2 ` {..<?n}) s3 \<and> wrote_all (home_writes ?n s2) s2 s3"
  proof (rule install_loop_ok [OF 2(2)])
    show "l_dev s2 = ROOTDEV" "1 + card (pins s) < NBUF \<or> \<not> False \<and> card (pins s) < NBUF"
      "False \<or> inj_on (lh_block s2) {..<?n}" using dev room inj by (simp_all add: f2)
    show "(lh_block s2 i \<in> pins s) = (\<not> False)" "l_start s2 + of_nat i + 1 \<notin> pins s" if "i < ?n" for i
      using pin [OF that] pos_out [OF that] by (simp_all add: f2)
    show "lh_block s2 i \<noteq> l_start s2 + of_nat j + 1" if "i < ?n" "j < ?n" for i j
      unfolding f2 using pin [OF that(1)] pos_out [OF that(2)] by metis
  qed
  then obtain s3 where 3: "install_trans False s2 = Ret s3" "held {} {} s3" "wrote_all (home_writes ?n s2) s2 s3"
    unfolding e it by blast
  have "home_writes ?n s2 = data_writes ?n s"
    using v2 by (auto simp: home_writes_def data_writes_def f2)
  then have w3: "wrote_all ((log_writes ?n s @ [(l_start s, head1 s)]) @ data_writes ?n s) s s3"
    using wrote_all_append [OF w2] 3(3) by simp
  note f3 = wrote_all_fields [OF w3]
  have "l_start s \<notin> fst ` set (data_writes ?n s)" using start_out by (auto simp: data_writes_def pins_def)
  then have "view s3 (l_start s) = head1 s" using w3 by (simp add: wrote_all_def apply_writes_other)
  moreover obtain s4 where "write_head (s3\<lparr>lh_n := 0\<rparr>) = Ret s4" "held {} {} s4"
      "wrote (l_start s) (put_head 0 (lh_block s) (view s3 (l_start s))) (s3\<lparr>lh_n := 0\<rparr>) s4"
    using write_head_ok [of "{}" "s3\<lparr>lh_n := 0\<rparr>"] 3(2) f3 dev by (auto simp: NBUF_def)
  moreover have "bstate.more (s3\<lparr>lh_n := 0\<rparr>) = bstate.more (s\<lparr>lh_n := 0\<rparr>)"
    using w3 by (cases s; cases s3) (simp add: wrote_all_def)
  ultimately show ?thesis
    using 1(1) 2(1) 3(1) pos w3 unfolding commit_def commit_writes_def
    by (intro exI [of _ s4]) (simp add: wrote_all_def wrote_def head0_def)
qed

section \<open>Recovery\<close>

text \<open>What a log header and log blocks on disk \<open>d\<close> ask recovery to install.\<close>

definition redo :: "uint32 \<Rightarrow> (uint32 \<Rightarrow> block) \<Rightarrow> (uint32 \<times> block) list" where
  "redo start d =
     map (\<lambda>i. (get32 (d start) (4 + 4 * i), d (start + of_nat i + 1))) [0..<nat (sint (get32 (d start) 0))]"

lemma initlog_ok:
  assumes h: "held {} {} r"
    and D: "\<And>i j. i < nat (sint (get32 (blk r start) 0)) \<Longrightarrow> j < nat (sint (get32 (blk r start) 0)) \<Longrightarrow>
      get32 (blk r start) (4 + 4 * i) \<noteq> start + of_nat j + 1"
  shows "\<exists>r'. initlog ROOTDEV start nlog r = Ret r' \<and> held {} {} r' \<and> lh_n r' = 0 \<and>
           l_start r' = start \<and> l_size r' = nlog \<and> l_dev r' = ROOTDEV \<and> view r' = blk r' \<and>
           get32 (blk r' start) 0 = 0 \<and>
           (\<forall>b. b \<noteq> start \<longrightarrow> blk r' b = apply_writes (redo start (blk r)) (blk r) b)"
proof -
  let ?n = "nat (sint (get32 (blk r start) 0))"
  define r0 where "r0 = r\<lparr>l_start := start, l_size := nlog, l_dev := ROOTDEV\<rparr>"
  have clean: "view r = blk r" using held_clean [OF h] by auto
  have 0: "held {} {} r0" "view r0 = blk r" "blk r0 = blk r" "l_start r0 = start" "l_dev r0 = ROOTDEV" "l_size r0 = nlog"
    using h clean by (simp_all add: r0_def)
  obtain r1 where 1: "read_head r0 = Ret r1" "held {} {} r1" "view r1 = blk r" "blk r1 = blk r" "l_start r1 = start"
      "l_dev r1 = ROOTDEV" "l_size r1 = nlog" "nat (lh_n r1) = ?n"
      "\<forall>i<?n. lh_block r1 i = get32 (blk r start) (4 + 4 * i)"
    using read_head_ok [OF 0(1)] 0 by (auto simp: NBUF_def)
  have "\<exists>r2. foldM (install_one True) [0..<?n] r1 = Ret r2 \<and>
      held {} ({} - lh_block r1 ` {..<?n}) r2 \<and> wrote_all (home_writes ?n r1) r1 r2"
  proof (rule install_loop_ok [OF 1(2)])
    show "lh_block r1 i \<noteq> l_start r1 + of_nat j + 1" if "i < ?n" "j < ?n" for i j
      using D [OF that] 1(5,9) that by auto
  qed (use 1 in \<open>simp_all add: NBUF_def\<close>)
  then obtain r2 where 2: "install_trans True r1 = Ret r2" "held {} {} r2" "wrote_all (home_writes ?n r1) r1 r2"
    using 1(8) by (auto simp: install_trans_def)
  note f2 = wrote_all_fields [OF 2(3)]
  have hw: "home_writes ?n r1 = redo start (blk r)"
    using 1 by (auto simp: home_writes_def redo_def)
  have "held {} {} (r2\<lparr>lh_n := 0\<rparr>)" "l_start (r2\<lparr>lh_n := 0\<rparr>) \<notin> {}" "card ({} :: uint32 set) < NBUF"
      "l_dev (r2\<lparr>lh_n := 0\<rparr>) = ROOTDEV"
    using 2(2) f2 1 by (simp_all add: NBUF_def)
  from write_head_ok [OF this] obtain r3 where 3: "write_head (r2\<lparr>lh_n := 0\<rparr>) = Ret r3" "held {} {} r3"
      "wrote start (put_head 0 (lh_block r2) (view r2 start)) (r2\<lparr>lh_n := 0\<rparr>) r3"
    using f2 1 by auto
  note f3 = log_fields [of r3 "r2\<lparr>lh_n := 0\<rparr>"]
  have "initlog ROOTDEV start nlog r = Ret r3"
    using 1(1) 2(1) 3(1) by (simp add: initlog_def recover_from_log_def r0_def LOGSIZE_def BSIZE_def)
  moreover have "blk r3 = (apply_writes (redo start (blk r)) (blk r))(start := put_head 0 (lh_block r2) (view r2 start))"
    using 3(3) 2(3) hw 1(4) by (simp add: wrote_def wrote_all_def)
  moreover have "get32 (put_head 0 (lh_block r2) (view r2 start)) 0 = 0"
    using put_head_get(1) [of 0 "view r2 start"] held_length(1) [OF 2(2), of start] by (simp add: BSIZE_def)
  moreover have "lh_n r3 = 0 \<and> l_start r3 = start \<and> l_size r3 = nlog \<and> l_dev r3 = ROOTDEV"
    using f3 3(3) f2 1 by (simp add: wrote_def)
  moreover have "view r3 = blk r3" using held_clean [OF 3(2)] by auto
  ultimately show ?thesis using 3(2) by (intro exI [of _ r3]) simp
qed

section \<open>Crashes during commit\<close>

lemma redo_empty: "get32 (d start) 0 = 0 \<Longrightarrow> redo start d = []"
  by (simp add: redo_def)

lemma head1_get:
  assumes "in_tx H s"
  shows "sint (get32 (head1 s) 0) = lh_n s" "i < nat (lh_n s) \<Longrightarrow> get32 (head1 s) (4 + 4 * i) = lh_block s i"
    "get32 (head0 s) 0 = 0"
proof -
  have l: "length (view s (l_start s)) = BSIZE" using assms held_length(1) by (auto simp: in_tx_def)
  have n: "0 \<le> lh_n s" "lh_n s < 30" using assms by (auto simp: in_tx_def LOGSIZE_def)
  have "4 + 4 * nat (lh_n s) \<le> length (view s (l_start s))" using n l by (simp add: BSIZE_def)
  note g = put_head_get [OF this, where f = "lh_block s"]
  have "sint (word_of_int (lh_n s) :: uint32) = lh_n s"
    using n by (simp add: sint_sbintrunc' signed_take_bit_int_eq_self)
  then show "sint (get32 (head1 s) 0) = lh_n s" using g(1) by (simp add: head1_def)
  show "i < nat (lh_n s) \<Longrightarrow> get32 (head1 s) (4 + 4 * i) = lh_block s i" using g(2) by (simp add: head1_def)
  show "get32 (head0 s) 0 = 0"
    using put_head_get(1) [of 0 "head1 s"] l by (simp add: head0_def head1_def BSIZE_def)
qed

lemma data_writes_get:
  assumes t: "in_tx H s" and f: "b \<notin> pins s \<Longrightarrow> f b = view s b"
  shows "apply_writes (data_writes (nat (lh_n s)) s) f b = view s b"
proof (cases "b \<in> pins s")
  case True
  then obtain i where "i < nat (lh_n s)" "b = lh_block s i" by (auto simp: pins_def)
  then show ?thesis using apply_writes_map [of i _ "lh_block s"] t by (simp add: data_writes_def in_tx_def)
next
  case False
  then have "b \<notin> fst ` set (data_writes (nat (lh_n s)) s)" by (auto simp: data_writes_def pins_def)
  then show ?thesis using f [OF False] by (simp add: apply_writes_other)
qed

lemma data_writes_fst: "m \<le> nat (lh_n s) \<Longrightarrow> fst ` set (data_writes m s) \<subseteq> pins s"
  by (auto simp: data_writes_def pins_def)

text \<open>The three stages at which a crash can find the disk.\<close>

lemma commit_prefix:
  fixes s :: "'a lstate_scheme"
  defines "n \<equiv> nat (lh_n s)"
  shows "(\<exists>j\<le>n. take k (commit_writes s) = log_writes j s) \<or>
     (\<exists>j\<le>n. take k (commit_writes s) = log_writes n s @ [(l_start s, head1 s)] @ data_writes j s) \<or>
     take k (commit_writes s) = commit_writes s"
proof -
  have len: "length (log_writes n s) = n" "length (data_writes n s) = n"
    by (simp_all add: log_writes_def data_writes_def)
  have tk: "take j (log_writes n s) = log_writes (min j n) s" "take j (data_writes n s) = data_writes (min j n) s" for j
    by (auto simp: log_writes_def data_writes_def take_map min_def)
  consider "k \<le> n" | "n < k" "k \<le> 2 * n + 1" | "2 * n + 1 < k" by linarith
  then show ?thesis
  proof cases
    case 1
    then have "take k (commit_writes s) = log_writes k s"
      using len tk [of k] by (simp add: commit_writes_def min_def flip: n_def)
    then show ?thesis using 1 by auto
  next
    case 2
    define j where "j = k - Suc n"
    then have j: "k = Suc n + j" "j \<le> n" using 2 by auto
    then have "take k (commit_writes s) = log_writes n s @ [(l_start s, head1 s)] @ data_writes j s"
      using len tk(2) [of j] by (simp add: commit_writes_def min_def flip: n_def)
    then show ?thesis using j by auto
  next
    case 3
    then show ?thesis using len by (simp add: commit_writes_def flip: n_def)
  qed
qed

lemma in_tx_clean: "in_tx {} s \<Longrightarrow> b \<notin> pins s \<Longrightarrow> view s b = blk s b"
  using held_clean [of "{}" "pins s" s b] by (simp add: in_tx_def)

lemma start_in_area: "in_tx H s \<Longrightarrow> l_start s \<in> log_area s"
  unfolding log_area_def in_tx_def by (intro image_eqI [of _ _ 0]) auto

text \<open>A disk that holds the committed header: recovery installs every logged block.\<close>

lemma redo_committed:
  fixes s :: "'a lstate_scheme"
  assumes t: "in_tx {} s" and j: "j \<le> nat (lh_n s)"
  defines "d \<equiv> apply_writes (log_writes (nat (lh_n s)) s @ [(l_start s, head1 s)] @ data_writes j s) (blk s)"
  shows "redo (l_start s) d = data_writes (nat (lh_n s)) s" "d (l_start s) = head1 s"
    "b \<notin> log_area s \<Longrightarrow> apply_writes (redo (l_start s) d) d b = view s b"
proof -
  let ?n = "nat (lh_n s)"
  have start_out: "l_start s \<notin> fst ` set (data_writes j s)"
    using data_writes_fst [OF j] in_txD(1) [OF t, of 0] by auto
  then show ds: "d (l_start s) = head1 s" by (simp add: d_def apply_writes_other)
  have dl: "d (l_start s + of_nat i + 1) = view s (lh_block s i)" if "i < ?n" for i
  proof -
    have "l_start s + of_nat i + 1 \<notin> fst ` set (data_writes j s)"
      using data_writes_fst [OF j] in_txD(1) [OF t, of "Suc i"] that by (auto simp: ac_simps)
    moreover have "l_start s + of_nat i + 1 \<noteq> l_start s"
      using log_pos_inj [of "Suc i" 0 "l_start s"] that in_txD(3) [OF t, of 0] by (auto simp: ac_simps)
    ultimately show ?thesis using log_writes_get [OF t that, of "blk s"] by (simp add: d_def apply_writes_other)
  qed
  show r: "redo (l_start s) d = data_writes ?n s"
    using dl head1_get(1,2) [OF t] by (simp add: redo_def data_writes_def ds)
  have "d b = view s b" if "b \<notin> log_area s" "b \<notin> pins s" for b
  proof -
    have "b \<noteq> l_start s" using start_in_area [OF t] that by auto
    moreover have "b \<notin> fst ` set (data_writes j s)" using data_writes_fst [OF j] that by blast
    ultimately have "d b = blk s b"
      using log_writes_fst(3) [OF t order_refl that(1)] by (simp add: d_def apply_writes_other)
    then show ?thesis using in_tx_clean [OF t that(2)] by simp
  qed
  then show "b \<notin> log_area s \<Longrightarrow> apply_writes (redo (l_start s) d) d b = view s b"
    unfolding r by (intro data_writes_get [OF t])
qed

lemma redo_uncommitted:
  fixes s :: "'a lstate_scheme"
  assumes t: "in_tx {} s" and j: "j \<le> nat (lh_n s)" and z: "get32 (blk s (l_start s)) 0 = 0"
  defines "d \<equiv> apply_writes (log_writes j s) (blk s)"
  shows "redo (l_start s) d = []" "get32 (d (l_start s)) 0 = 0" "b \<notin> log_area s \<Longrightarrow> d b = blk s b"
proof -
  show "get32 (d (l_start s)) 0 = 0"
    using log_writes_fst(1) [OF t j] z by (simp add: d_def apply_writes_other)
  then show "redo (l_start s) d = []" by (rule redo_empty)
  show "b \<notin> log_area s \<Longrightarrow> d b = blk s b"
    using log_writes_fst(3) [OF t j] by (simp add: d_def apply_writes_other)
qed

lemma redo_erased:
  fixes s :: "'a lstate_scheme"
  assumes t: "in_tx {} s"
  defines "d \<equiv> apply_writes (commit_writes s) (blk s)"
  shows "redo (l_start s) d = []" "get32 (d (l_start s)) 0 = 0" "b \<notin> log_area s \<Longrightarrow> d b = view s b"
proof -
  let ?n = "nat (lh_n s)"
  let ?e = "apply_writes (log_writes ?n s @ [(l_start s, head1 s)] @ data_writes 0 s) (blk s)"
  have d: "d = (apply_writes (data_writes ?n s) ?e)(l_start s := head0 s)"
    by (simp add: d_def commit_writes_def data_writes_def)
  show "get32 (d (l_start s)) 0 = 0" using head1_get(3) [OF t] by (simp add: d)
  then show "redo (l_start s) d = []" by (rule redo_empty)
  show "d b = view s b" if "b \<notin> log_area s"
  proof -
    have "b \<noteq> l_start s" using start_in_area [OF t] that by auto
    then show ?thesis using redo_committed(1,3) [OF t, of 0] that by (simp add: d)
  qed
qed

section \<open>Adding a block to the transaction\<close>

lemma absorb_old: "n \<in> pins s \<Longrightarrow> absorb n s < nat (lh_n s) \<and> lh_block s (absorb n s) = n"
proof -
  assume "n \<in> pins s"
  then have "find (\<lambda>i. lh_block s i = n) [0..<nat (lh_n s)] \<noteq> None" by (auto simp: find_None_iff pins_def)
  then obtain i where i: "find (\<lambda>i. lh_block s i = n) [0..<nat (lh_n s)] = Some i" by blast
  then show ?thesis using find_SomeD [OF i] by (simp add: absorb_def)
qed

lemma absorb_new: "n \<notin> pins s \<Longrightarrow> absorb n s = nat (lh_n s)"
proof -
  assume "n \<notin> pins s"
  then have "find (\<lambda>i. lh_block s i = n) [0..<nat (lh_n s)] = None" by (auto simp: find_None_iff pins_def)
  then show ?thesis by (simp add: absorb_def)
qed

lemma log_write_old:
  assumes "b_blockno (bufs s b) \<in> pins s" "lh_n s < LOGSIZE" "lh_n s < l_size s - 1" "1 \<le> outstanding s"
  shows "log_write b s = Ret s"
  using absorb_old [OF assms(1)] assms by (simp add: log_write_def Let_def fun_upd_idem)

lemma log_write_new:
  assumes "b_blockno (bufs s b) \<notin> pins s" "lh_n s < LOGSIZE" "lh_n s < l_size s - 1" "1 \<le> outstanding s"
  shows "log_write b s = Ret ((bpin b s)\<lparr>lh_n := lh_n s + 1,
           lh_block := (lh_block s)(nat (lh_n s) := b_blockno (bufs s b))\<rparr>)"
  using absorb_new [OF assms(1)] assms by (simp add: log_write_def Let_def bpin_def upd_buf_def)

lemma in_tx_log_write:
  assumes t: "in_tx H s" and b: "b \<in> H" "b_blockno (bufs s b) \<notin> log_area s"
    and room: "lh_n s < l_size s - 1" "1 \<le> outstanding s"
  shows "\<exists>s'. log_write b s = Ret s' \<and> in_tx H s' \<and> view s' = view s \<and> blk s' = blk s \<and> dtrace s' = dtrace s \<and>
     pins s' = insert (b_blockno (bufs s b)) (pins s) \<and> lh_n s' \<le> lh_n s + 1 \<and> outstanding s' = outstanding s \<and>
     l_size s' = l_size s \<and> l_start s' = l_start s \<and> mypid s' = mypid s \<and>
     (\<forall>c. b_data (bufs s' c) = b_data (bufs s c) \<and> b_blockno (bufs s' c) = b_blockno (bufs s c))"
proof (cases "b_blockno (bufs s b) \<in> pins s")
  case True
  then show ?thesis using log_write_old [OF True] room t by (auto simp: in_tx_def insert_absorb)
next
  case False
  let ?n = "b_blockno (bufs s b)" and ?k = "nat (lh_n s)"
  let ?s = "(bpin b s)\<lparr>lh_n := lh_n s + 1, lh_block := (lh_block s)(?k := ?n)\<rparr>"
  have lw: "log_write b s = Ret ?s" using log_write_new [OF False] room t by (simp add: in_tx_def)
  have h: "held H (pins s) s" and n: "0 \<le> lh_n s" "inj_on (lh_block s) {..<?k}" using t by (auto simp: in_tx_def)
  have lim: "{..<nat (lh_n s + 1)} = insert ?k {..<?k}" using n by auto
  have inj: "inj_on ((lh_block s)(?k := ?n)) {..<nat (lh_n s + 1)}"
    using inj_on_fun_updI [OF n(2), of ?n ?k] False unfolding lim inj_on_insert
    by (simp add: pins_def fun_upd_image)
  have "{..<?k} \<inter> {x. x \<noteq> ?k} = {..<?k}" by auto
  then have p: "pins ?s = insert ?n (pins s)" unfolding pins_def by (simp add: lim)
  have "held H (insert ?n (pins s)) ?s" "view ?s = view s"
    using held_bpin [OF h b(1) False] by simp_all
  moreover have "log_area ?s = log_area s" by (simp add: log_area_def bpin_def)
  ultimately have "in_tx H ?s"
    using t b(2) inj p room by (auto simp: in_tx_def bpin_def)
  then show ?thesis using lw \<open>view ?s = view s\<close> p by (intro exI [of _ ?s]) (simp add: bpin_def)
qed

text \<open>The typical use of the log, as the comment before \<open>log_write\<close> has it.\<close>

definition update_block :: "uint32 \<Rightarrow> (block \<Rightarrow> block) \<Rightarrow> 'a lstate_scheme \<Rightarrow> 'a lstate_scheme res" where
  "update_block n f s =
     seq (bread (l_dev s) n s) (\<lambda>(b, s).
     seq (log_write b (set_data b (f (b_data (bufs s b))) s)) (\<lambda>s. brelse b s))"

lemma in_tx_bread:
  assumes t: "in_tx H s" and n: "\<And>b. b \<in> H \<Longrightarrow> b_blockno (bufs s b) \<noteq> n"
    and room: "n \<in> pins s \<or> card H + card (pins s) < NBUF"
  shows "\<exists>b r. bread ROOTDEV n s = Ret (b, upd_buf b (taken s n r) s) \<and> b \<notin> H \<and>
    in_tx (insert b H) (upd_buf b (taken s n r) s) \<and> view (upd_buf b (taken s n r) s) = view s"
proof -
  have "held H (pins s) s" using t by (simp add: in_tx_def)
  from held_bread [OF this n room] obtain b r where
    1: "bread ROOTDEV n s = Ret (b, upd_buf b (taken s n r) s)" "b \<notin> H"
      "held (insert b H) (pins s) (upd_buf b (taken s n r) s)" "view (upd_buf b (taken s n r) s) = view s" by auto
  have "pins (upd_buf b (taken s n r) s) = pins s" "log_area (upd_buf b (taken s n r) s) = log_area s"
    by (simp_all add: pins_def log_area_def)
  then show ?thesis using 1 t by (intro exI [of _ b] exI [of _ r]) (simp add: in_tx_def)
qed

lemma in_tx_same_more:
  "bstate.more s' = bstate.more s \<Longrightarrow> held H' (pins s) s' \<Longrightarrow> in_tx H s \<Longrightarrow> in_tx H' s'"
  using log_fields [of s' s] by (simp add: in_tx_def pins_def log_area_def)

lemma in_tx_set_data:
  assumes t: "in_tx H s" and b: "b \<in> H" and l: "length d = BSIZE"
  shows "in_tx H (set_data b d s)" "view (set_data b d s) = (view s)(b_blockno (bufs s b) := d)"
    "pins (set_data b d s) = pins s" "log_area (set_data b d s) = log_area s"
    "lh_n (set_data b d s) = lh_n s" "l_size (set_data b d s) = l_size s" "outstanding (set_data b d s) = outstanding s"
proof -
  have h: "held H (pins s) s" using t by (simp add: in_tx_def)
  show "in_tx H (set_data b d s)"
    using in_tx_same_more [OF set_data_simps(4)] held_set_data(1) [OF h b l] t by blast
  show "view (set_data b d s) = (view s)(b_blockno (bufs s b) := d)" by (rule held_set_data(2) [OF h b l])
qed (simp_all add: pins_def log_area_def set_data_def)

lemma in_tx_brelse:
  assumes t: "in_tx H s" and b: "b \<in> H"
    and clean: "b_blockno (bufs s b) \<in> pins s \<or> b_data (bufs s b) = blk s (b_blockno (bufs s b))"
  shows "\<exists>s'. brelse b s = Ret s' \<and> in_tx (H - {b}) s' \<and> view s' = view s \<and> blk s' = blk s \<and>
    dtrace s' = dtrace s \<and> mypid s' = mypid s \<and> bstate.more s' = bstate.more s \<and>
    (\<forall>c. c \<noteq> b \<longrightarrow> same_slot (bufs s' c) (bufs s c))"
proof -
  have h: "held H (pins s) s" using t by (simp add: in_tx_def)
  from held_brelse [OF h b clean] obtain s' where
    1: "brelse b s = Ret s'" "held (H - {b}) (pins s) s'" "view s' = view s" "blk s' = blk s"
      "dtrace s' = dtrace s" "mypid s' = mypid s" "bstate.more s' = bstate.more s"
      "\<forall>c. c \<noteq> b \<longrightarrow> same_slot (bufs s' c) (bufs s c)" by auto
  then show ?thesis using in_tx_same_more [OF 1(7) 1(2) t] by blast
qed

lemma update_block_ok:
  assumes t: "in_tx {} s" and n: "n \<notin> log_area s" and f: "length (f (view s n)) = BSIZE"
    and o: "1 \<le> outstanding s" and room: "lh_n s < l_size s - 1"
  shows "\<exists>s'. update_block n f s = Ret s' \<and> in_tx {} s' \<and> view s' = (view s)(n := f (view s n)) \<and>
    pins s' = insert n (pins s) \<and> lh_n s' \<le> lh_n s + 1 \<and> outstanding s' = outstanding s \<and>
    l_size s' = l_size s \<and> l_start s' = l_start s \<and> blk s' = blk s"
proof -
  have dev: "l_dev s = ROOTDEV" using t by (simp add: in_tx_def)
  obtain b r where 1: "bread ROOTDEV n s = Ret (b, upd_buf b (taken s n r) s)"
      "in_tx {b} (upd_buf b (taken s n r) s)" "view (upd_buf b (taken s n r) s) = view s"
    using in_tx_bread [OF t, of n] in_txD(2) [OF t, of 0] by auto
  define s1 where "s1 = upd_buf b (taken s n r) s"
  have d1: "in_tx {b} s1" "b_data (bufs s1 b) = view s n" "b_blockno (bufs s1 b) = n" "view s1 = view s"
    using 1 by (simp_all add: s1_def)
  define s2 where "s2 = set_data b (f (b_data (bufs s1 b))) s1"
  have "length (f (b_data (bufs s1 b))) = BSIZE" using f d1(2) by simp
  note 2 = in_tx_set_data [OF d1(1) singletonI this, folded s2_def]
  have f1: "log_area s1 = log_area s" "lh_n s1 = lh_n s" "l_size s1 = l_size s" "outstanding s1 = outstanding s"
    "l_start s1 = l_start s" "pins s1 = pins s" "blk s1 = blk s"
    by (simp_all add: s1_def log_area_def pins_def)
  have f2: "l_start s2 = l_start s" "blk s2 = blk s" "b_blockno (bufs s2 b) = n" using f1 d1 by (simp_all add: s2_def) (simp add: set_data_def)
  have "b_blockno (bufs s2 b) \<notin> log_area s2" "lh_n s2 < l_size s2 - 1" "1 \<le> outstanding s2"
    using f2 n o room 2 f1 by simp_all
  from in_tx_log_write [OF 2(1) singletonI this] obtain s3 where
    3: "log_write b s2 = Ret s3" "in_tx {b} s3" "view s3 = view s2" "pins s3 = insert n (pins s2)"
      "lh_n s3 \<le> lh_n s2 + 1" "outstanding s3 = outstanding s2" "l_size s3 = l_size s2" "l_start s3 = l_start s2"
      "blk s3 = blk s2" "b_blockno (bufs s3 b) = n"
    using f2 by auto
  then obtain s4 where 4: "brelse b s3 = Ret s4" "in_tx {} s4" "view s4 = view s3" "blk s4 = blk s3"
      "bstate.more s4 = bstate.more s3"
    using in_tx_brelse [OF 3(2) singletonI] by auto
  have "pins s4 = pins s3" using log_fields [OF 4(5)] by (simp add: pins_def)
  moreover have "update_block n f s = Ret s4"
    using 1(1) 3(1) 4(1) dev unfolding update_block_def by (simp add: s2_def s1_def)
  ultimately show ?thesis using 3 4 log_fields [OF 4(5)] 2 f1 f2 d1 by (intro exI [of _ s4]) simp
qed

section \<open>Booting\<close>

lemma held_binit:
  assumes z: "\<forall>c. \<not> b_valid (bufs s c) \<and> b_dev (bufs s c) = 0 \<and> b_refcnt (bufs s c) = 0 \<and>
      b_lock (bufs s c) = initsleeplock \<and> length (b_data (bufs s c)) = BSIZE"
    and l: "\<forall>n. length (blk s n) = BSIZE"
  shows "held {} {} (binit s)" "view (binit s) = blk s" "blk (binit s) = blk s"
proof -
  have slot: "same_slot (bufs (binit s) c) (bufs s c)" for c using binit_slots(1) [of s c] z by simp
  have "b_refcnt (bufs (binit s) c) = 0 \<and> sl_locked (b_lock (bufs (binit s) c)) = 0" for c
    using slot [of c] z by (simp add: same_slot_def initsleeplock_def)
  then show "held {} {} (binit s)" using binit_ok [OF z l] by (auto simp: held_def refs_def)
  show "view (binit s) = blk s" using binit_ok [OF z l] by simp
  show "blk (binit s) = blk s" using binit_slots(2) [of s] z by simp
qed

lemma binit_log [simp]:
  "l_start (binit s) = l_start s" "l_size (binit s) = l_size s" "outstanding (binit s) = outstanding s"
  "committing (binit s) = committing s" "l_dev (binit s) = l_dev s" "lh_n (binit s) = lh_n s"
proof -
  have "bstate.more (fold (\<lambda>b s. lru_insert b (upd_buf b (b_lock_update (\<lambda>_. initsleeplock)) s)) bs t) = bstate.more t"
    for bs and t :: "'a lstate_scheme" by (induction bs arbitrary: t) simp_all
  then have "bstate.more (binit s) = bstate.more s" by (simp add: binit_def Let_def)
  from log_fields [OF this]
  show "l_start (binit s) = l_start s" "l_size (binit s) = l_size s" "outstanding (binit s) = outstanding s"
    "committing (binit s) = committing s" "l_dev (binit s) = l_dev s" "lh_n (binit s) = lh_n s" by simp_all
qed

definition boot_log :: lstate where
  "boot_log = binit \<lparr>bufs = (\<lambda>_. zero_buf), blk = (\<lambda>_. replicate BSIZE 0), dtrace = [], mypid = 1,
     l_start = 2, l_size = 30, outstanding = 0, committing = False, l_dev = ROOTDEV, lh_n = 0, lh_block = (\<lambda>_. 0)\<rparr>"

lemma boot_log_tx:
  "in_tx {} boot_log" "blk boot_log = (\<lambda>_. replicate BSIZE 0)" "l_size boot_log = LOGSIZE" "lh_n boot_log = 0"
  "outstanding boot_log = 0" "\<not> committing boot_log" "l_start boot_log = 2"
proof -
  show "blk boot_log = (\<lambda>_. replicate BSIZE 0)" unfolding boot_log_def by (subst held_binit) (simp_all add: zero_buf_def)
  have "held {} {} boot_log" unfolding boot_log_def by (rule held_binit) (simp_all add: zero_buf_def)
  then show "in_tx {} boot_log" by (simp add: in_tx_def pins_def boot_log_def LOGSIZE_def)
qed (simp_all add: boot_log_def LOGSIZE_def)

lemma in_tx_outstanding [simp]: "in_tx H (s\<lparr>outstanding := n\<rparr>) = in_tx H s"
  by (simp add: in_tx_def pins_def log_area_def)

lemma boot_log_area: "n \<in> {2 + 30..2 ^ 31} \<Longrightarrow> n \<notin> log_area boot_log"
proof
  assume n: "n \<in> {2 + 30..2 ^ 31}" and "n \<in> log_area boot_log"
  then obtain j where "j < 30" "n = 2 + of_nat j" by (auto simp: log_area_def boot_log_def)
  then have "unat n = 2 + j" by (simp add: unat_word_ariths unat_of_nat)
  then show False using n \<open>j < 30\<close> by (simp add: word_le_nat_alt)
qed

lemma boot_update_block:
  "\<exists>s. update_block 100 (\<lambda>_. replicate BSIZE 7) (boot_log\<lparr>outstanding := 1\<rparr>) = Ret s \<and> in_tx {} s \<and>
     view s 100 = replicate BSIZE 7 \<and> 0 < lh_n s \<and> blk s = (\<lambda>_. replicate BSIZE 0) \<and> l_start s = 2 \<and> l_size s = 30"
proof -
  let ?s = "boot_log\<lparr>outstanding := 1\<rparr>"
  have "100 \<notin> log_area ?s" using boot_log_area [of 100] by (simp add: log_area_def)
  moreover have "lh_n ?s < l_size ?s - 1" using boot_log_tx by (simp add: LOGSIZE_def)
  ultimately obtain s where s: "update_block 100 (\<lambda>_. replicate BSIZE 7) ?s = Ret s" "in_tx {} s"
      "view s = (view ?s)(100 := replicate BSIZE 7)" "pins s = insert 100 (pins ?s)" "l_size s = l_size ?s"
      "l_start s = l_start ?s" "blk s = blk ?s"
    using update_block_ok [of ?s 100 "\<lambda>_. replicate BSIZE 7"] boot_log_tx(1) by auto
  have "0 < lh_n s" using s(4) by (cases "lh_n s > 0") (auto simp: pins_def)
  then show ?thesis using s boot_log_tx by (intro exI [of _ s]) (simp add: LOGSIZE_def)
qed

section \<open>Atomicity and reservation\<close>

text \<open>
  C1. A transaction is atomic with respect to crashes. Let \<open>commit\<close> run on a transaction whose
  on-disk header is empty. It finishes with every block of the transaction in its home
  location. And if the machine stops after any number of the disk writes \<open>commit\<close> makes,
  then \<open>initlog\<close>, run at the next boot on the disk as it was left, succeeds, and outside
  the log the disk is either as it was before the transaction or as the transaction made it.
\<close>

theorem commit_crash_atomic:
  assumes "in_tx {} s" "0 < lh_n s" "get32 (blk s (l_start s)) 0 = 0"
  shows "\<exists>s'. commit s = Ret s' \<and> (\<forall>b. b \<notin> log_area s \<longrightarrow> blk s' b = view s b) \<and>
    (\<forall>k r. held {} {} r \<and> blk r = apply_writes (take k (drop (length (dtrace s)) (dtrace s'))) (blk s) \<longrightarrow>
       (\<exists>r'. initlog ROOTDEV (l_start s) (l_size s) r = Ret r' \<and>
          ((\<forall>b. b \<notin> log_area s \<longrightarrow> blk r' b = blk s b) \<or> (\<forall>b. b \<notin> log_area s \<longrightarrow> blk r' b = view s b))))"
proof -
  let ?n = "nat (lh_n s)" and ?start = "l_start s"
  obtain s' where c: "commit s = Ret s'" and w: "wrote_all (commit_writes s) (s\<lparr>lh_n := 0\<rparr>) s'"
    using commit_ok [OF assms(1,2)] by blast
  have "blk s' = apply_writes (commit_writes s) (blk s)" using w by (simp add: wrote_all_def)
  then have home: "\<forall>b. b \<notin> log_area s \<longrightarrow> blk s' b = view s b" using redo_erased(3) [OF assms(1)] by simp
  have tr: "drop (length (dtrace s)) (dtrace s') = commit_writes s" using w by (simp add: wrote_all_def)
  have "\<exists>r'. initlog ROOTDEV ?start (l_size s) r = Ret r' \<and>
      ((\<forall>b. b \<notin> log_area s \<longrightarrow> blk r' b = blk s b) \<or> (\<forall>b. b \<notin> log_area s \<longrightarrow> blk r' b = view s b))"
    if h: "held {} {} r" and d: "blk r = apply_writes (take k (commit_writes s)) (blk s)" for k r
  proof -
    have ne: "b \<noteq> ?start" if "b \<notin> log_area s" for b using start_in_area [OF assms(1)] that by auto
    have ok: ?thesis if z: "get32 (blk r ?start) 0 = 0"
      "(\<forall>b. b \<notin> log_area s \<longrightarrow> blk r b = blk s b) \<or> (\<forall>b. b \<notin> log_area s \<longrightarrow> blk r b = view s b)"
      using initlog_ok [OF h, of ?start "l_size s"] z redo_empty [of "blk r" ?start] ne by auto
    consider j where "j \<le> ?n" "take k (commit_writes s) = log_writes j s"
      | j where "j \<le> ?n" "take k (commit_writes s) = log_writes ?n s @ [(?start, head1 s)] @ data_writes j s"
      | "take k (commit_writes s) = commit_writes s"
      using commit_prefix [where k = k and s = s] by blast
    then show ?thesis
    proof cases
      case 1
      show ?thesis by (rule ok) (use redo_uncommitted [OF assms(1) 1(1) assms(3)] d 1(2) in auto)
    next
      case 2
      note r = redo_committed [OF assms(1) 2(1), folded 2(2), folded d]
      have "get32 (blk r ?start) (4 + 4 * i) \<noteq> ?start + of_nat j + 1" if "i < ?n" "j < ?n" for i j
      proof -
        have "lh_block s i \<in> pins s" using that(1) by (simp add: pins_def)
        moreover have "?start + of_nat j + 1 \<notin> pins s"
          using in_txD(1) [OF assms(1), of "Suc j"] that(2) by (simp add: ac_simps)
        ultimately show ?thesis using head1_get(2) [OF assms(1) that(1)] r(2) by metis
      qed
      moreover have "nat (sint (get32 (blk r ?start) 0)) = ?n" using head1_get(1) [OF assms(1)] r(2) by simp
      ultimately obtain r' where "initlog ROOTDEV ?start (l_size s) r = Ret r'"
          "\<forall>b. b \<noteq> ?start \<longrightarrow> blk r' b = apply_writes (redo ?start (blk r)) (blk r) b"
        using initlog_ok [OF h, of ?start "l_size s"] by metis
      then show ?thesis using r(3) ne by metis
    next
      case 3
      show ?thesis by (rule ok) (use redo_erased [OF assms(1)] d 3 in auto)
    qed
  qed
  then show ?thesis using c home tr by (intro exI [of _ s']) auto
qed

theorem commit_crash_atomic_witness:
  "\<exists>s s'. update_block 100 (\<lambda>_. replicate BSIZE 7) (boot_log\<lparr>outstanding := 1\<rparr>) = Ret s \<and>
     commit s = Ret s' \<and> blk s' 100 = replicate BSIZE 7"
proof -
  obtain s where s: "update_block 100 (\<lambda>_. replicate BSIZE 7) (boot_log\<lparr>outstanding := 1\<rparr>) = Ret s" "in_tx {} s"
      "view s 100 = replicate BSIZE 7" "0 < lh_n s" "blk s = (\<lambda>_. replicate BSIZE 0)" "l_start s = 2" "l_size s = 30"
    using boot_update_block by blast
  have "get32 (blk s (l_start s)) 0 = 0" by (simp add: s get32_def BSIZE_def)
  moreover have "100 \<notin> log_area s" using boot_log_area [of 100] s by (simp add: log_area_def boot_log_def)
  ultimately show ?thesis using commit_crash_atomic [OF s(2,4)] s(1,3) by metis
qed

lemma card_pins: "in_tx H s \<Longrightarrow> int (card (pins s)) = lh_n s"
  unfolding pins_def in_tx_def by (simp add: card_image)

lemma update_blocks_ok:
  assumes "in_tx {} s" "set ns \<inter> log_area s = {}" "length d = BSIZE" "1 \<le> outstanding s"
    and "distinct ns" "lh_n s = 0" "int (length ns) < l_size s"
  shows "\<exists>s'. foldM (\<lambda>n. update_block n (\<lambda>_. d)) ns s = Ret s' \<and> in_tx {} s' \<and> pins s' = set ns \<and>
     l_size s' = l_size s \<and> l_start s' = l_start s \<and> outstanding s' = outstanding s"
  using assms
proof (induction ns rule: rev_induct)
  case Nil
  then show ?case by (simp add: pins_def)
next
  case (snoc n ns)
  then obtain t where t: "foldM (\<lambda>n. update_block n (\<lambda>_. d)) ns s = Ret t" "in_tx {} t"
      "pins t = set ns" "l_size t = l_size s" "l_start t = l_start s" "outstanding t = outstanding s" by auto
  have la: "log_area t = log_area s" using t by (simp add: log_area_def)
  have "lh_n t < l_size t - 1"
    using snoc.prems(5,7) card_pins [OF t(2)] t(3,4) by (simp add: distinct_card)
  then show ?case using update_block_ok [OF t(2), of n "\<lambda>_. d"] snoc.prems la t by auto
qed

text \<open>
  C25. \<open>begin_op\<close> reserves \<open>MAXOPBLOCKS\<close> slots per operation out of \<open>LOGSIZE\<close>, but a log of
  \<open>LOGSIZE\<close> blocks, which \<open>mkfs\<close> makes, holds one block fewer beside its header. Three
  operations are admitted to an empty log; if together they update thirty distinct blocks,
  none more than its ten, the thirtieth update panics.
\<close>

theorem log_reservation_short:
  assumes "in_tx {} s" "l_size s = LOGSIZE" "lh_n s = 0" "outstanding s = 0" "\<not> committing s"
    and "distinct ns" "int (length ns) = 3 * MAXOPBLOCKS" "set ns \<inter> log_area s = {}" "length d = BSIZE"
  shows "seq (begin_op s) (\<lambda>s. seq (begin_op s) (\<lambda>s. seq (begin_op s)
           (foldM (\<lambda>n. update_block n (\<lambda>_. d)) ns))) = Panic ''too big a transaction''"
proof -
  let ?s = "s\<lparr>outstanding := 3\<rparr>"
  obtain ms n where ns: "ns = ms @ [n]" using assms(7) by (cases ns rule: rev_exhaust) (auto simp: MAXOPBLOCKS_def)
  then have lm: "length ms = 29" using assms(7) by (simp add: MAXOPBLOCKS_def)
  have "log_area ?s = log_area s" by (simp add: log_area_def)
  then obtain t where t: "foldM (\<lambda>n. update_block n (\<lambda>_. d)) ms ?s = Ret t" "in_tx {} t" "pins t = set ms"
      "l_size t = l_size s" "outstanding t = 3"
    using update_blocks_ok [of ?s ms d] assms ns lm by (auto simp: LOGSIZE_def)
  have dev: "l_dev t = ROOTDEV" using t(2) by (simp add: in_tx_def)
  have full: "lh_n t = 29" using card_pins [OF t(2)] t(3) assms(6) ns lm by (simp add: distinct_card)
  obtain b r where "bread ROOTDEV n t = Ret (b, upd_buf b (taken t n r) t)"
    using in_tx_bread [OF t(2), of n] in_txD(2) [OF t(2), of 0] by auto
  then have "update_block n (\<lambda>_. d) t = Panic ''too big a transaction''"
    using full t(4) assms(2) dev by (simp add: update_block_def log_write_def set_data_def LOGSIZE_def)
  then have "foldM (\<lambda>n. update_block n (\<lambda>_. d)) ns ?s = Panic ''too big a transaction''"
    using t(1) ns by simp
  then show ?thesis using assms(2-5) by (simp add: begin_op_def LOGSIZE_def MAXOPBLOCKS_def)
qed

theorem log_reservation_short_witness:
  "seq (begin_op boot_log) (\<lambda>s. seq (begin_op s) (\<lambda>s. seq (begin_op s)
     (foldM (\<lambda>n. update_block n (\<lambda>_. replicate BSIZE 1)) (map of_nat [100..<130])))) = Panic ''too big a transaction''"
proof (rule log_reservation_short)
  show "distinct (map of_nat [100..<130] :: uint32 list)"
    by (auto simp: distinct_map inj_on_def word_of_nat_eq_iff take_bit_nat_eq_self)
  show "set (map of_nat [100..<130]) \<inter> log_area boot_log = {}"
    using boot_log_area by (fastforce simp: word_le_nat_alt unat_of_nat)
qed (use boot_log_tx in \<open>simp_all add: MAXOPBLOCKS_def\<close>)

end
