(* ===== verification/Fs.thy ===== *)
theory Fs
  imports Vm Log
begin

text \<open>
  \<^verbatim>\<open>kernel/fs.c\<close>: blocks, inodes, directories and paths on top of the log, and the two copy
  functions \<open>either_copyout\<close> and \<open>either_copyin\<close> of \<^verbatim>\<open>kernel/proc.c\<close> they use. The state
  extends the log's by the superblock, the inode table, the physical memory and the fields of
  the running process (page table and working directory). A pointer to an inode is its index
  in the table; a pointer that may be null is an option. A name is its bytes up to the
  terminating zero. What is copied to a kernel address is collected in \<open>ToKernel\<close>.
  Spin-lock sections are one step. Reference counts of inodes are unbounded integers. The messages that
  \<open>balloc\<close> and \<open>ialloc\<close> print when nothing is left are not modelled, because the console is a later layer; their
  result 0 is. The theory holds the operations; the properties are in
  \<open>Fs_Blocks\<close>, \<open>Fs_Inodes\<close>, \<open>Fs_Paths\<close> and \<open>Fs_Dirs\<close>.
\<close>

section \<open>On-disk layout\<close>

definition ROOTINO :: uint32 where "ROOTINO = 1"
definition FSMAGIC :: uint32 where "FSMAGIC = 0x10203040"
definition NDIRECT :: nat where "NDIRECT = 12"
definition NINDIRECT :: nat where "NINDIRECT = BSIZE div 4"
definition MAXFILE :: nat where "MAXFILE = NDIRECT + NINDIRECT"
definition IPB :: nat where "IPB = BSIZE div 64"
definition BPB :: nat where "BPB = BSIZE * 8"
definition DIRSIZ :: nat where "DIRSIZ = 14"

definition T_DIR :: uint16 where "T_DIR = 1"
definition T_FILE :: uint16 where "T_FILE = 2"
definition T_DEVICE :: uint16 where "T_DEVICE = 3"

record superblock =
  sb_magic :: uint32
  sb_size :: uint32
  sb_nblocks :: uint32
  sb_ninodes :: uint32
  sb_nlog :: uint32
  sb_logstart :: uint32
  sb_inodestart :: uint32
  sb_bmapstart :: uint32

definition IBLOCK :: "uint32 \<Rightarrow> superblock \<Rightarrow> uint32" where
  "IBLOCK i sb = of_nat (unat i div IPB) + sb_inodestart sb"

definition BBLOCK :: "nat \<Rightarrow> superblock \<Rightarrow> uint32" where
  "BBLOCK b sb = of_nat (b div BPB) + sb_bmapstart sb"

section \<open>State\<close>

definition NINODE :: nat where "NINODE = 50"

record inode =
  i_dev :: uint32
  i_inum :: uint32
  i_ref :: int
  i_lock :: sleeplock
  i_valid :: bool
  i_type :: uint16
  i_major :: uint16
  i_minor :: uint16
  i_nlink :: uint16
  i_size :: uint32
  i_addrs :: "uint32 list"

record fsstate = lstate +
  sb :: superblock
  itable :: "nat \<Rightarrow> inode"
  km :: kmem
  upagetable :: uint64
  cwd :: nat

definition upd_ip :: "nat \<Rightarrow> (inode \<Rightarrow> inode) \<Rightarrow> 'a fsstate_scheme \<Rightarrow> 'a fsstate_scheme" where
  "upd_ip ip f s = s\<lparr>itable := (itable s)(ip := f (itable s ip))\<rparr>"

section \<open>Superblock and blocks\<close>

definition readsb :: "uint32 \<Rightarrow> 'a fsstate_scheme \<Rightarrow> 'a fsstate_scheme res" where
  "readsb dev s =
     seq (bread dev 1 s) (\<lambda>(bp, s).
     let d = b_data (bufs s bp);
         s = s\<lparr>sb := \<lparr>sb_magic = get32 d 0, sb_size = get32 d 4, sb_nblocks = get32 d 8, sb_ninodes = get32 d 12,
           sb_nlog = get32 d 16, sb_logstart = get32 d 20, sb_inodestart = get32 d 24, sb_bmapstart = get32 d 28\<rparr>\<rparr>
     in brelse bp s)"

definition fsinit :: "uint32 \<Rightarrow> 'a fsstate_scheme \<Rightarrow> 'a fsstate_scheme res" where
  "fsinit dev s =
     seq (readsb dev s) (\<lambda>s.
     if sb_magic (sb s) \<noteq> FSMAGIC then Panic ''invalid file system''
     else initlog dev (sb_logstart (sb s)) (sint (sb_nlog (sb s))) s)"

definition bzero :: "uint32 \<Rightarrow> uint32 \<Rightarrow> 'a fsstate_scheme \<Rightarrow> 'a fsstate_scheme res" where
  "bzero dev bno s =
     seq (bread dev bno s) (\<lambda>(bp, s).
     seq (log_write bp (set_data bp (replicate BSIZE 0) s)) (\<lambda>s. brelse bp s))"

definition bit_clear :: "block \<Rightarrow> nat \<Rightarrow> bool" where
  "bit_clear d bi \<longleftrightarrow> d ! (bi div 8) AND push_bit (bi mod 8) 1 = 0"

function balloc_from :: "nat \<Rightarrow> uint32 \<Rightarrow> nat \<Rightarrow> 'a fsstate_scheme \<Rightarrow> (uint32 \<times> 'a fsstate_scheme) res" where
  "balloc_from sz dev b s =
     (if b < sz
      then seq (bread dev (BBLOCK b (sb s)) s) (\<lambda>(bp, s).
           let d = b_data (bufs s bp) in
           case find (\<lambda>bi. bit_clear d bi) [0..<min BPB (sz - b)] of
             Some bi \<Rightarrow>
               seq (log_write bp (set_data bp (d[bi div 8 := d ! (bi div 8) OR push_bit (bi mod 8) 1]) s)) (\<lambda>s.
               seq (brelse bp s) (\<lambda>s.
               seq (bzero dev (of_nat (b + bi)) s) (\<lambda>s. Ret (of_nat (b + bi), s))))
           | None \<Rightarrow> seq (brelse bp s) (\<lambda>s. balloc_from sz dev (b + BPB) s))
      else Ret (0, s))"
  by auto
termination by (relation "measure (\<lambda>(sz, dev, b, s). sz - b)") (auto simp: BPB_def BSIZE_def)

declare balloc_from.simps [simp del]

definition balloc :: "uint32 \<Rightarrow> 'a fsstate_scheme \<Rightarrow> (uint32 \<times> 'a fsstate_scheme) res" where
  "balloc dev s = balloc_from (unat (sb_size (sb s))) dev 0 s"

definition bfree :: "uint32 \<Rightarrow> uint32 \<Rightarrow> 'a fsstate_scheme \<Rightarrow> 'a fsstate_scheme res" where
  "bfree dev b s =
     seq (bread dev (BBLOCK (unat b) (sb s)) s) (\<lambda>(bp, s).
     let d = b_data (bufs s bp); bi = unat b mod BPB in
     if bit_clear d bi then Panic ''freeing free block''
     else seq (log_write bp (set_data bp (d[bi div 8 := d ! (bi div 8) AND NOT (push_bit (bi mod 8) 1)]) s)) (\<lambda>s.
          brelse bp s))"

section \<open>Inodes\<close>

definition iinit :: "'a fsstate_scheme \<Rightarrow> 'a fsstate_scheme" where
  "iinit s = fold (\<lambda>i. upd_ip i (i_lock_update (\<lambda>_. initsleeplock))) [0..<NINODE] s"

definition iget :: "uint32 \<Rightarrow> uint32 \<Rightarrow> 'a fsstate_scheme \<Rightarrow> (nat \<times> 'a fsstate_scheme) res" where
  "iget dev inum s =
     (case find (\<lambda>ip. i_ref (itable s ip) > 0 \<and> i_dev (itable s ip) = dev \<and> i_inum (itable s ip) = inum) [0..<NINODE] of
        Some ip \<Rightarrow> Ret (ip, upd_ip ip (i_ref_update (\<lambda>r. r + 1)) s)
      | None \<Rightarrow>
          (case find (\<lambda>ip. i_ref (itable s ip) = 0) [0..<NINODE] of
             None \<Rightarrow> Panic ''iget: no inodes''
           | Some ip \<Rightarrow> Ret (ip, upd_ip ip (\<lambda>x. x\<lparr>i_dev := dev, i_inum := inum, i_ref := 1, i_valid := False\<rparr>) s)))"

definition dinode_off :: "uint32 \<Rightarrow> nat" where
  "dinode_off inum = 64 * (unat inum mod IPB)"

fun ialloc_from :: "uint32 list \<Rightarrow> uint32 \<Rightarrow> uint16 \<Rightarrow> 'a fsstate_scheme \<Rightarrow> (nat option \<times> 'a fsstate_scheme) res" where
  "ialloc_from [] dev type s = Ret (None, s)"
| "ialloc_from (inum # inums) dev type s =
     seq (bread dev (IBLOCK inum (sb s)) s) (\<lambda>(bp, s).
     let d = b_data (bufs s bp); dip = dinode_off inum in
     if get16 d dip = 0
     then seq (log_write bp (set_data bp (put16 dip type (put_bytes dip (replicate 64 0) d)) s)) (\<lambda>s.
          seq (brelse bp s) (\<lambda>s. seq (iget dev inum s) (\<lambda>(ip, s). Ret (Some ip, s))))
     else seq (brelse bp s) (\<lambda>s. ialloc_from inums dev type s))"

definition ialloc :: "uint32 \<Rightarrow> uint16 \<Rightarrow> 'a fsstate_scheme \<Rightarrow> (nat option \<times> 'a fsstate_scheme) res" where
  "ialloc dev type s = ialloc_from (map of_nat [1..<unat (sb_ninodes (sb s))]) dev type s"

definition put_dinode :: "nat \<Rightarrow> inode \<Rightarrow> block \<Rightarrow> block" where
  "put_dinode dip x d =
     (let d = put16 dip (i_type x) d; d = put16 (dip + 2) (i_major x) d; d = put16 (dip + 4) (i_minor x) d;
          d = put16 (dip + 6) (i_nlink x) d; d = put32 (dip + 8) (i_size x) d
      in fold (\<lambda>i. put32 (dip + 12 + 4 * i) (i_addrs x ! i)) [0..<NDIRECT + 1] d)"

definition get_dinode :: "nat \<Rightarrow> block \<Rightarrow> inode \<Rightarrow> inode" where
  "get_dinode dip d x =
     x\<lparr>i_type := get16 d dip, i_major := get16 d (dip + 2), i_minor := get16 d (dip + 4),
       i_nlink := get16 d (dip + 6), i_size := get32 d (dip + 8),
       i_addrs := map (\<lambda>i. get32 d (dip + 12 + 4 * i)) [0..<NDIRECT + 1]\<rparr>"

definition iupdate :: "nat \<Rightarrow> 'a fsstate_scheme \<Rightarrow> 'a fsstate_scheme res" where
  "iupdate ip s =
     seq (bread (i_dev (itable s ip)) (IBLOCK (i_inum (itable s ip)) (sb s)) s) (\<lambda>(bp, s).
     let d = put_dinode (dinode_off (i_inum (itable s ip))) (itable s ip) (b_data (bufs s bp)) in
     seq (log_write bp (set_data bp d s)) (\<lambda>s. brelse bp s))"

definition idup :: "nat \<Rightarrow> 'a fsstate_scheme \<Rightarrow> nat \<times> 'a fsstate_scheme" where
  "idup ip s = (ip, upd_ip ip (i_ref_update (\<lambda>r. r + 1)) s)"

definition ilock :: "nat \<Rightarrow> 'a fsstate_scheme \<Rightarrow> 'a fsstate_scheme res" where
  "ilock ip s =
     (if i_ref (itable s ip) < 1 then Panic ''ilock''
      else seq (acquiresleep (mypid s) (i_lock (itable s ip))) (\<lambda>lk.
           let s = upd_ip ip (i_lock_update (\<lambda>_. lk)) s in
           if i_valid (itable s ip) then Ret s
           else seq (bread (i_dev (itable s ip)) (IBLOCK (i_inum (itable s ip)) (sb s)) s) (\<lambda>(bp, s).
                let s = upd_ip ip (get_dinode (dinode_off (i_inum (itable s ip))) (b_data (bufs s bp))) s in
                seq (brelse bp s) (\<lambda>s.
                let s = upd_ip ip (i_valid_update (\<lambda>_. True)) s in
                if i_type (itable s ip) = 0 then Panic ''ilock: no type'' else Ret s))))"

definition iunlock :: "nat \<Rightarrow> 'a fsstate_scheme \<Rightarrow> 'a fsstate_scheme res" where
  "iunlock ip s =
     (if \<not> holdingsleep (mypid s) (i_lock (itable s ip)) \<or> i_ref (itable s ip) < 1 then Panic ''iunlock''
      else Ret (upd_ip ip (i_lock_update releasesleep) s))"

definition bmap :: "nat \<Rightarrow> nat \<Rightarrow> 'a fsstate_scheme \<Rightarrow> (uint32 \<times> 'a fsstate_scheme) res" where
  "bmap ip bn s =
     (let dev = i_dev (itable s ip) in
      if bn < NDIRECT
      then let addr = i_addrs (itable s ip) ! bn in
           if addr = 0
           then seq (balloc dev s) (\<lambda>(addr, s).
                if addr = 0 then Ret (0, s)
                else Ret (addr, upd_ip ip (\<lambda>x. x\<lparr>i_addrs := (i_addrs x)[bn := addr]\<rparr>) s))
           else Ret (addr, s)
      else let bn = bn - NDIRECT in
      if bn < NINDIRECT
      then let addr = i_addrs (itable s ip) ! NDIRECT in
           seq (if addr = 0
                then seq (balloc dev s) (\<lambda>(addr, s).
                     Ret (addr, if addr = 0 then s else upd_ip ip (\<lambda>x. x\<lparr>i_addrs := (i_addrs x)[NDIRECT := addr]\<rparr>) s))
                else Ret (addr, s)) (\<lambda>(addr, s).
           if addr = 0 then Ret (0, s)
           else seq (bread dev addr s) (\<lambda>(bp, s).
                let addr = get32 (b_data (bufs s bp)) (4 * bn) in
                seq (if addr = 0
                     then seq (balloc dev s) (\<lambda>(addr, s).
                          if addr \<noteq> 0
                          then seq (log_write bp (set_data bp (put32 (4 * bn) addr (b_data (bufs s bp))) s)) (\<lambda>s. Ret (addr, s))
                          else Ret (addr, s))
                     else Ret (addr, s)) (\<lambda>(addr, s).
                seq (brelse bp s) (\<lambda>s. Ret (addr, s)))))
      else Panic ''bmap: out of range'')"

definition itrunc :: "nat \<Rightarrow> 'a fsstate_scheme \<Rightarrow> 'a fsstate_scheme res" where
  "itrunc ip s =
     (let dev = i_dev (itable s ip) in
      seq (foldM (\<lambda>i s.
             let addr = i_addrs (itable s ip) ! i in
             if addr \<noteq> 0
             then seq (bfree dev addr s) (\<lambda>s. Ret (upd_ip ip (\<lambda>x. x\<lparr>i_addrs := (i_addrs x)[i := 0]\<rparr>) s))
             else Ret s) [0..<NDIRECT] s) (\<lambda>s.
      let ind = i_addrs (itable s ip) ! NDIRECT in
      seq (if ind \<noteq> 0
           then seq (bread dev ind s) (\<lambda>(bp, s).
                seq (foldM (\<lambda>j s.
                       let addr = get32 (b_data (bufs s bp)) (4 * j) in
                       if addr \<noteq> 0 then bfree dev addr s else Ret s) [0..<NINDIRECT] s) (\<lambda>s.
                seq (brelse bp s) (\<lambda>s.
                seq (bfree dev ind s) (\<lambda>s.
                Ret (upd_ip ip (\<lambda>x. x\<lparr>i_addrs := (i_addrs x)[NDIRECT := 0]\<rparr>) s)))))
           else Ret s) (\<lambda>s.
      iupdate ip (upd_ip ip (i_size_update (\<lambda>_. 0)) s))))"

definition iput :: "nat \<Rightarrow> 'a fsstate_scheme \<Rightarrow> 'a fsstate_scheme res" where
  "iput ip s =
     seq (if i_ref (itable s ip) = 1 \<and> i_valid (itable s ip) \<and> i_nlink (itable s ip) = 0
          then seq (acquiresleep (mypid s) (i_lock (itable s ip))) (\<lambda>lk.
               seq (itrunc ip (upd_ip ip (i_lock_update (\<lambda>_. lk)) s)) (\<lambda>s.
               seq (iupdate ip (upd_ip ip (i_type_update (\<lambda>_. 0)) s)) (\<lambda>s.
               Ret (upd_ip ip (i_lock_update releasesleep) (upd_ip ip (i_valid_update (\<lambda>_. False)) s)))))
          else Ret s) (\<lambda>s.
     Ret (upd_ip ip (i_ref_update (\<lambda>r. r - 1)) s))"

definition iunlockput :: "nat \<Rightarrow> 'a fsstate_scheme \<Rightarrow> 'a fsstate_scheme res" where
  "iunlockput ip s = seq (iunlock ip s) (\<lambda>s. iput ip s)"

record stat =
  st_dev :: uint32
  st_ino :: uint32
  st_type :: uint16
  st_nlink :: uint16
  st_size :: uint64

definition stati :: "nat \<Rightarrow> 'a fsstate_scheme \<Rightarrow> stat" where
  "stati ip s =
     (let x = itable s ip
      in \<lparr>st_dev = i_dev x, st_ino = i_inum x, st_type = i_type x, st_nlink = i_nlink x, st_size = ucast (i_size x)\<rparr>)"

section \<open>Inode contents\<close>

datatype udst = ToUser uint64 | ToKernel "uint8 list"
datatype usrc = FromUser uint64 | FromKernel "uint8 list"

fun either_copyout :: "udst \<Rightarrow> uint8 list \<Rightarrow> 'a fsstate_scheme \<Rightarrow> (int \<times> udst \<times> 'a fsstate_scheme) res" where
  "either_copyout (ToUser va) src s =
     seq (copyout (upagetable s) va src (km s)) (\<lambda>(r, k).
     Ret (r, ToUser (va + of_nat (length src)), s\<lparr>km := k\<rparr>))"
| "either_copyout (ToKernel buf) src s = Ret (0, ToKernel (buf @ src), s)"

fun either_copyin :: "usrc \<Rightarrow> nat \<Rightarrow> 'a fsstate_scheme \<Rightarrow> (int \<times> uint8 list \<times> usrc) res" where
  "either_copyin (FromUser va) len s =
     seq (copyin (upagetable s) va len (km s)) (\<lambda>(r, bs). Ret (r, bs, FromUser (va + of_nat len)))"
| "either_copyin (FromKernel buf) len s = Ret (0, take len buf, FromKernel (drop len buf))"

function readi_loop :: "nat \<Rightarrow> udst \<Rightarrow> nat \<Rightarrow> nat \<Rightarrow> nat \<Rightarrow> 'a fsstate_scheme \<Rightarrow> (int \<times> udst \<times> 'a fsstate_scheme) res" where
  "readi_loop ip dst off n tot s =
     (if tot < n
      then seq (bmap ip (off div BSIZE) s) (\<lambda>(addr, s).
           if addr = 0 then Ret (int tot, dst, s)
           else seq (bread (i_dev (itable s ip)) addr s) (\<lambda>(bp, s).
                let m = min (n - tot) (BSIZE - off mod BSIZE) in
                seq (either_copyout dst (get_bytes (b_data (bufs s bp)) (off mod BSIZE) m) s) (\<lambda>(r, dst, s).
                seq (brelse bp s) (\<lambda>s.
                if r = -1 then Ret (-1, dst, s)
                else readi_loop ip dst (off + m) n (tot + m) s))))
      else Ret (int tot, dst, s))"
  by auto
termination by (relation "measure (\<lambda>(ip, dst, off, n, tot, s). n - tot)") (auto simp: BSIZE_def)

declare readi_loop.simps [simp del]

definition readi :: "nat \<Rightarrow> udst \<Rightarrow> uint32 \<Rightarrow> uint32 \<Rightarrow> 'a fsstate_scheme \<Rightarrow> (int \<times> udst \<times> 'a fsstate_scheme) res" where
  "readi ip dst off n s =
     (let sz = i_size (itable s ip) in
      if off > sz \<or> off + n < off then Ret (0, dst, s)
      else let n = if off + n > sz then sz - off else n
           in readi_loop ip dst (unat off) (unat n) 0 s)"

function writei_loop :: "nat \<Rightarrow> usrc \<Rightarrow> nat \<Rightarrow> nat \<Rightarrow> nat \<Rightarrow> 'a fsstate_scheme \<Rightarrow> (nat \<times> 'a fsstate_scheme) res" where
  "writei_loop ip src off n tot s =
     (if tot < n
      then seq (bmap ip (off div BSIZE) s) (\<lambda>(addr, s).
           if addr = 0 then Ret (tot, s)
           else seq (bread (i_dev (itable s ip)) addr s) (\<lambda>(bp, s).
                let m = min (n - tot) (BSIZE - off mod BSIZE) in
                seq (either_copyin src m s) (\<lambda>(r, bs, src).
                let s = set_data bp (put_bytes (off mod BSIZE) bs (b_data (bufs s bp))) s in
                if r = -1 then seq (brelse bp s) (\<lambda>s. Ret (tot, s))
                else seq (log_write bp s) (\<lambda>s. seq (brelse bp s) (\<lambda>s.
                     writei_loop ip src (off + m) n (tot + m) s)))))
      else Ret (tot, s))"
  by auto
termination by (relation "measure (\<lambda>(ip, src, off, n, tot, s). n - tot)") (auto simp: BSIZE_def)

declare writei_loop.simps [simp del]

definition writei :: "nat \<Rightarrow> usrc \<Rightarrow> uint32 \<Rightarrow> uint32 \<Rightarrow> 'a fsstate_scheme \<Rightarrow> (int \<times> 'a fsstate_scheme) res" where
  "writei ip src off n s =
     (if off > i_size (itable s ip) \<or> off + n < off then Ret (-1, s)
      else if unat (off + n) > MAXFILE * BSIZE then Ret (-1, s)
      else seq (writei_loop ip src (unat off) (unat n) 0 s) (\<lambda>(tot, s).
           let s = (if off + of_nat tot > i_size (itable s ip)
                    then upd_ip ip (i_size_update (\<lambda>_. off + of_nat tot)) s else s)
           in seq (iupdate ip s) (\<lambda>s. Ret (int tot, s))))"

section \<open>Directories\<close>

text \<open>\<open>strncmp\<close> on byte lists; the end of a list stands for its terminating zero.\<close>

definition hd0 :: "uint8 list \<Rightarrow> uint8" where
  "hd0 p = (case p of [] \<Rightarrow> 0 | c # _ \<Rightarrow> c)"

primrec strncmp_bytes :: "nat \<Rightarrow> uint8 list \<Rightarrow> uint8 list \<Rightarrow> int" where
  "strncmp_bytes 0 p q = 0"
| "strncmp_bytes (Suc n) p q =
     (if hd0 p \<noteq> 0 \<and> hd0 p = hd0 q then strncmp_bytes n (tl p) (tl q) else uint (hd0 p) - uint (hd0 q))"

definition namecmp :: "uint8 list \<Rightarrow> uint8 list \<Rightarrow> int" where
  "namecmp s t = strncmp_bytes DIRSIZ s t"

text \<open>A directory entry is two bytes of inode number and fourteen of name.\<close>

definition de_inum :: "uint8 list \<Rightarrow> uint16" where "de_inum de = get16 de 0"
definition de_name :: "uint8 list \<Rightarrow> uint8 list" where "de_name de = get_bytes de 2 DIRSIZ"

definition mk_dirent :: "uint16 \<Rightarrow> uint8 list \<Rightarrow> uint8 list" where
  "mk_dirent inum name =
     [ucast inum, ucast (drop_bit 8 inum)] @ take DIRSIZ (takeWhile (\<lambda>c. c \<noteq> 0) name @ replicate DIRSIZ 0)"

definition read_dirent :: "nat \<Rightarrow> nat \<Rightarrow> string \<Rightarrow> 'a fsstate_scheme \<Rightarrow> (uint8 list \<times> 'a fsstate_scheme) res" where
  "read_dirent dp off msg s =
     seq (readi dp (ToKernel []) (of_nat off) 16 s) (\<lambda>(r, dst, s).
     if r \<noteq> 16 then Panic msg
     else Ret (case dst of ToKernel de \<Rightarrow> de | ToUser _ \<Rightarrow> [], s))"

function dirlookup_from :: "nat \<Rightarrow> nat \<Rightarrow> nat \<Rightarrow> uint8 list \<Rightarrow> 'a fsstate_scheme \<Rightarrow> ((nat \<times> nat) option \<times> 'a fsstate_scheme) res" where
  "dirlookup_from sz off dp name s =
     (if off < sz
      then seq (read_dirent dp off ''dirlookup read'' s) (\<lambda>(de, s).
           if de_inum de = 0 then dirlookup_from sz (off + 16) dp name s
           else if namecmp name (de_name de) = 0
           then seq (iget (i_dev (itable s dp)) (ucast (de_inum de)) s) (\<lambda>(ip, s). Ret (Some (ip, off), s))
           else dirlookup_from sz (off + 16) dp name s)
      else Ret (None, s))"
  by auto
termination by (relation "measure (\<lambda>(sz, off, _). sz - off)") auto

declare dirlookup_from.simps [simp del]

text \<open>The result is the inode and the offset of its entry (\<open>*poff\<close>).\<close>

definition dirlookup :: "nat \<Rightarrow> uint8 list \<Rightarrow> 'a fsstate_scheme \<Rightarrow> ((nat \<times> nat) option \<times> 'a fsstate_scheme) res" where
  "dirlookup dp name s =
     (if i_type (itable s dp) \<noteq> T_DIR then Panic ''dirlookup not DIR''
      else dirlookup_from (unat (i_size (itable s dp))) 0 dp name s)"

function dirlink_slot :: "nat \<Rightarrow> nat \<Rightarrow> nat \<Rightarrow> 'a fsstate_scheme \<Rightarrow> (nat \<times> 'a fsstate_scheme) res" where
  "dirlink_slot sz off dp s =
     (if off < sz
      then seq (read_dirent dp off ''dirlink read'' s) (\<lambda>(de, s).
           if de_inum de = 0 then Ret (off, s) else dirlink_slot sz (off + 16) dp s)
      else Ret (off, s))"
  by auto
termination by (relation "measure (\<lambda>(sz, off, _). sz - off)") auto

declare dirlink_slot.simps [simp del]

definition dirlink :: "nat \<Rightarrow> uint8 list \<Rightarrow> uint32 \<Rightarrow> 'a fsstate_scheme \<Rightarrow> (int \<times> 'a fsstate_scheme) res" where
  "dirlink dp name inum s =
     seq (dirlookup dp name s) (\<lambda>(found, s).
     case found of
       Some (ip, _) \<Rightarrow> seq (iput ip s) (\<lambda>s. Ret (-1, s))
     | None \<Rightarrow>
         seq (dirlink_slot (unat (i_size (itable s dp))) 0 dp s) (\<lambda>(off, s).
         seq (writei dp (FromKernel (mk_dirent (ucast inum) name)) (of_nat off) 16 s) (\<lambda>(r, s).
         Ret (if r \<noteq> 16 then -1 else 0, s))))"

section \<open>Paths\<close>

abbreviation SLASH :: uint8 where "SLASH \<equiv> 0x2F"

definition skipelem :: "uint8 list \<Rightarrow> (uint8 list \<times> uint8 list) option" where
  "skipelem path =
     (let path = dropWhile (\<lambda>c. c = SLASH) path in
      if path = [] then None
      else let elem = takeWhile (\<lambda>c. c \<noteq> SLASH) path;
               path = dropWhile (\<lambda>c. c \<noteq> SLASH) path;
               name = (if length elem \<ge> DIRSIZ then take DIRSIZ elem else elem)
           in Some (name, dropWhile (\<lambda>c. c = SLASH) path))"

lemma length_dropWhile_less: "xs \<noteq> [] \<Longrightarrow> P (hd xs) \<Longrightarrow> length (dropWhile P xs) < length xs"
  by (cases xs) (auto simp: le_imp_less_Suc length_dropWhile_le)

lemma skipelem_shorter [termination_simp]:
  "skipelem path = Some (name, rest) \<Longrightarrow> length rest < length path"
proof -
  let ?p = "dropWhile (\<lambda>c. c = SLASH) path"
  assume a: "skipelem path = Some (name, rest)"
  then have p: "?p \<noteq> []" and r: "rest = dropWhile (\<lambda>c. c = SLASH) (dropWhile (\<lambda>c. c \<noteq> SLASH) ?p)"
    by (auto simp: skipelem_def Let_def split: if_splits)
  have "hd ?p \<noteq> SLASH" using hd_dropWhile [OF p] .
  with p have "length (dropWhile (\<lambda>c. c \<noteq> SLASH) ?p) < length ?p" by (intro length_dropWhile_less) auto
  then show ?thesis unfolding r using length_dropWhile_le [of _ "dropWhile (\<lambda>c. c \<noteq> SLASH) ?p"]
      length_dropWhile_le [of "\<lambda>c. c = SLASH" path] by (meson le_less_trans less_le_trans)
qed

function namex_loop :: "bool \<Rightarrow> nat \<Rightarrow> uint8 list \<Rightarrow> uint8 list \<Rightarrow> 'a fsstate_scheme \<Rightarrow>
    (nat option \<times> uint8 list \<times> 'a fsstate_scheme) res" where
  "namex_loop nameiparent ip path name s =
     (case skipelem path of
        None \<Rightarrow>
          if nameiparent then seq (iput ip s) (\<lambda>s. Ret (None, name, s)) else Ret (Some ip, name, s)
      | Some (name, path) \<Rightarrow>
          seq (ilock ip s) (\<lambda>s.
          if i_type (itable s ip) \<noteq> T_DIR then seq (iunlockput ip s) (\<lambda>s. Ret (None, name, s))
          else if nameiparent \<and> path = [] then seq (iunlock ip s) (\<lambda>s. Ret (Some ip, name, s))
          else seq (dirlookup ip name s) (\<lambda>(found, s).
               case found of
                 None \<Rightarrow> seq (iunlockput ip s) (\<lambda>s. Ret (None, name, s))
               | Some (next, _) \<Rightarrow> seq (iunlockput ip s) (\<lambda>s. namex_loop nameiparent next path name s))))"
  by auto
termination by (relation "measure (\<lambda>(_, _, path, _). length path)") (auto simp: skipelem_shorter)

declare namex_loop.simps [simp del]

definition namex :: "uint8 list \<Rightarrow> bool \<Rightarrow> 'a fsstate_scheme \<Rightarrow> (nat option \<times> uint8 list \<times> 'a fsstate_scheme) res" where
  "namex path nameiparent s =
     seq (if path \<noteq> [] \<and> hd path = SLASH then iget ROOTDEV ROOTINO s else Ret (idup (cwd s) s)) (\<lambda>(ip, s).
     namex_loop nameiparent ip path [] s)"

definition namei :: "uint8 list \<Rightarrow> 'a fsstate_scheme \<Rightarrow> (nat option \<times> 'a fsstate_scheme) res" where
  "namei path s = seq (namex path False s) (\<lambda>(ip, name, s). Ret (ip, s))"

definition nameiparent :: "uint8 list \<Rightarrow> 'a fsstate_scheme \<Rightarrow> (nat option \<times> uint8 list \<times> 'a fsstate_scheme) res" where
  "nameiparent path s = namex path True s"

end
