(* ===== verification/Log_Tx.thy ===== *)
theory Log_Tx
  imports Log
begin

text \<open>
  The contract between the log and the file system above it: what one visit to a block
  (\<open>bread\<close>, then \<open>brelse\<close>, or \<open>log_write\<close> and \<open>brelse\<close>) does to the contents of the
  blocks inside a transaction, while other buffers \<open>H\<close> stay held. \<open>tx_next H v k s s'\<close>:
  the transaction has moved on from \<open>s\<close> to \<open>s'\<close>, the blocks now read as \<open>v\<close>, and at most
  \<open>k\<close> more log slots are taken.
\<close>

definition tx_next :: "nat set \<Rightarrow> (uint32 \<Rightarrow> block) \<Rightarrow> int \<Rightarrow> 'a lstate_scheme \<Rightarrow> 'a lstate_scheme \<Rightarrow> bool" where
  "tx_next H v k s s' \<longleftrightarrow>
     in_tx H s' \<and> view s' = v \<and> lh_n s' \<le> lh_n s + k \<and> pins s \<subseteq> pins s' \<and>
     outstanding s' = outstanding s \<and> l_size s' = l_size s \<and> l_start s' = l_start s \<and>
     blk s' = blk s \<and> dtrace s' = dtrace s \<and> mypid s' = mypid s \<and> lstate.more s' = lstate.more s \<and>
     (\<forall>c\<in>H. b_data (bufs s' c) = b_data (bufs s c) \<and> b_blockno (bufs s' c) = b_blockno (bufs s c))"

lemma tx_next_refl: "in_tx H s \<Longrightarrow> tx_next H (view s) 0 s s"
  by (simp add: tx_next_def)

lemma tx_next_trans:
  "tx_next H v k s t \<Longrightarrow> tx_next H w j t u \<Longrightarrow> tx_next H w (k + j) s u"
  by (auto simp: tx_next_def)

lemma tx_next_weaken: "tx_next H v k s t \<Longrightarrow> k \<le> j \<Longrightarrow> tx_next H v j s t"
  by (simp add: tx_next_def)

lemma tx_nextD:
  assumes "tx_next H v k s s'"
  shows "in_tx H s'" "view s' = v" "lh_n s' \<le> lh_n s + k" "outstanding s' = outstanding s" "l_size s' = l_size s"
    "log_area s' = log_area s" "lstate.more s' = lstate.more s" "blk s' = blk s" "mypid s' = mypid s"
    "c \<in> H \<Longrightarrow> b_data (bufs s' c) = b_data (bufs s c) \<and> b_blockno (bufs s' c) = b_blockno (bufs s c)"
  using assms by (auto simp: tx_next_def log_area_def)

lemma lmore: "bstate.more s' = bstate.more s \<Longrightarrow> lstate.more s' = lstate.more s"
  by (cases s; cases s') simp

text \<open>There is room for a visit to a block: a free buffer, and a log slot to spare.\<close>

definition tx_room :: "nat set \<Rightarrow> int \<Rightarrow> 'a lstate_scheme \<Rightarrow> bool" where
  "tx_room H k s \<longleftrightarrow>
     1 \<le> outstanding s \<and> lh_n s + k < l_size s \<and> lh_n s + k + int (card H) < int NBUF"

lemma tx_room_next: "tx_next H v j s s' \<Longrightarrow> tx_room H (j + k) s \<Longrightarrow> tx_room H k s'"
  by (auto simp: tx_next_def tx_room_def)

lemma tx_room_weaken: "tx_room H k s \<Longrightarrow> j \<le> k \<Longrightarrow> tx_room H j s"
  by (auto simp: tx_room_def)

lemma tx_open:
  assumes t: "in_tx H s" and n: "\<forall>c\<in>H. b_blockno (bufs s c) \<noteq> n" and room: "tx_room H k s" "0 \<le> k"
  shows "\<exists>b r. bread ROOTDEV n s = Ret (b, upd_buf b (taken s n r) s) \<and> b \<notin> H \<and>
    in_tx (insert b H) (upd_buf b (taken s n r) s) \<and> view (upd_buf b (taken s n r) s) = view s"
proof -
  have "card H + card (pins s) < NBUF" using card_pins [OF t] room by (auto simp: tx_room_def)
  then show ?thesis using in_tx_bread [OF t, of n] n by auto
qed

lemma tx_close:
  assumes t: "in_tx H s" and b: "b \<notin> H" "in_tx (insert b H) (upd_buf b (taken s n r) s)"
    "view (upd_buf b (taken s n r) s) = view s" and n: "n \<in> pins s \<or> view s n = blk s n"
  shows "\<exists>s'. brelse b (upd_buf b (taken s n r) s) = Ret s' \<and> tx_next H (view s) 0 s s'"
proof -
  let ?s = "upd_buf b (taken s n r) s"
  have p: "pins ?s = pins s" by (simp add: pins_def)
  obtain s' where 1: "brelse b ?s = Ret s'" "in_tx (insert b H - {b}) s'" "view s' = view ?s" "blk s' = blk ?s"
      "dtrace s' = dtrace ?s" "mypid s' = mypid ?s" "bstate.more s' = bstate.more ?s"
      "\<forall>c. c \<noteq> b \<longrightarrow> same_slot (bufs s' c) (bufs ?s c)"
    using in_tx_brelse [OF b(2), of b] n p by auto
  have "insert b H - {b} = H" using b(1) by auto
  moreover have "pins s' = pins s" using log_fields [OF 1(7)] p by (simp add: pins_def)
  moreover have "lstate.more s' = lstate.more s"
    using lmore [OF 1(7)] by (simp add: upd_buf_def)
  ultimately have "tx_next H (view s) 0 s s'"
    using 1 b log_fields [OF 1(7)] unfolding tx_next_def by (auto simp: same_slot_def)
  then show ?thesis using 1(1) by blast
qed

text \<open>A block outside the log and outside the held buffers is either pinned or clean.\<close>

lemma tx_clean:
  assumes t: "in_tx H s" and n: "\<forall>c\<in>H. b_blockno (bufs s c) \<noteq> n"
  shows "n \<in> pins s \<or> view s n = blk s n"
  using held_clean [of H "pins s" s n] t n by (auto simp: in_tx_def)

lemma tx_write:
  assumes t: "in_tx H s" and b: "b \<notin> H" "in_tx (insert b H) (upd_buf b (taken s n r) s)"
    "view (upd_buf b (taken s n r) s) = view s"
    and n: "n \<notin> log_area s" and room: "tx_room H 1 s" and d: "length d = BSIZE"
  shows "\<exists>s'. seq (log_write b (set_data b d (upd_buf b (taken s n r) s))) (\<lambda>s. brelse b s) = Ret s' \<and>
    tx_next H ((view s)(n := d)) 1 s s' \<and> n \<in> pins s'"
proof -
  let ?s = "upd_buf b (taken s n r) s" and ?H = "insert b H"
  let ?s1 = "set_data b d ?s"
  note 1 = in_tx_set_data [OF b(2) insertI1 d]
  have "log_area ?s = log_area s" "pins ?s = pins s" by (simp_all add: log_area_def pins_def)
  moreover have "lh_n s < l_size s - 1" "1 \<le> outstanding s" using room by (auto simp: tx_room_def)
  ultimately obtain s2 where 2: "log_write b ?s1 = Ret s2" "in_tx ?H s2" "view s2 = view ?s1" "blk s2 = blk ?s1"
      "dtrace s2 = dtrace ?s1" "pins s2 = insert n (pins s)" "lh_n s2 \<le> lh_n s + 1" "outstanding s2 = outstanding s"
      "l_size s2 = l_size s" "l_start s2 = l_start ?s1" "mypid s2 = mypid ?s1"
      "\<forall>c. b_data (bufs s2 c) = b_data (bufs ?s1 c) \<and> b_blockno (bufs s2 c) = b_blockno (bufs ?s1 c)"
    using in_tx_log_write [OF 1(1) insertI1] n 1(3-7) by auto
  have m2: "lstate.more s2 = lstate.more s"
    using 2(1) by (auto simp: log_write_def Let_def bpin_def set_data_def upd_buf_def split: if_splits)
  obtain s3 where 3: "brelse b s2 = Ret s3" "in_tx (?H - {b}) s3" "view s3 = view s2" "blk s3 = blk s2"
      "dtrace s3 = dtrace s2" "mypid s3 = mypid s2" "bstate.more s3 = bstate.more s2"
      "\<forall>c. c \<noteq> b \<longrightarrow> same_slot (bufs s3 c) (bufs s2 c)"
    using in_tx_brelse [OF 2(2) insertI1] 2(6,12) by auto
  note f3 = log_fields [OF 3(7)]
  have "?H - {b} = H" using b(1) by auto
  moreover have "view s3 = (view s)(n := d)" using 3(3) 2(3) 1(2) b(3) by simp
  moreover have "pins s3 = insert n (pins s)" using f3 2(6) by (simp add: pins_def)
  moreover have "l_start s3 = l_start s" using f3 2(10) by (simp add: set_data_def)
  moreover have "b_data (bufs s3 c) = b_data (bufs s c) \<and> b_blockno (bufs s3 c) = b_blockno (bufs s c)" if "c \<in> H" for c
    using spec [OF 3(8), of c] spec [OF 2(12), of c] that b(1) by (auto simp: same_slot_def)
  moreover have "blk s3 = blk s" "dtrace s3 = dtrace s" "mypid s3 = mypid s"
    using 3 2 by simp_all
  ultimately have "tx_next H ((view s)(n := d)) 1 s s3 \<and> n \<in> pins s3"
    using 3(2) 2(7-9) f3 lmore [OF 3(7)] m2 unfolding tx_next_def by auto
  then show ?thesis using 2(1) 3(1) by auto
qed

end
