(* ===== verification/Fs_Blocks.thy ===== *)
theory Fs_Blocks
  imports Fs Log_Tx
begin

text \<open>
  The block allocator of \<^verbatim>\<open>kernel/fs.c\<close>: \<open>balloc\<close> finds and takes the first block whose bit in
  the on-disk bitmap is clear, \<open>bfree\<close> gives it back.
\<close>

section \<open>The bitmap\<close>

lemma fs_fields:
  assumes "lstate.more s' = lstate.more s"
  shows "sb s' = sb s" "itable s' = itable s" "km s' = km s" "upagetable s' = upagetable s" "cwd s' = cwd s"
  using assms by (cases s; cases s'; simp)+

lemma upd_buf_fs [simp]:
  "sb (upd_buf b f s) = sb s" "itable (upd_buf b f s) = itable s" "km (upd_buf b f s) = km s"
  "upagetable (upd_buf b f s) = upagetable s" "cwd (upd_buf b f s) = cwd s"
  by (simp_all add: upd_buf_def)

definition mark :: "nat \<Rightarrow> block \<Rightarrow> block" where
  "mark bi d = d[bi div 8 := d ! (bi div 8) OR push_bit (bi mod 8) 1]"

definition unmark :: "nat \<Rightarrow> block \<Rightarrow> block" where
  "unmark bi d = d[bi div 8 := d ! (bi div 8) AND NOT (push_bit (bi mod 8) 1)]"

lemma bit_clear_iff: "bit_clear d bi \<longleftrightarrow> \<not> bit (d ! (bi div 8)) (bi mod 8)"
  by (simp add: bit_clear_def push_bit_of_1 and_exp_eq_0_iff_not_bit)

lemma mark_length [simp]: "length (mark bi d) = length d" "length (unmark bi d) = length d"
  by (simp_all add: mark_def unmark_def)


lemma bit_clear_mark:
  assumes "length d = BSIZE" "bi < BPB" "bj < BPB"
  shows "bit_clear (mark bi d) bj \<longleftrightarrow> bj \<noteq> bi \<and> bit_clear d bj"
    "bit_clear (unmark bi d) bj \<longleftrightarrow> bj = bi \<or> bit_clear d bj"
proof -
  have "bi div 8 < length d" "bj div 8 < length d" using assms by (auto simp: BPB_def BSIZE_def)
  moreover have "bi = bj \<longleftrightarrow> bi div 8 = bj div 8 \<and> bi mod 8 = bj mod 8" by (metis div_mult_mod_eq)
  moreover have "bi mod 8 < 8" "bj mod 8 < 8" by auto
  ultimately show "bit_clear (mark bi d) bj \<longleftrightarrow> bj \<noteq> bi \<and> bit_clear d bj"
    "bit_clear (unmark bi d) bj \<longleftrightarrow> bj = bi \<or> bit_clear d bj"
    by (auto simp: bit_clear_iff mark_def unmark_def nth_list_update bit_or_iff bit_and_iff bit_not_iff bit_exp_iff)
qed

lemma unmark_mark:
  assumes "bit_clear d bi" "length d = BSIZE" "bi < BPB"
  shows "unmark bi (mark bi d) = d"
proof -
  have l: "bi div 8 < length d" using assms by (auto simp: BPB_def BSIZE_def)
  have "(x OR push_bit k 1) AND NOT (push_bit k 1) = x" if "\<not> bit x k" "k < 8" for x :: uint8 and k
    using that by (intro bit_word_eqI) (auto simp: bit_or_iff bit_and_iff bit_not_iff bit_exp_iff)
  then show ?thesis using assms(1) l by (simp add: mark_def unmark_def bit_clear_iff)
qed

text \<open>Block \<open>b\<close> is marked in use.\<close>

definition used :: "'a fsstate_scheme \<Rightarrow> nat \<Rightarrow> bool" where
  "used s b \<longleftrightarrow> \<not> bit_clear (view s (BBLOCK b (sb s))) (b mod BPB)"

text \<open>
  The layout of the disk: the bitmap is outside the log, the blocks of the log and of the
  bitmap and the boot block are marked in use, and numbers do not overflow.
\<close>

definition fs_layout :: "'a fsstate_scheme \<Rightarrow> bool" where
  "fs_layout s \<longleftrightarrow>
     used s 0 \<and> (\<forall>b < unat (sb_size (sb s)). BBLOCK b (sb s) \<notin> log_area s) \<and>
     (\<forall>b < unat (sb_size (sb s)). \<not> used s b \<longrightarrow>
        of_nat b \<notin> log_area s \<and> (\<forall>c < unat (sb_size (sb s)). of_nat b \<noteq> BBLOCK c (sb s)))"

text \<open>The held buffers hold neither free blocks nor blocks of the bitmap.\<close>

definition held_off :: "nat set \<Rightarrow> 'a fsstate_scheme \<Rightarrow> bool" where
  "held_off H s \<longleftrightarrow>
     (\<forall>c\<in>H. (\<forall>b < unat (sb_size (sb s)). b_blockno (bufs s c) \<noteq> BBLOCK b (sb s)) \<and>
             (\<forall>b < unat (sb_size (sb s)). \<not> used s b \<longrightarrow> b_blockno (bufs s c) \<noteq> of_nat b))"

lemma size_bound: "b < unat (sb_size (sb s)) \<Longrightarrow> b < 4294967296"
  using unat_lt_2p32 [of "sb_size (sb s)"] by simp

lemma BBLOCK_inj:
  assumes "b < 4294967296" "c < 4294967296"
  shows "BBLOCK b x = BBLOCK c x \<longleftrightarrow> b div BPB = c div BPB"
proof -
  have "b div BPB < 4294967296" "c div BPB < 4294967296" using assms by (auto simp: BPB_def BSIZE_def)
  then show ?thesis by (simp add: BBLOCK_def word_of_nat_eq_iff take_bit_nat_eq_self)
qed

lemma of_nat_u32_inj: "b < 4294967296 \<Longrightarrow> c < 4294967296 \<Longrightarrow> (of_nat b :: uint32) = of_nat c \<longleftrightarrow> b = c"
  by (simp add: word_of_nat_eq_iff take_bit_nat_eq_self)

section \<open>Zeroing, allocating and freeing\<close>

lemma bzero_ok:
  assumes t: "in_tx H s" and n: "\<forall>c\<in>H. b_blockno (bufs s c) \<noteq> n" "n \<notin> log_area s" and room: "tx_room H 1 s"
  shows "\<exists>s'. bzero ROOTDEV n s = Ret s' \<and> tx_next H ((view s)(n := replicate BSIZE 0)) 1 s s'"
proof -
  obtain b r where b: "bread ROOTDEV n s = Ret (b, upd_buf b (taken s n r) s)" "b \<notin> H"
      "in_tx (insert b H) (upd_buf b (taken s n r) s)" "view (upd_buf b (taken s n r) s) = view s"
    using tx_open [OF t n(1) room] by auto
  from tx_write [OF t b(2-4) n(2) room, of "replicate BSIZE 0"] show ?thesis
    using b(1) by (auto simp: bzero_def)
qed

text \<open>The contents of the blocks once block \<open>c\<close> is allocated.\<close>

definition alloc_view :: "'a fsstate_scheme \<Rightarrow> nat \<Rightarrow> uint32 \<Rightarrow> block" where
  "alloc_view s c =
     (view s)(BBLOCK c (sb s) := mark (c mod BPB) (view s (BBLOCK c (sb s))), of_nat c := replicate BSIZE 0)"

definition balloc_post :: "nat set \<Rightarrow> nat \<Rightarrow> uint32 \<Rightarrow> 'a fsstate_scheme \<Rightarrow> 'a fsstate_scheme \<Rightarrow> bool" where
  "balloc_post H b a s s' \<longleftrightarrow>
     (\<exists>c\<ge>b. c < unat (sb_size (sb s)) \<and> \<not> used s c \<and> (\<forall>d. b \<le> d \<and> d < c \<longrightarrow> used s d) \<and>
        a = of_nat c \<and> tx_next H (alloc_view s c) 2 s s') \<or>
     (\<forall>c\<ge>b. c < unat (sb_size (sb s)) \<longrightarrow> used s c) \<and> a = 0 \<and> tx_next H (view s) 0 s s'"

lemma balloc_found:
  assumes t: "in_tx H s" and lay: "fs_layout s" and ho: "held_off H s" and room: "tx_room H 2 s"
    and c: "c < unat (sb_size (sb s))" "\<not> used s c"
    and b: "b \<notin> H" "in_tx (insert b H) (upd_buf b (taken s (BBLOCK c (sb s)) r) s)"
      "view (upd_buf b (taken s (BBLOCK c (sb s)) r) s) = view s"
  shows "\<exists>s'. seq (log_write b (set_data b (mark (c mod BPB) (view s (BBLOCK c (sb s))))
                     (upd_buf b (taken s (BBLOCK c (sb s)) r) s))) (\<lambda>s.
               seq (brelse b s) (\<lambda>s. seq (bzero ROOTDEV (of_nat c) s) (\<lambda>s. Ret (of_nat c :: uint32, s)))) = Ret (of_nat c, s') \<and>
             tx_next H (alloc_view s c) 2 s s'"
proof -
  let ?n = "BBLOCK c (sb s)"
  have len: "length (mark (c mod BPB) (view s ?n)) = BSIZE" using t held_length(1) by (auto simp: in_tx_def)
  have "?n \<notin> log_area s" using lay c by (simp add: fs_layout_def)
  from tx_write [OF t b this tx_room_weaken [OF room] len] obtain s1 where
    1: "seq (log_write b (set_data b (mark (c mod BPB) (view s ?n)) (upd_buf b (taken s ?n r) s))) (\<lambda>s. brelse b s) = Ret s1"
      "tx_next H ((view s)(?n := mark (c mod BPB) (view s ?n))) 1 s s1" by auto
  have "of_nat c \<notin> log_area s" using lay c by (simp add: fs_layout_def)
  moreover have "\<forall>d\<in>H. b_blockno (bufs s1 d) \<noteq> of_nat c"
    using ho c tx_nextD(10) [OF 1(2)] by (auto simp: held_off_def)
  ultimately obtain s2 where 2: "bzero ROOTDEV (of_nat c) s1 = Ret s2"
      "tx_next H ((view s1)(of_nat c := replicate BSIZE 0)) 1 s1 s2"
    using bzero_ok [OF tx_nextD(1) [OF 1(2)], of "of_nat c"] tx_room_next [OF 1(2), of 1] room tx_nextD(6) [OF 1(2)] by auto
  have "tx_next H (alloc_view s c) 2 s s2"
    using tx_next_trans [OF 1(2) 2(2)] tx_nextD(2) [OF 1(2)] by (simp add: alloc_view_def)
  then show ?thesis using 1(1) 2(1) by (auto simp: seq_Ret_iff)
qed

lemma BBLOCK_chunk: "BPB dvd b \<Longrightarrow> bi < BPB \<Longrightarrow> BBLOCK (b + bi) x = BBLOCK b x \<and> (b + bi) mod BPB = bi"
  by (auto simp: BBLOCK_def elim!: dvdE)

lemma find_upt_Some:
  "find P [0..<n] = Some i \<Longrightarrow> i < n \<and> P i \<and> (\<forall>j<i. \<not> P j)"
  by (auto simp: find_Some_iff)

lemma fs_layout_next:
  assumes "tx_next H (view s) k s s'" "fs_layout s" "held_off H s"
  shows "fs_layout s'" "held_off H s'" "used s' = used s" "sb s' = sb s"
proof -
  note d = tx_nextD [OF assms(1)]
  show f: "sb s' = sb s" using fs_fields [OF d(7)] by simp
  show u: "used s' = used s" by (intro ext) (simp add: used_def d(2) f)
  show "fs_layout s'" using assms(2) by (simp add: fs_layout_def u f d(6))
  show "held_off H s'" using assms(3) d(10) by (simp add: held_off_def u f)
qed

lemma balloc_post_step:
  assumes n: "tx_next H (view s) 0 s s1" and k: "used s1 = used s" "sb s1 = sb s"
    and full: "\<And>d. b \<le> d \<Longrightarrow> d < b' \<Longrightarrow> d < unat (sb_size (sb s)) \<Longrightarrow> used s d" and b: "b \<le> b'"
    and p: "balloc_post H b' a s1 s'"
  shows "balloc_post H b a s s'"
proof -
  have v: "alloc_view s1 c = alloc_view s c" for c using tx_nextD(2) [OF n] k by (simp add: alloc_view_def)
  from p consider c where "c \<ge> b'" "c < unat (sb_size (sb s))" "\<not> used s c" "\<forall>d. b' \<le> d \<and> d < c \<longrightarrow> used s d"
      "a = of_nat c" "tx_next H (alloc_view s c) 2 s1 s'"
    | "\<forall>c\<ge>b'. c < unat (sb_size (sb s)) \<longrightarrow> used s c" "a = 0" "tx_next H (view s1) 0 s1 s'"
    unfolding balloc_post_def k v by blast
  then show ?thesis
  proof cases
    case 1
    have "\<forall>d. b \<le> d \<and> d < c \<longrightarrow> used s d" using full 1 by (meson less_trans linorder_not_le)
    moreover have "tx_next H (alloc_view s c) 2 s s'" using tx_next_trans [OF n 1(6)] by simp
    moreover have "b \<le> c" using b 1(1) by simp
    ultimately show ?thesis using 1 unfolding balloc_post_def by blast
  next
    case 2
    have "\<forall>c\<ge>b. c < unat (sb_size (sb s)) \<longrightarrow> used s c" using full 2(1) by (meson linorder_not_le)
    moreover have "tx_next H (view s) 0 s s'" using tx_next_trans [OF n 2(3)] tx_nextD(2) [OF n] by simp
    ultimately show ?thesis using 2(2) unfolding balloc_post_def by blast
  qed
qed

lemma balloc_from_ok:
  assumes "in_tx H s" "fs_layout s" "held_off H s" "tx_room H 2 s" "BPB dvd b"
  shows "\<exists>a s'. balloc_from (unat (sb_size (sb s))) ROOTDEV b s = Ret (a, s') \<and> balloc_post H b a s s'"
  using assms
proof (induction "unat (sb_size (sb s)) - b" arbitrary: b s rule: less_induct)
  case less
  let ?sz = "unat (sb_size (sb s))" and ?n = "BBLOCK b (sb s)"
  show ?case
  proof (cases "b < ?sz")
    case False
    then show ?thesis using tx_next_refl [OF less.prems(1)] by (simp add: balloc_from.simps balloc_post_def)
  next
    case True
    have nH: "\<forall>c\<in>H. b_blockno (bufs s c) \<noteq> ?n" using less.prems(3) True by (auto simp: held_off_def)
    obtain bp r where bp: "bread ROOTDEV ?n s = Ret (bp, upd_buf bp (taken s ?n r) s)" "bp \<notin> H"
        "in_tx (insert bp H) (upd_buf bp (taken s ?n r) s)" "view (upd_buf bp (taken s ?n r) s) = view s"
      using tx_open [OF less.prems(1) nH less.prems(4)] by auto
    let ?F = "find (\<lambda>bi. bit_clear (view s ?n) bi) [0..<min BPB (?sz - b)]"
    have u: "used s (b + bi) \<longleftrightarrow> \<not> bit_clear (view s ?n) bi" if "bi < BPB" for bi
      using BBLOCK_chunk [OF less.prems(5) that] by (simp add: used_def)
    show ?thesis
    proof (cases ?F)
      case (Some bi)
      then have bi: "bi < BPB" "b + bi < ?sz" "\<not> used s (b + bi)" "\<forall>j<bi. used s (b + j)"
        using find_upt_Some [OF Some] u by auto
      note ch = BBLOCK_chunk [OF less.prems(5) bi(1)]
      have "\<forall>d. b \<le> d \<and> d < b + bi \<longrightarrow> used s d" using bi(4) by (metis le_Suc_ex nat_add_left_cancel_less)
      moreover obtain s' where s': "seq (log_write bp (set_data bp (mark bi (view s ?n)) (upd_buf bp (taken s ?n r) s))) (\<lambda>s.
            seq (brelse bp s) (\<lambda>s. seq (bzero ROOTDEV (of_nat (b + bi)) s) (\<lambda>s. Ret (of_nat (b + bi) :: uint32, s)))) =
            Ret (of_nat (b + bi), s')" "tx_next H (alloc_view s (b + bi)) 2 s s'"
        using balloc_found [OF less.prems(1-4) bi(2,3), of bp r] bp ch by auto
      moreover have "balloc_from ?sz ROOTDEV b s = Ret (of_nat (b + bi), s')"
        using s'(1) bp(1) Some True by (subst balloc_from.simps) (simp add: Let_def mark_def)
      ultimately show ?thesis using bi unfolding balloc_post_def by (metis le_add1)
    next
      case None
      then have full: "used s d" if "b \<le> d" "d < b + BPB" "d < ?sz" for d
        using u [of "d - b"] that by (auto simp: find_None_iff)
      have "?n \<in> pins s \<or> view s ?n = blk s ?n" by (rule tx_clean [OF less.prems(1) nH])
      from tx_close [OF less.prems(1) bp(2-4) this] obtain s1 where
        1: "brelse bp (upd_buf bp (taken s ?n r) s) = Ret s1" "tx_next H (view s) 0 s s1" by blast
      note k = fs_layout_next [OF 1(2) less.prems(2,3)]
      have "?sz - (b + BPB) < ?sz - b" using True by (simp add: BPB_def BSIZE_def)
      with less.hyps [of s1 "b + BPB"] obtain a s' where 2: "balloc_from ?sz ROOTDEV (b + BPB) s1 = Ret (a, s')"
          "balloc_post H (b + BPB) a s1 s'"
        using k tx_nextD(1) [OF 1(2)] tx_room_next [OF 1(2)] less.prems(4,5) by auto
      have "balloc_post H b a s s'" by (rule balloc_post_step [OF 1(2) k(3,4) full _ 2(2)]) auto
      then show ?thesis using 1(1) 2(1) bp(1) None True by (subst balloc_from.simps) (auto simp: Let_def)
    qed
  qed
qed

lemma used_mark:
  assumes "sb s' = sb s" "length (view s (BBLOCK c (sb s))) = BSIZE" "c < 4294967296" "d < 4294967296"
  shows "view s' (BBLOCK d (sb s)) = ((view s)(BBLOCK c (sb s) := mark (c mod BPB) (view s (BBLOCK c (sb s))))) (BBLOCK d (sb s)) \<Longrightarrow>
      used s' d \<longleftrightarrow> used s d \<or> d = c"
    "view s' (BBLOCK d (sb s)) = ((view s)(BBLOCK c (sb s) := unmark (c mod BPB) (view s (BBLOCK c (sb s))))) (BBLOCK d (sb s)) \<Longrightarrow>
      used s' d \<longleftrightarrow> used s d \<and> d \<noteq> c"
proof -
  have m: "c mod BPB < BPB" "d mod BPB < BPB" by (simp_all add: BPB_def BSIZE_def)
  have eq: "d = c \<longleftrightarrow> BBLOCK d (sb s) = BBLOCK c (sb s) \<and> d mod BPB = c mod BPB"
    using BBLOCK_inj [OF assms(4,3)] by (metis div_mult_mod_eq)
  show "used s' d \<longleftrightarrow> used s d \<or> d = c"
    if "view s' (BBLOCK d (sb s)) = ((view s)(BBLOCK c (sb s) := mark (c mod BPB) (view s (BBLOCK c (sb s))))) (BBLOCK d (sb s))"
    using bit_clear_mark(1) [OF assms(2) m] that eq by (auto simp: used_def assms(1) split: if_splits)
  show "used s' d \<longleftrightarrow> used s d \<and> d \<noteq> c"
    if "view s' (BBLOCK d (sb s)) = ((view s)(BBLOCK c (sb s) := unmark (c mod BPB) (view s (BBLOCK c (sb s))))) (BBLOCK d (sb s))"
    using bit_clear_mark(2) [OF assms(2) m] that eq by (auto simp: used_def assms(1) split: if_splits)
qed

lemma alloc_view_used:
  assumes t: "in_tx H s" and lay: "fs_layout s" and c: "c < unat (sb_size (sb s))" "\<not> used s c"
    and s': "view s' = alloc_view s c" "sb s' = sb s" and d: "d < unat (sb_size (sb s))"
  shows "used s' d \<longleftrightarrow> used s d \<or> d = c"
proof (rule used_mark(1) [OF s'(2) _ size_bound [OF c(1)] size_bound [OF d]])
  show "length (view s (BBLOCK c (sb s))) = BSIZE" using t held_length(1) by (auto simp: in_tx_def)
  have "of_nat c \<noteq> BBLOCK d (sb s)" using lay c d by (auto simp: fs_layout_def)
  then show "view s' (BBLOCK d (sb s)) = ((view s)(BBLOCK c (sb s) := mark (c mod BPB) (view s (BBLOCK c (sb s))))) (BBLOCK d (sb s))"
    by (simp add: s'(1) alloc_view_def)
qed

lemma bfree_ok:
  assumes t: "in_tx H s" and n: "\<forall>c\<in>H. b_blockno (bufs s c) \<noteq> BBLOCK (unat b) (sb s)"
    "BBLOCK (unat b) (sb s) \<notin> log_area s" and room: "tx_room H 1 s"
  shows "\<not> used s (unat b) \<Longrightarrow> bfree ROOTDEV b s = Panic ''freeing free block''"
    "used s (unat b) \<Longrightarrow> \<exists>s'. bfree ROOTDEV b s = Ret s' \<and>
       tx_next H ((view s)(BBLOCK (unat b) (sb s) := unmark (unat b mod BPB) (view s (BBLOCK (unat b) (sb s))))) 1 s s'"
proof -
  let ?n = "BBLOCK (unat b) (sb s)"
  obtain bp r where bp: "bread ROOTDEV ?n s = Ret (bp, upd_buf bp (taken s ?n r) s)" "bp \<notin> H"
      "in_tx (insert bp H) (upd_buf bp (taken s ?n r) s)" "view (upd_buf bp (taken s ?n r) s) = view s"
    using tx_open [OF t n(1) room] by auto
  show "\<not> used s (unat b) \<Longrightarrow> bfree ROOTDEV b s = Panic ''freeing free block''"
    using bp(1) by (simp add: bfree_def Let_def used_def)
  have len: "length (unmark (unat b mod BPB) (view s ?n)) = BSIZE" using t held_length(1) by (auto simp: in_tx_def)
  from tx_write [OF t bp(2-4) n(2) room len]
  show "used s (unat b) \<Longrightarrow> \<exists>s'. bfree ROOTDEV b s = Ret s' \<and>
       tx_next H ((view s)(?n := unmark (unat b mod BPB) (view s ?n))) 1 s s'"
    using bp(1) by (auto simp: bfree_def Let_def used_def unmark_def)
qed

text \<open>
  C18. Inside a transaction with room for three more blocks, \<open>balloc\<close> returns the first block
  whose bit is clear, zeroed and now marked in use, or 0 exactly when every block is in use;
  nothing else of the bitmap and no other block changes. \<open>bfree\<close> of the block restores the
  bitmap, and freeing it a second time panics.
\<close>

theorem balloc_bfree:
  assumes "in_tx {} s" "fs_layout s" "tx_room {} 4 s"
  shows "\<exists>a s'. balloc ROOTDEV s = Ret (a, s') \<and>
    (if a = 0 then (\<forall>b < unat (sb_size (sb s)). used s b) \<and> view s' = view s
     else unat a < unat (sb_size (sb s)) \<and> \<not> used s (unat a) \<and> (\<forall>b < unat a. used s b) \<and>
          view s' a = replicate BSIZE 0 \<and>
          (\<forall>b < unat (sb_size (sb s)). used s' b \<longleftrightarrow> used s b \<or> b = unat a) \<and>
          (\<forall>n. n \<noteq> a \<and> n \<noteq> BBLOCK (unat a) (sb s) \<longrightarrow> view s' n = view s n) \<and>
          (\<exists>s''. bfree ROOTDEV a s' = Ret s'' \<and> (\<forall>n. n \<noteq> a \<longrightarrow> view s'' n = view s n) \<and>
                 bfree ROOTDEV a s'' = Panic ''freeing free block''))"
proof -
  let ?sz = "unat (sb_size (sb s))"
  have "held_off {} s" by (simp add: held_off_def)
  from balloc_from_ok [OF assms(1,2) this tx_room_weaken [OF assms(3)], of 0] obtain a s' where
    1: "balloc ROOTDEV s = Ret (a, s')" "balloc_post {} 0 a s s'" by (auto simp: balloc_def)
  show ?thesis
  proof (cases "a = 0")
    case True
    from 1(2) have "(\<forall>b < ?sz. used s b) \<and> view s' = view s"
      unfolding balloc_post_def
    proof
      assume "\<exists>c\<ge>0. c < ?sz \<and> \<not> used s c \<and> (\<forall>d. 0 \<le> d \<and> d < c \<longrightarrow> used s d) \<and> a = of_nat c \<and> tx_next {} (alloc_view s c) 2 s s'"
      then obtain c where "c < ?sz" "\<not> used s c" "of_nat c = (0 :: uint32)" using True by auto
      then have "c = 0" using of_nat_u32_inj [of c 0] size_bound [of c s] by simp
      then show ?thesis using \<open>\<not> used s c\<close> assms(2) by (simp add: fs_layout_def)
    qed (auto simp: tx_next_def)
    then show ?thesis using 1(1) True by auto
  next
    case False
    then obtain c where c: "c < ?sz" "\<not> used s c" "\<forall>d<c. used s d" "a = of_nat c" "tx_next {} (alloc_view s c) 2 s s'"
      using 1(2) by (auto simp: balloc_post_def)
    have ua: "unat a = c" using c(4) size_bound [OF c(1)] by (simp add: unat_of_nat)
    note d = tx_nextD [OF c(5)]
    have f: "sb s' = sb s" using fs_fields [OF d(7)] by simp
    have ne: "a \<noteq> BBLOCK c (sb s)" using assms(2) c by (auto simp: fs_layout_def)
    have used': "used s' b \<longleftrightarrow> used s b \<or> b = c" if "b < ?sz" for b
      using alloc_view_used [OF assms(1,2) c(1,2) d(2) f that] .
    have bl: "BBLOCK (unat a) (sb s') \<notin> log_area s'" using assms(2) c(1) ua by (simp add: fs_layout_def f d(6))
    obtain s'' where 2: "bfree ROOTDEV a s' = Ret s''"
        "tx_next {} ((view s')(BBLOCK c (sb s) := unmark (c mod BPB) (view s' (BBLOCK c (sb s))))) 1 s' s''"
      using bfree_ok(2) [OF d(1) _ bl] tx_room_next [OF c(5), of 1] tx_room_weaken [OF assms(3), of 3] used' [OF c(1)] c(1) ua f
      by auto
    note d2 = tx_nextD [OF 2(2)]
    have f2: "sb s'' = sb s" using fs_fields [OF d2(7)] f by simp
    have len: "length (view s (BBLOCK c (sb s))) = BSIZE" using assms(1) held_length(1) by (auto simp: in_tx_def)
    have undo: "unmark (c mod BPB) (view s' (BBLOCK c (sb s))) = view s (BBLOCK c (sb s))"
      using unmark_mark [OF _ len, of "c mod BPB"] c(2) ne c(4) by (simp add: d(2) alloc_view_def used_def) (simp add: BPB_def BSIZE_def)
    have v2: "view s'' n = view s n" if "n \<noteq> a" for n
      unfolding d2(2) using that undo by (auto simp: d(2) alloc_view_def c(4))
    then have "\<not> used s'' c" using c(2) ne c(4) by (metis used_def f2)
    moreover have "tx_room {} 1 s''" using tx_room_next [OF 2(2), of 1] tx_room_next [OF c(5), of 2] assms(3) by simp
    ultimately have "bfree ROOTDEV a s'' = Panic ''freeing free block''"
      using bfree_ok(1) [OF d2(1), of a] bl d2(6) ua f f2 by simp
    moreover have "view s' a = replicate BSIZE 0" by (simp add: d(2) alloc_view_def c(4))
    moreover have "\<forall>n. n \<noteq> a \<and> n \<noteq> BBLOCK (unat a) (sb s) \<longrightarrow> view s' n = view s n"
      unfolding ua by (simp add: d(2) alloc_view_def c(4))
    ultimately show ?thesis using 1(1) False c(1-3) used' 2(1) v2 by (intro exI [of _ a] exI [of _ s']) (simp add: ua)
  qed
qed

section \<open>An example disk\<close>

lemma in_tx_binit:
  assumes "\<forall>c. bufs s c = zero_buf" "\<forall>n. length (blk s n) = BSIZE" "l_dev s = ROOTDEV" "lh_n s = 0" "0 < l_size s" "l_size s \<le> LOGSIZE"
  shows "in_tx {} (binit s)" "view (binit s) = blk s"
proof -
  have z: "\<forall>c. \<not> b_valid (bufs s c) \<and> b_dev (bufs s c) = 0 \<and> b_refcnt (bufs s c) = 0 \<and>
      b_lock (bufs s c) = initsleeplock \<and> length (b_data (bufs s c)) = BSIZE"
    using assms(1) by (simp add: zero_buf_def)
  show "in_tx {} (binit s)" using held_binit(1) [OF z assms(2)] assms(3-6) by (simp add: in_tx_def pins_def)
  show "view (binit s) = blk s" by (rule held_binit(2) [OF z assms(2)])
qed

definition zero_inode :: inode where
  "zero_inode = \<lparr>i_dev = 0, i_inum = 0, i_ref = 0, i_lock = initsleeplock, i_valid = False, i_type = 0, i_major = 0,
     i_minor = 0, i_nlink = 0, i_size = 0, i_addrs = replicate 13 0\<rparr>"

text \<open>A file system of 100 blocks: log at 2, inodes at 32, bitmap at 45, the first 48 blocks in use.\<close>

definition small_fs0 :: "(uint32 \<Rightarrow> block) \<Rightarrow> fsstate" where
  "small_fs0 d = \<lparr>bufs = (\<lambda>_. zero_buf), blk = d, dtrace = [], mypid = 1,
     l_start = 2, l_size = 30, outstanding = 1, committing = False, l_dev = ROOTDEV, lh_n = 0, lh_block = (\<lambda>_. 0),
     sb = \<lparr>sb_magic = FSMAGIC, sb_size = 100, sb_nblocks = 54, sb_ninodes = 200, sb_nlog = 30, sb_logstart = 2,
       sb_inodestart = 32, sb_bmapstart = 45\<rparr>,
     itable = (\<lambda>_. zero_inode), km = \<lparr>kmem_mem = (\<lambda>_. 0), freelist = 0, kend = 0\<rparr>, upagetable = 0, cwd = 0\<rparr>"

definition small_disk :: "uint32 \<Rightarrow> block" where
  "small_disk n = (if n = 45 then replicate 6 255 @ replicate 1018 0 else replicate BSIZE 0)"

definition small_fs :: fsstate where "small_fs = binit (small_fs0 small_disk)"

lemma binit_fs [simp]: "sb (binit s) = sb s" "itable (binit s) = itable s" "km (binit s) = km s"
proof -
  have "bstate.more (fold (\<lambda>b s. lru_insert b (upd_buf b (b_lock_update (\<lambda>_. initsleeplock)) s)) bs t) = bstate.more t"
    for bs and t :: "'a fsstate_scheme" by (induction bs arbitrary: t) simp_all
  then have "bstate.more (binit s) = bstate.more s" by (simp add: binit_def Let_def)
  from fs_fields [OF lmore [OF this]]
  show "sb (binit s) = sb s" "itable (binit s) = itable s" "km (binit s) = km s" by simp_all
qed

lemma small_fs_tx: "in_tx {} small_fs" "view small_fs = small_disk" "tx_room {} 4 small_fs"
proof -
  have "\<forall>n. length (blk (small_fs0 small_disk) n) = BSIZE" by (simp add: small_fs0_def small_disk_def BSIZE_def)
  from in_tx_binit [OF _ this] show "in_tx {} small_fs" "view small_fs = small_disk"
    by (simp_all add: small_fs_def small_fs0_def LOGSIZE_def)
qed (simp add: tx_room_def small_fs_def small_fs0_def NBUF_def)

lemma small_fs_used: "b < 100 \<Longrightarrow> used small_fs b \<longleftrightarrow> b < 48"
proof -
  assume b: "b < 100"
  then have "view small_fs (BBLOCK b (sb small_fs)) = replicate 6 255 @ replicate 1018 0" "b mod BPB = b"
    using small_fs_tx(2) by (simp_all add: BBLOCK_def BPB_def BSIZE_def small_fs_def small_fs0_def small_disk_def)
  moreover have "list_all (bit (255 :: uint8)) [0..<8]" by code_simp
  then have "bit (255 :: uint8) (b mod 8)" by (simp add: list_all_iff)
  ultimately show ?thesis using b by (auto simp: used_def bit_clear_iff nth_append)
qed

theorem balloc_bfree_witness:
  "\<exists>s'. balloc ROOTDEV small_fs = Ret (48, s') \<and> used s' 48 \<and> view s' 48 = replicate BSIZE 0"
proof -
  have f: "sb_size (sb small_fs) = 100" by (simp add: small_fs_def small_fs0_def)
  have g: "BBLOCK b (sb small_fs) = 45" if "b < 100" for b
    using that by (simp add: small_fs_def small_fs0_def BBLOCK_def BPB_def BSIZE_def)
  have la: "n \<in> log_area small_fs \<Longrightarrow> n < 32" for n
    by (auto simp: log_area_def small_fs_def small_fs0_def word_less_nat_alt unat_word_ariths unat_of_nat)
  have "of_nat b \<notin> log_area small_fs \<and> of_nat b \<noteq> (45 :: uint32)" if "b < 100" "\<not> b < 48" for b
    using that la [of "of_nat b"] of_nat_u32_inj [of b 45] by (auto simp: word_less_nat_alt unat_of_nat)
  then have "fs_layout small_fs"
    using f g small_fs_used la [of 45] by (auto simp: fs_layout_def)
  from balloc_bfree [OF small_fs_tx(1) this small_fs_tx(3)] obtain a s' where
    1: "balloc ROOTDEV small_fs = Ret (a, s')" "if a = 0 then \<forall>b<100. used small_fs b else unat a < 100 \<and>
        \<not> used small_fs (unat a) \<and> (\<forall>b<unat a. used small_fs b) \<and> view s' a = replicate BSIZE 0 \<and> used s' (unat a)"
    using f by (auto split: if_splits)
  have "\<not> used small_fs 48" using small_fs_used [of 48] by simp
  then have a: "a \<noteq> 0" "unat a < 100" "\<not> used small_fs (unat a)" "\<forall>b<unat a. used small_fs b"
    "view s' a = replicate BSIZE 0" "used s' (unat a)" using 1(2) by (auto split: if_splits)
  have "unat a = 48" using a(2-4) small_fs_used [of "unat a"] \<open>\<not> used small_fs 48\<close> by (metis linorder_neqE_nat)
  moreover from this have "a = 48" by (simp add: word_unat_eq_iff)
  ultimately show ?thesis using 1(1) a by auto
qed

end
