(* ===== verification/Fs_Inodes.thy ===== *)
theory Fs_Inodes
  imports Fs_Blocks
begin

text \<open>
  Inodes of \<^verbatim>\<open>kernel/fs.c\<close>: the on-disk format, the table of in-memory inodes, and the contents
  of a file. A file is a sequence of bytes spread over its direct blocks and the blocks its
  indirect block lists; \<open>readi\<close> and \<open>writei\<close> are shown to read and write that sequence.
\<close>

section \<open>On-disk inodes\<close>

lemma fold_put32:
  assumes "j + 4 * n \<le> length d"
  shows "length (fold (\<lambda>i. put32 (j + 4 * i) (f i)) [0..<n] d) = length d"
    and "i < n \<Longrightarrow> get32 (fold (\<lambda>i. put32 (j + 4 * i) (f i)) [0..<n] d) (j + 4 * i) = f i"
    and "k + 2 \<le> j \<or> j + 4 * n \<le> k \<Longrightarrow> get16 (fold (\<lambda>i. put32 (j + 4 * i) (f i)) [0..<n] d) k = get16 d k"
    and "k + 4 \<le> j \<or> j + 4 * n \<le> k \<Longrightarrow> get32 (fold (\<lambda>i. put32 (j + 4 * i) (f i)) [0..<n] d) k = get32 d k"
  using assms by (induction n) (auto simp: less_Suc_eq)

lemma dinode_off_le: "dinode_off i + 64 \<le> BSIZE" "dinode_off i mod 64 = 0"
proof -
  have "unat i mod 16 < 16" by simp
  then show "dinode_off i + 64 \<le> BSIZE" unfolding dinode_off_def IPB_def BSIZE_def by simp
qed (simp add: dinode_off_def)

text \<open>What \<open>put_dinode\<close> stores \<open>get_dinode\<close> reads, and the other slots of the block keep their contents.\<close>

lemma dinode_slot:
  assumes "length d = BSIZE" "length (i_addrs x) = NDIRECT + 1"
  shows "get_dinode (dinode_off i) (put_dinode (dinode_off i) x d) y =
           y\<lparr>i_type := i_type x, i_major := i_major x, i_minor := i_minor x, i_nlink := i_nlink x,
             i_size := i_size x, i_addrs := i_addrs x\<rparr> \<and>
         (dinode_off j \<noteq> dinode_off i \<longrightarrow>
            get_dinode (dinode_off j) (put_dinode (dinode_off i) x d) y = get_dinode (dinode_off j) d y)"
proof -
  let ?o = "dinode_off i" and ?p = "dinode_off j"
  have o: "?o + 64 \<le> length d" using dinode_off_le(1) assms(1) by simp
  let ?d = "put32 (?o + 8) (i_size x) (put16 (?o + 6) (i_nlink x) (put16 (?o + 4) (i_minor x)
    (put16 (?o + 2) (i_major x) (put16 ?o (i_type x) d))))"
  have "?o + 12 + 4 * 13 \<le> length ?d" using o by simp
  note f = fold_put32 [OF this, where f = "\<lambda>i. i_addrs x ! i"]
  have eq: "put_dinode ?o x d = fold (\<lambda>i. put32 (?o + 12 + 4 * i) (i_addrs x ! i)) [0..<13] ?d"
    by (simp add: put_dinode_def Let_def NDIRECT_def)
  have a: "map (\<lambda>i. get32 (put_dinode ?o x d) (?o + 12 + 4 * i)) [0..<NDIRECT + 1] = i_addrs x"
    unfolding eq by (rule nth_equalityI) (use f(2) assms(2) in \<open>simp_all add: NDIRECT_def\<close>)
  have h: "get16 (put_dinode ?o x d) ?o = i_type x" "get16 (put_dinode ?o x d) (?o + 2) = i_major x"
    "get16 (put_dinode ?o x d) (?o + 4) = i_minor x" "get16 (put_dinode ?o x d) (?o + 6) = i_nlink x"
    unfolding eq using o by (subst f(3); simp)+
  have z: "get32 (put_dinode ?o x d) (?o + 8) = i_size x"
    unfolding eq using o by (subst f(4)) simp_all
  have far: "?p + 64 \<le> ?o \<or> ?o + 64 \<le> ?p" if "?p \<noteq> ?o"
  proof -
    have "unat j mod IPB < unat i mod IPB \<or> unat i mod IPB < unat j mod IPB" using that by (auto simp: dinode_off_def)
    then show ?thesis unfolding dinode_off_def by linarith
  qed
  have other: "get16 (put_dinode ?o x d) (?p + k) = get16 d (?p + k)" if "?p \<noteq> ?o" "k + 2 \<le> 64" for k
    unfolding eq using far [OF that(1)] that(2) by (subst f(3)) auto
  have other32: "get32 (put_dinode ?o x d) (?p + k) = get32 d (?p + k)" if "?p \<noteq> ?o" "k + 4 \<le> 64" for k
    unfolding eq using far [OF that(1)] that(2) by (subst f(4)) auto
  have "get_dinode ?p (put_dinode ?o x d) y = get_dinode ?p d y" if "?p \<noteq> ?o"
  proof -
    have "map (\<lambda>i. get32 (put_dinode ?o x d) (?p + 12 + 4 * i)) [0..<NDIRECT + 1] = map (\<lambda>i. get32 d (?p + 12 + 4 * i)) [0..<NDIRECT + 1]"
      using other32 [OF that] by (auto simp: NDIRECT_def add.assoc)
    then show ?thesis using other [OF that, of 0] other [OF that, of 2] other [OF that, of 4] other [OF that, of 6]
        other32 [OF that, of 8] unfolding get_dinode_def by simp
  qed
  moreover have "get_dinode ?o (put_dinode ?o x d) y =
      y\<lparr>i_type := i_type x, i_major := i_major x, i_minor := i_minor x, i_nlink := i_nlink x,
        i_size := i_size x, i_addrs := i_addrs x\<rparr>"
    unfolding get_dinode_def a h z ..
  ultimately show ?thesis by blast
qed

section \<open>The inode table\<close>

lemma upd_ip_simps [simp]:
  "itable (upd_ip ip f s) = (itable s)(ip := f (itable s ip))"
  "bufs (upd_ip ip f s) = bufs s" "blk (upd_ip ip f s) = blk s" "mypid (upd_ip ip f s) = mypid s"
  "dtrace (upd_ip ip f s) = dtrace s" "sb (upd_ip ip f s) = sb s" "km (upd_ip ip f s) = km s"
  "upagetable (upd_ip ip f s) = upagetable s" "cwd (upd_ip ip f s) = cwd s"
  "l_start (upd_ip ip f s) = l_start s" "l_size (upd_ip ip f s) = l_size s" "outstanding (upd_ip ip f s) = outstanding s"
  "lh_n (upd_ip ip f s) = lh_n s" "lh_block (upd_ip ip f s) = lh_block s" "l_dev (upd_ip ip f s) = l_dev s"
  by (simp_all add: upd_ip_def)

lemma upd_ip_tx [simp]:
  "in_tx H (upd_ip ip f s) = in_tx H s" "view (upd_ip ip f s) = view s" "log_area (upd_ip ip f s) = log_area s"
  "pins (upd_ip ip f s) = pins s" "tx_room H k (upd_ip ip f s) = tx_room H k s"
proof -
  have h: "held H P (upd_ip ip f s) = held H P s" for P by (rule held_same) simp_all
  show "view (upd_ip ip f s) = view s" by (rule held_same) simp_all
  show p: "pins (upd_ip ip f s) = pins s" and a: "log_area (upd_ip ip f s) = log_area s"
    by (simp_all add: pins_def log_area_def)
  show "in_tx H (upd_ip ip f s) = in_tx H s" unfolding in_tx_def h p a by simp
  show "tx_room H k (upd_ip ip f s) = tx_room H k s" by (simp add: tx_room_def)
qed

text \<open>No inode is in the table twice, and no count is negative.\<close>

definition in_use :: "'a fsstate_scheme \<Rightarrow> uint32 \<Rightarrow> uint32 \<Rightarrow> nat \<Rightarrow> bool" where
  "in_use s dev inum ip \<longleftrightarrow>
     ip < NINODE \<and> i_ref (itable s ip) > 0 \<and> i_dev (itable s ip) = dev \<and> i_inum (itable s ip) = inum"

definition itable_ok :: "'a fsstate_scheme \<Rightarrow> bool" where
  "itable_ok s \<longleftrightarrow>
     (\<forall>ip<NINODE. i_ref (itable s ip) \<ge> 0) \<and>
     (\<forall>dev inum ip jp. in_use s dev inum ip \<and> in_use s dev inum jp \<longrightarrow> ip = jp)"

text \<open>
  C20. \<open>iget\<close> keeps the inode table free of duplicates. It returns the entry of the inode if
  there is one, and otherwise takes over an unreferenced entry, leaving every other entry as
  it is; it panics exactly when the inode is absent and every entry is referenced.
\<close>

theorem iget_unique:
  assumes "itable_ok s"
  shows "case iget dev inum s of
      Ret (ip, s') \<Rightarrow> itable_ok s' \<and> in_use s' dev inum ip \<and>
        (\<forall>jp. jp \<noteq> ip \<longrightarrow> itable s' jp = itable s jp) \<and>
        (if in_use s dev inum ip then itable s' ip = (itable s ip)\<lparr>i_ref := i_ref (itable s ip) + 1\<rparr>
         else i_ref (itable s ip) = 0 \<and> i_ref (itable s' ip) = 1 \<and> \<not> i_valid (itable s' ip) \<and> (\<forall>jp. \<not> in_use s dev inum jp))
    | Panic _ \<Rightarrow> (\<forall>jp<NINODE. i_ref (itable s jp) > 0) \<and> (\<forall>jp. \<not> in_use s dev inum jp)
    | Blocked \<Rightarrow> False"
proof (cases "find (\<lambda>ip. i_ref (itable s ip) > 0 \<and> i_dev (itable s ip) = dev \<and> i_inum (itable s ip) = inum) [0..<NINODE]")
  case (Some ip)
  then have u: "in_use s dev inum ip" using find_SomeD [OF Some] by (auto simp: in_use_def)
  let ?s = "upd_ip ip (i_ref_update (\<lambda>r. r + 1)) s"
  have "in_use ?s d n jp = in_use s d n jp" for d n jp using u by (auto simp: in_use_def)
  then have "itable_ok ?s" using assms u unfolding itable_ok_def by (auto simp: in_use_def)
  then show ?thesis using Some u by (auto simp: iget_def in_use_def)
next
  case None
  then have nu: "\<not> in_use s dev inum jp" for jp by (auto simp: find_None_iff in_use_def)
  show ?thesis
  proof (cases "find (\<lambda>ip. i_ref (itable s ip) = 0) [0..<NINODE]")
    case n2: None
    then have "i_ref (itable s jp) > 0" if "jp < NINODE" for jp
      using that assms by (force simp: find_None_iff itable_ok_def)
    then show ?thesis using None n2 nu by (simp add: iget_def)
  next
    case (Some ip)
    then have ip: "ip < NINODE" "i_ref (itable s ip) = 0" using find_SomeD [OF Some] by auto
    let ?s = "upd_ip ip (\<lambda>x. x\<lparr>i_dev := dev, i_inum := inum, i_ref := 1, i_valid := False\<rparr>) s"
    have iu: "in_use ?s d n jp = (if jp = ip then d = dev \<and> n = inum else in_use s d n jp)" for d n jp
      using ip by (auto simp: in_use_def)
    have "itable_ok ?s" using assms ip nu unfolding itable_ok_def iu by (auto split: if_splits)
    then show ?thesis using None Some ip nu by (auto simp: iget_def iu)
  qed
qed

theorem iget_unique_witness:
  "itable_ok small_fs \<and> iget ROOTDEV 7 small_fs \<noteq> Blocked \<and> (\<forall>m. iget ROOTDEV 7 small_fs \<noteq> Panic m)"
proof -
  have ok: "itable_ok small_fs"
    by (auto simp: itable_ok_def in_use_def small_fs_def small_fs0_def zero_inode_def)
  have "\<not> (\<forall>jp<NINODE. i_ref (itable small_fs jp) > 0)"
    by (auto simp: small_fs_def small_fs0_def zero_inode_def NINODE_def intro!: exI [of _ 0])
  then show ?thesis using iget_unique [OF ok, of ROOTDEV 7] ok by (cases "iget ROOTDEV 7 small_fs") auto
qed

section \<open>The contents of a file\<close>

definition file_block :: "'a fsstate_scheme \<Rightarrow> nat \<Rightarrow> nat \<Rightarrow> uint32" where
  "file_block s ip k =
     (if k < NDIRECT then i_addrs (itable s ip) ! k
      else get32 (view s (i_addrs (itable s ip) ! NDIRECT)) (4 * (k - NDIRECT)))"

definition file_byte :: "'a fsstate_scheme \<Rightarrow> nat \<Rightarrow> nat \<Rightarrow> uint8" where
  "file_byte s ip p = view s (file_block s ip (p div BSIZE)) ! (p mod BSIZE)"

text \<open>
  The first \<open>N\<close> blocks of the file are allocated, distinct, outside the log, and none of
  them is the inode's own block or the indirect block.
\<close>

definition file_ok :: "'a fsstate_scheme \<Rightarrow> nat \<Rightarrow> nat \<Rightarrow> bool" where
  "file_ok s ip N \<longleftrightarrow>
     i_dev (itable s ip) = ROOTDEV \<and> N \<le> MAXFILE \<and> inj_on (file_block s ip) {..<N} \<and>
     (N > NDIRECT \<longrightarrow> i_addrs (itable s ip) ! NDIRECT \<noteq> 0) \<and>
     IBLOCK (i_inum (itable s ip)) (sb s) \<notin> log_area s \<and>
     IBLOCK (i_inum (itable s ip)) (sb s) \<noteq> i_addrs (itable s ip) ! NDIRECT \<and>
     (\<forall>k<N. file_block s ip k \<noteq> 0 \<and> file_block s ip k \<notin> log_area s \<and>
        file_block s ip k \<noteq> IBLOCK (i_inum (itable s ip)) (sb s) \<and>
        file_block s ip k \<noteq> i_addrs (itable s ip) ! NDIRECT)"

lemma bmap_ok:
  assumes t: "in_tx {} s" and f: "file_ok s ip N" and k: "k < N" and room: "tx_room {} 0 s"
  shows "\<exists>s'. bmap ip k s = Ret (file_block s ip k, s') \<and> tx_next {} (view s) 0 s s'"
proof (cases "k < NDIRECT")
  case True
  moreover have "file_block s ip k \<noteq> 0" using f k by (simp add: file_ok_def)
  ultimately show ?thesis using tx_next_refl [OF t] by (auto simp: bmap_def file_block_def Let_def)
next
  case False
  let ?n = "i_addrs (itable s ip) ! NDIRECT"
  obtain bp r where bp: "bread ROOTDEV ?n s = Ret (bp, upd_buf bp (taken s ?n r) s)"
      "in_tx {bp} (upd_buf bp (taken s ?n r) s)" "view (upd_buf bp (taken s ?n r) s) = view s"
    using tx_open [OF t, of ?n 0] room by auto
  have "?n \<in> pins s \<or> view s ?n = blk s ?n" using tx_clean [OF t] by simp
  with tx_close [OF t _ bp(2,3)] obtain s' where "brelse bp (upd_buf bp (taken s ?n r) s) = Ret s'" "tx_next {} (view s) 0 s s'"
    by auto
  moreover have "file_block s ip k \<noteq> 0" "?n \<noteq> 0" "k - NDIRECT < NINDIRECT" "i_dev (itable s ip) = ROOTDEV"
    using f k False by (auto simp: file_ok_def MAXFILE_def)
  ultimately show ?thesis using bp(1) False by (simp add: bmap_def file_block_def Let_def)
qed

lemma file_next:
  assumes "tx_next {} (view s) j s s'" 
  shows "file_block s' ip = file_block s ip" "file_byte s' ip = file_byte s ip" "file_ok s' ip N = file_ok s ip N"
    "itable s' = itable s"
proof -
  note d = tx_nextD [OF assms]
  note f = fs_fields [OF d(7)]
  show "itable s' = itable s" by (rule f(2))
  show b: "file_block s' ip = file_block s ip" by (intro ext) (simp add: file_block_def d(2) f)
  show "file_byte s' ip = file_byte s ip" by (intro ext) (simp add: file_byte_def b d(2))
  show "file_ok s' ip N = file_ok s ip N" by (simp add: file_ok_def b f d(6))
qed

lemma chunk_pos:
  assumes "off mod BSIZE + i < BSIZE"
  shows "(off + i) div BSIZE = off div BSIZE" "(off + i) mod BSIZE = off mod BSIZE + i"
proof -
  have "i < BSIZE" using assms by simp
  then show "(off + i) div BSIZE = off div BSIZE" using assms div_add1_eq [of off i BSIZE] by simp
  show "(off + i) mod BSIZE = off mod BSIZE + i" using assms mod_add_left_eq [of off BSIZE i] by simp
qed

lemma chunk_bytes:
  assumes "m \<le> BSIZE - off mod BSIZE" "length (view s (file_block s ip (off div BSIZE))) = BSIZE"
  shows "get_bytes (view s (file_block s ip (off div BSIZE))) (off mod BSIZE) m = map (file_byte s ip) [off..<off + m]"
proof (rule nth_equalityI)
  have "off mod BSIZE < BSIZE" by (simp add: BSIZE_def)
  then show l: "length (get_bytes (view s (file_block s ip (off div BSIZE))) (off mod BSIZE) m) = length (map (file_byte s ip) [off..<off + m])"
    using assms by (simp add: get_bytes_def)
  fix i assume "i < length (get_bytes (view s (file_block s ip (off div BSIZE))) (off mod BSIZE) m)"
  then have i: "i < m" "off mod BSIZE + i < BSIZE" using l assms(1) by auto
  then show "get_bytes (view s (file_block s ip (off div BSIZE))) (off mod BSIZE) m ! i = map (file_byte s ip) [off..<off + m] ! i"
    using assms chunk_pos [OF i(2)] by (simp add: get_bytes_def file_byte_def)
qed

lemma readi_loop_ok:
  assumes "in_tx {} s" "file_ok s ip N" "tx_room {} 0 s" "tot \<le> n" "off + (n - tot) \<le> N * BSIZE"
  shows "\<exists>s'. readi_loop ip (ToKernel buf) off n tot s =
           Ret (int n, ToKernel (buf @ map (file_byte s ip) [off..<off + (n - tot)]), s') \<and> tx_next {} (view s) 0 s s'"
  using assms
proof (induction "n - tot" arbitrary: off tot buf s rule: less_induct)
  case less
  show ?case
  proof (cases "tot < n")
    case False
    then show ?thesis using less.prems tx_next_refl by (auto simp: readi_loop.simps)
  next
    case True
    let ?k = "off div BSIZE"
    let ?a = "file_block s ip ?k"
    define m where "m = min (n - tot) (BSIZE - off mod BSIZE)"
    have "off < N * BSIZE" using True less.prems(5) by linarith
    then have k: "?k < N" by (simp add: less_mult_imp_div_less)
    obtain s1 where 1: "bmap ip ?k s = Ret (?a, s1)" "tx_next {} (view s) 0 s s1"
      using bmap_ok [OF less.prems(1,2) k less.prems(3)] by blast
    note d1 = tx_nextD [OF 1(2)] and f1 = file_next [OF 1(2)]
    have a: "?a \<noteq> 0" "i_dev (itable s1 ip) = ROOTDEV" using less.prems(2) k f1 by (auto simp: file_ok_def)
    have room1: "tx_room {} 0 s1" using tx_room_next [OF 1(2), of 0] less.prems(3) by simp
    obtain bp r where bp: "bread ROOTDEV ?a s1 = Ret (bp, upd_buf bp (taken s1 ?a r) s1)"
        "in_tx {bp} (upd_buf bp (taken s1 ?a r) s1)" "view (upd_buf bp (taken s1 ?a r) s1) = view s1"
      using tx_open [OF d1(1), of ?a 0] room1 by auto
    obtain s2 where 2: "brelse bp (upd_buf bp (taken s1 ?a r) s1) = Ret s2" "tx_next {} (view s1) 0 s1 s2"
      using tx_close [OF d1(1) _ bp(2,3)] tx_clean [OF d1(1), of ?a] by auto
    note d2 = tx_nextD [OF 2(2)] and f2 = file_next [OF 2(2)]
    have n2: "tx_next {} (view s) 0 s s2" using tx_next_trans [OF 1(2) 2(2)] d1(2) by simp
    have chunk: "get_bytes (view s ?a) (off mod BSIZE) m = map (file_byte s ip) [off..<off + m]"
      using chunk_bytes [of m off s ip] held_length(1) less.prems(1) by (auto simp: in_tx_def m_def)
    have m: "n - (tot + m) < n - tot" "tot + m \<le> n" "off + m + (n - (tot + m)) = off + (n - tot)"
      using True by (auto simp: BSIZE_def m_def)
    have "tx_room {} 0 s2" using tx_room_next [OF n2, of 0] less.prems(3) by simp
    moreover have "off + m + (n - (tot + m)) \<le> N * BSIZE" using less.prems(5) m(3) by simp
    ultimately obtain s3 where
      3: "readi_loop ip (ToKernel (buf @ map (file_byte s ip) [off..<off + m])) (off + m) n (tot + m) s2 =
          Ret (int n, ToKernel ((buf @ map (file_byte s ip) [off..<off + m]) @ map (file_byte s2 ip) [off + m..<off + m + (n - (tot + m))]), s3)"
        "tx_next {} (view s2) 0 s2 s3"
      using less.hyps [OF m(1) d2(1) _ _ m(2), where buf = "buf @ map (file_byte s ip) [off..<off + m]"] less.prems(2) f1(3) f2(3) by blast
    have "map (file_byte s ip) [off..<off + m] @ map (file_byte s2 ip) [off + m..<off + m + (n - (tot + m))] =
        map (file_byte s ip) [off..<off + (n - tot)]"
      unfolding f2(2) f1(2) map_append [symmetric]
      using upt_add_eq_append [of off "off + m" "n - (tot + m)"] by (simp only: m(3) le_add1)
    moreover have "tx_next {} (view s) 0 s s3" using tx_next_trans [OF n2 3(2)] d2(2) d1(2) by simp
    moreover have "readi_loop ip (ToKernel buf) off n tot s =
        readi_loop ip (ToKernel (buf @ map (file_byte s ip) [off..<off + m])) (off + m) n (tot + m) s2"
      using 1(1) a bp(1) 2(1) True chunk d1(2) by (simp add: readi_loop.simps [of ip _ off] Let_def flip: m_def)
    ultimately show ?thesis using 3(1) by simp
  qed
qed

lemma file_write:
  assumes n: "tx_next {} ((view s)(file_block s ip k := d)) j s s'" and f: "file_ok s ip N" and k: "k < N"
  shows "file_block s' ip = file_block s ip" "file_ok s' ip N" "itable s' = itable s"
    "p < N * BSIZE \<Longrightarrow> file_byte s' ip p = (if p div BSIZE = k then d ! (p mod BSIZE) else file_byte s ip p)"
proof -
  note dd = tx_nextD [OF n]
  note ff = fs_fields [OF dd(7)]
  have "file_block s ip k \<noteq> i_addrs (itable s ip) ! NDIRECT" using f k by (simp add: file_ok_def)
  then show b: "file_block s' ip = file_block s ip" by (intro ext) (simp add: file_block_def dd(2) ff)
  show "file_ok s' ip N" using f by (simp add: file_ok_def b ff dd(6))
  show "itable s' = itable s" by (rule ff(2))
  show "file_byte s' ip p = (if p div BSIZE = k then d ! (p mod BSIZE) else file_byte s ip p)" if "p < N * BSIZE"
  proof -
    have "p div BSIZE < N" using that by (simp add: less_mult_imp_div_less)
    then have "file_block s ip (p div BSIZE) = file_block s ip k \<longleftrightarrow> p div BSIZE = k"
      using f k by (auto simp: file_ok_def inj_on_def)
    then show ?thesis by (auto simp: file_byte_def b dd(2))
  qed
qed

text \<open>What writing the bytes \<open>bs\<close> at \<open>off\<close> leaves of a file whose first \<open>N\<close> blocks exist.\<close>

definition wrote_file :: "nat \<Rightarrow> nat \<Rightarrow> nat \<Rightarrow> uint8 list \<Rightarrow> 'a fsstate_scheme \<Rightarrow> 'a fsstate_scheme \<Rightarrow> bool" where
  "wrote_file ip N off bs s s' \<longleftrightarrow>
     file_block s' ip = file_block s ip \<and>
     (\<forall>p < N * BSIZE. file_byte s' ip p =
        (if off \<le> p \<and> p < off + length bs then bs ! (p - off) else file_byte s ip p)) \<and>
     (\<forall>b. b \<notin> file_block s ip ` {..<N} \<longrightarrow> view s' b = view s b)"

lemma wrote_file_chunk:
  assumes n: "tx_next {} ((view s)(file_block s ip k := put_bytes r bs (view s (file_block s ip k)))) j s s'"
    and f: "file_ok s ip N" and k: "k < N" "k = off div BSIZE" "r = off mod BSIZE" "r + length bs \<le> BSIZE"
    and len: "length (view s (file_block s ip k)) = BSIZE"
  shows "wrote_file ip N off bs s s'"
proof -
  note w = file_write [OF n f k(1)]
  have "file_byte s' ip p = (if off \<le> p \<and> p < off + length bs then bs ! (p - off) else file_byte s ip p)" if p: "p < N * BSIZE" for p
  proof (cases "p div BSIZE = k")
    case True
    have "p mod BSIZE < BSIZE" by (simp add: BSIZE_def)
    moreover have "off \<le> p \<and> p < off + length bs \<longleftrightarrow> r \<le> p mod BSIZE \<and> p mod BSIZE < r + length bs"
      "off \<le> p \<Longrightarrow> p mod BSIZE - r = p - off"
    proof -
      have "p = k * BSIZE + p mod BSIZE" "off = k * BSIZE + r"
        using True k(2,3) div_mult_mod_eq [of p BSIZE] div_mult_mod_eq [of off BSIZE] by simp_all
      then show "off \<le> p \<and> p < off + length bs \<longleftrightarrow> r \<le> p mod BSIZE \<and> p mod BSIZE < r + length bs"
        "off \<le> p \<Longrightarrow> p mod BSIZE - r = p - off" by linarith+
    qed
    ultimately show ?thesis using w(4) [OF p] True k(4) len by (auto simp: nth_put_bytes file_byte_def)
  next
    case False
    have "\<not> (off \<le> p \<and> p < off + length bs)"
    proof
      assume "off \<le> p \<and> p < off + length bs"
      then have "p = off + (p - off)" "off mod BSIZE + (p - off) < BSIZE" using k(3,4) by auto
      then show False using chunk_pos(1) [of off "p - off"] False k(2) by simp
    qed
    then show ?thesis using w(4) [OF p] False by auto
  qed
  moreover have "view s' b = view s b" if "b \<notin> file_block s ip ` {..<N}" for b
    using tx_nextD(2) [OF n] that k(1) by auto
  ultimately show ?thesis using w(1) by (simp add: wrote_file_def)
qed

lemma wrote_file_append:
  assumes 1: "wrote_file ip N off bs s t" and 2: "wrote_file ip N (off + length bs) cs t u"
  shows "wrote_file ip N off (bs @ cs) s u"
  using 1 2 unfolding wrote_file_def by (auto simp: nth_append)

lemma writei_loop_ok:
  assumes "in_tx {} s" "file_ok s ip N" "tx_room {} (int K) s" "length bs = n - tot" "tot \<le> n"
    and "off + (n - tot) \<le> N * BSIZE" "tot < n \<longrightarrow> off + (n - tot) \<le> (off div BSIZE + K) * BSIZE"
  shows "\<exists>s' v. writei_loop ip (FromKernel bs) off n tot s = Ret (n, s') \<and> tx_next {} v (int K) s s' \<and>
           wrote_file ip N off bs s s' \<and> file_ok s' ip N"
  using assms
proof (induction "n - tot" arbitrary: off tot bs s K rule: less_induct)
  case less
  show ?case
  proof (cases "tot < n")
    case False
    then have "wrote_file ip N off bs s s" using less.prems(4) by (auto simp: wrote_file_def)
    moreover have "tx_next {} (view s) (int K) s s" using tx_next_weaken [OF tx_next_refl [OF less.prems(1)]] by simp
    ultimately show ?thesis using False less.prems by (auto simp: writei_loop.simps)
  next
    case True
    let ?k = "off div BSIZE"
    let ?a = "file_block s ip ?k"
    define m where "m = min (n - tot) (BSIZE - off mod BSIZE)"
    have m: "n - (tot + m) < n - tot" "tot + m \<le> n" "off + m + (n - (tot + m)) = off + (n - tot)"
      "off mod BSIZE + m \<le> BSIZE" "m \<le> length bs" "0 < m"
      using True less.prems(4) by (auto simp: BSIZE_def m_def)
    have kN: "?k < N" using True less.prems(6) by (simp add: less_mult_imp_div_less)
    have K: "0 < K"
    proof (rule ccontr)
      assume "\<not> 0 < K"
      then have "off + (n - tot) \<le> off div BSIZE * BSIZE" using less.prems(7) True by simp
      then show False using True div_times_less_eq_dividend [of off BSIZE] by linarith
    qed
    obtain s1 where 1: "bmap ip ?k s = Ret (?a, s1)" "tx_next {} (view s) 0 s s1"
      using bmap_ok [OF less.prems(1,2) kN] tx_room_weaken [OF less.prems(3), of 0] by auto
    note d1 = tx_nextD [OF 1(2)] and f1 = file_next [OF 1(2)]
    have a: "?a \<noteq> 0" "i_dev (itable s1 ip) = ROOTDEV" "?a \<notin> log_area s1"
      using less.prems(2) kN f1 d1(6) by (auto simp: file_ok_def)
    have room1: "tx_room {} (int K) s1" using tx_room_next [OF 1(2), of "int K"] less.prems(3) by simp
    obtain bp r where bp: "bread ROOTDEV ?a s1 = Ret (bp, upd_buf bp (taken s1 ?a r) s1)"
        "in_tx {bp} (upd_buf bp (taken s1 ?a r) s1)" "view (upd_buf bp (taken s1 ?a r) s1) = view s1"
      using tx_open [OF d1(1), of ?a "int K"] room1 by auto
    let ?d = "put_bytes (off mod BSIZE) (take m bs) (view s ?a)"
    have len: "length (view s ?a) = BSIZE" using held_length(1) less.prems(1) by (auto simp: in_tx_def)
    then have "length ?d = BSIZE" using m(4,5) by simp
    then obtain s2 where 2: "seq (log_write bp (set_data bp ?d (upd_buf bp (taken s1 ?a r) s1))) (\<lambda>s. brelse bp s) = Ret s2"
        "tx_next {} ((view s1)(?a := ?d)) 1 s1 s2"
      using tx_write [OF d1(1) _ bp(2,3) a(3)] tx_room_weaken [OF room1, of 1] K by auto
    have n2: "tx_next {} ((view s)(?a := ?d)) 1 s s2" using tx_next_trans [OF 1(2) 2(2)] d1(2) by simp
    have w2: "wrote_file ip N off (take m bs) s s2"
      by (rule wrote_file_chunk [OF n2 less.prems(2) kN refl refl]) (use m len in simp_all)
    have pre: "length (drop m bs) = n - (tot + m)" "off + m + (n - (tot + m)) \<le> N * BSIZE"
      "tx_room {} (int (K - 1)) s2" "in_tx {} s2" "file_ok s2 ip N"
      using less.prems m tx_room_next [OF n2, of "int K - 1"] K tx_nextD(1) [OF n2] file_write(2) [OF n2 less.prems(2) kN]
      by (auto simp: of_nat_diff)
    have "tot + m < n \<longrightarrow> off + m + (n - (tot + m)) \<le> ((off + m) div BSIZE + (K - 1)) * BSIZE"
    proof
      assume "tot + m < n"
      then have "off mod BSIZE + m = BSIZE" by (auto simp: m_def min_def BSIZE_def split: if_splits)
      moreover have "off div BSIZE * BSIZE + off mod BSIZE = off" by (rule div_mult_mod_eq)
      ultimately have "off + m = off div BSIZE * BSIZE + BSIZE" by linarith
      then have "(off + m) div BSIZE = ?k + 1" by (simp add: BSIZE_def)
      then show "off + m + (n - (tot + m)) \<le> ((off + m) div BSIZE + (K - 1)) * BSIZE"
        using less.prems(7) m(3) K True by simp
    qed
    with less.hyps [OF m(1) pre(4,5,3,1) m(2) pre(2)] obtain s3 v where
      3: "writei_loop ip (FromKernel (drop m bs)) (off + m) n (tot + m) s2 = Ret (n, s3)"
        "tx_next {} v (int (K - 1)) s2 s3" "wrote_file ip N (off + m) (drop m bs) s2 s3" "file_ok s3 ip N" by blast
    have "wrote_file ip N off bs s s3" using wrote_file_append [OF w2, of "drop m bs" s3] 3(3) m(5) by simp
    moreover have "tx_next {} v (int K) s s3" using tx_next_trans [OF n2 3(2)] K by (simp add: of_nat_diff)
    moreover have "writei_loop ip (FromKernel bs) off n tot s = writei_loop ip (FromKernel (drop m bs)) (off + m) n (tot + m) s2"
      using 1(1) a bp(1) 2(1) True d1(2)
      by (auto simp: writei_loop.simps [of ip _ off] Let_def seq_Ret_iff simp flip: m_def)
    ultimately show ?thesis using 3(1,4) by auto
  qed
qed

lemma put_dinode_length [simp]: "length (put_dinode j x d) = length d"
proof -
  have "length (fold (\<lambda>i. put32 (j + 12 + 4 * i) (i_addrs x ! i)) is d) = length d" for "is" d
    by (induction "is" arbitrary: d) auto
  then show ?thesis by (simp add: put_dinode_def Let_def)
qed

lemma iupdate_slot:
  assumes t: "in_tx {} s" and room: "tx_room {} 1 s" and dev: "i_dev (itable s ip) = ROOTDEV"
    and n: "n = IBLOCK (i_inum (itable s ip)) (sb s)" "n \<notin> log_area s"
  shows "\<exists>s'. iupdate ip s = Ret s' \<and> n \<in> pins s' \<and>
    tx_next {} ((view s)(n := put_dinode (dinode_off (i_inum (itable s ip))) (itable s ip) (view s n))) 1 s s'"
proof -
  let ?d = "put_dinode (dinode_off (i_inum (itable s ip))) (itable s ip) (view s n)"
  obtain bp r where bp: "bread ROOTDEV n s = Ret (bp, upd_buf bp (taken s n r) s)"
      "in_tx {bp} (upd_buf bp (taken s n r) s)" "view (upd_buf bp (taken s n r) s) = view s"
    using tx_open [OF t, of n 1] room by auto
  have "length ?d = BSIZE" using held_length(1) t by (auto simp: in_tx_def)
  then show ?thesis using tx_write [OF t _ bp(2,3) n(2) room, of ?d] bp(1) dev
    by (auto simp: iupdate_def Let_def simp flip: n(1))
qed

lemma iupdate_ok:
  assumes t: "in_tx {} s" and f: "file_ok s ip N" and room: "tx_room {} 1 s"
  shows "\<exists>s' d. iupdate ip s = Ret s' \<and> tx_next {} ((view s)(IBLOCK (i_inum (itable s ip)) (sb s) := d)) 1 s s'"
proof -
  have "i_dev (itable s ip) = ROOTDEV" "IBLOCK (i_inum (itable s ip)) (sb s) \<notin> log_area s" using f by (auto simp: file_ok_def)
  then show ?thesis using iupdate_slot [OF t room] by blast
qed

lemma file_iupdate:
  assumes n: "tx_next {} ((view s)(IBLOCK (i_inum (itable s ip)) (sb s) := d)) j s s'" and f: "file_ok s ip N"
  shows "file_block s' ip = file_block s ip" "file_ok s' ip N" "itable s' = itable s"
    "p < N * BSIZE \<Longrightarrow> file_byte s' ip p = file_byte s ip p"
proof -
  note dd = tx_nextD [OF n]
  note ff = fs_fields [OF dd(7)]
  have ne: "IBLOCK (i_inum (itable s ip)) (sb s) \<noteq> i_addrs (itable s ip) ! NDIRECT" using f by (simp add: file_ok_def)
  then show b: "file_block s' ip = file_block s ip" by (intro ext) (simp add: file_block_def dd(2) ff)
  show "file_ok s' ip N" using f by (simp add: file_ok_def b ff dd(6))
  show "itable s' = itable s" by (rule ff(2))
  show "file_byte s' ip p = file_byte s ip p" if "p < N * BSIZE"
  proof -
    have "p div BSIZE < N" using that by (simp add: less_mult_imp_div_less)
    then show ?thesis using f by (auto simp: file_ok_def file_byte_def b dd(2))
  qed
qed

lemma file_size_upd:
  "file_block (upd_ip ip (i_size_update f) s) jp = file_block s jp"
  "file_byte (upd_ip ip (i_size_update f) s) jp = file_byte s jp"
  "file_ok (upd_ip ip (i_size_update f) s) jp N = file_ok s jp N"
proof -
  show b: "file_block (upd_ip ip (i_size_update f) s) jp = file_block s jp" by (intro ext) (simp add: file_block_def)
  show "file_byte (upd_ip ip (i_size_update f) s) jp = file_byte s jp" by (intro ext) (simp add: file_byte_def b)
  show "file_ok (upd_ip ip (i_size_update f) s) jp N = file_ok s jp N" by (simp add: file_ok_def b)
qed

lemma file_bound: "file_ok s ip N \<Longrightarrow> N * BSIZE \<le> 274432"
  by (simp add: file_ok_def MAXFILE_def NDIRECT_def NINDIRECT_def BSIZE_def)

lemma u32_add_overflow: "off + n < off \<longleftrightarrow> 2 ^ 32 \<le> unat off + unat n" for off n :: uint32
proof (cases "unat off + unat n < 4294967296")
  case True
  then show ?thesis by (simp add: word_less_nat_alt unat_word_ariths)
next
  case False
  then have "(unat off + unat n) mod 4294967296 = unat off + unat n - 4294967296"
    using unat_lt_2p32 [of off] unat_lt_2p32 [of n] by (simp add: le_mod_geq)
  then show ?thesis using False unat_lt_2p32 [of n] by (simp add: word_less_nat_alt unat_word_ariths)
qed

lemma readi_ok:
  assumes "in_tx {} s" "file_ok s ip N" "tx_room {} 0 s" "unat (i_size (itable s ip)) \<le> N * BSIZE"
  shows "\<exists>s'. readi ip (ToKernel []) off n s =
    (let m = if off > i_size (itable s ip) \<or> unat off + unat n \<ge> 2 ^ 32 then 0
             else min (unat n) (unat (i_size (itable s ip)) - unat off)
     in Ret (int m, ToKernel (map (file_byte s ip) [unat off..<unat off + m]), s')) \<and> tx_next {} (view s) 0 s s'"
proof (cases "off > i_size (itable s ip) \<or> unat off + unat n \<ge> 2 ^ 32")
  case True
  then have "off > i_size (itable s ip) \<or> off + n < off" by (simp add: u32_add_overflow)
  then show ?thesis using True tx_next_refl [OF assms(1)] by (auto simp: readi_def Let_def)
next
  case False
  let ?sz = "i_size (itable s ip)"
  have sum: "unat (off + n) = unat off + unat n" using False by (simp add: unat_word_ariths)
  have ok: "\<not> off + n < off" "off \<le> ?sz" using False sum by (auto simp: word_less_nat_alt word_le_nat_alt)
  define n' where "n' = (if off + n > ?sz then ?sz - off else n)"
  have n': "unat n' = min (unat n) (unat ?sz - unat off)"
    using ok sum by (auto simp: n'_def word_less_nat_alt word_le_nat_alt unat_sub)
  have "unat off + unat n' \<le> N * BSIZE" using n' ok assms(4) by (auto simp: word_le_nat_alt)
  then show ?thesis
    using readi_loop_ok [OF assms(1-3), of 0 "unat n'" "unat off" "[]"] False ok n'
    by (auto simp: readi_def Let_def simp flip: n'_def)
qed

text \<open>
  C19. \<open>readi\<close> to a kernel buffer returns exactly the bytes of the file from the offset on, as
  many as asked for and as the file has; past the end, or when offset plus count overflow 32
  bits, it returns 0. Nothing of any block changes.
\<close>

theorem readi_reads:
  assumes "in_tx {} s" "file_ok s ip N" "tx_room {} 0 s" "unat (i_size (itable s ip)) \<le> N * BSIZE"
  shows "\<exists>s'. readi ip (ToKernel []) off n s =
    (let m = if off > i_size (itable s ip) \<or> unat off + unat n \<ge> 2 ^ 32 then 0
             else min (unat n) (unat (i_size (itable s ip)) - unat off)
     in Ret (int m, ToKernel (map (file_byte s ip) [unat off..<unat off + m]), s')) \<and> view s' = view s"
  using readi_ok [OF assms, of off n] by (auto simp: tx_next_def)

text \<open>A file of two blocks on the example disk.\<close>

definition small_file :: inode where
  "small_file = zero_inode\<lparr>i_dev := ROOTDEV, i_inum := 5, i_ref := 1, i_valid := True, i_type := T_FILE, i_nlink := 1,
     i_size := 10, i_addrs := [50, 51, 0, 0, 0, 0, 0, 0, 0, 0, 0, 0, 0]\<rparr>"

definition file_fs :: fsstate where
  "file_fs = upd_ip 3 (\<lambda>_. small_file) small_fs"

lemma file_fs_ok: "in_tx {} file_fs" "tx_room {} 3 file_fs" "file_ok file_fs 3 2" "i_size (itable file_fs 3) = 10"
proof -
  show "in_tx {} file_fs" "tx_room {} 3 file_fs" using small_fs_tx tx_room_weaken [OF small_fs_tx(3), of 3] by (simp_all add: file_fs_def)
  show "i_size (itable file_fs 3) = 10" by (simp add: file_fs_def small_file_def)
  have la: "n \<in> log_area file_fs \<Longrightarrow> n < 32" for n
    by (auto simp: file_fs_def log_area_def small_fs_def small_fs0_def word_less_nat_alt unat_word_ariths unat_of_nat)
  have f: "file_block file_fs 3 0 = 50" "file_block file_fs 3 (Suc 0) = 51"
    by (simp_all add: file_block_def file_fs_def small_file_def NDIRECT_def)
  have ib: "IBLOCK (i_inum (itable file_fs 3)) (sb file_fs) = 32" "i_addrs (itable file_fs 3) ! NDIRECT = 0" "i_dev (itable file_fs 3) = ROOTDEV"
    by (simp_all add: file_fs_def small_file_def IBLOCK_def IPB_def BSIZE_def small_fs_def small_fs0_def NDIRECT_def)
  have two: "{..<2::nat} = {0, 1}" by auto
  have "(\<forall>k<2. P k) \<longleftrightarrow> P 0 \<and> P 1" for P :: "nat \<Rightarrow> bool" by (auto simp: less_2_cases_iff)
  moreover have "50 \<notin> log_area file_fs" "51 \<notin> log_area file_fs" "32 \<notin> log_area file_fs"
    using la [of 50] la [of 51] la [of 32] by auto
  ultimately show "file_ok file_fs 3 2"
    unfolding file_ok_def ib two by (simp add: f MAXFILE_def NDIRECT_def)
qed

theorem readi_reads_witness:
  "\<exists>s'. readi 3 (ToKernel []) 8 100 file_fs = Ret (2, ToKernel (map (file_byte file_fs 3) [8..<10]), s')"
  using readi_reads [OF file_fs_ok(1,3) tx_room_weaken [OF file_fs_ok(2)], of 8 100]
  by (auto simp: file_fs_ok(4) BSIZE_def)

lemma writei_ok:
  assumes "in_tx {} s" "file_ok s ip N" "tx_room {} (int K + 1) s" "off \<le> unat (i_size (itable s ip))"
    and "off + length bs \<le> N * BSIZE" "off + length bs \<le> (off div BSIZE + K) * BSIZE"
  shows "\<exists>s'. writei ip (FromKernel bs) (of_nat off) (of_nat (length bs)) s = Ret (int (length bs), s') \<and>
    (\<exists>z. unat z = max (unat (i_size (itable s ip))) (off + length bs) \<and> itable s' = (itable s)(ip := (itable s ip)\<lparr>i_size := z\<rparr>)) \<and>
    (\<forall>p < N * BSIZE. file_byte s' ip p =
       (if off \<le> p \<and> p < off + length bs then bs ! (p - off) else file_byte s ip p)) \<and>
    (\<forall>b. b \<notin> file_block s ip ` {..<N} \<and> b \<noteq> IBLOCK (i_inum (itable s ip)) (sb s) \<longrightarrow> view s' b = view s b) \<and>
    in_tx {} s' \<and> file_ok s' ip N \<and> tx_room {} 0 s'"
proof -
  let ?n = "length bs"
  note bd = file_bound [OF assms(2)]
  have u: "unat (of_nat off :: uint32) = off" "unat (of_nat ?n :: uint32) = ?n" "unat (of_nat off + of_nat ?n :: uint32) = off + ?n"
    using assms(5) bd by (simp_all add: unat_of_nat unat_word_ariths)
  have room: "tx_room {} (int K) s" using tx_room_weaken [OF assms(3)] by simp
  obtain s1 v where 1: "writei_loop ip (FromKernel bs) off ?n 0 s = Ret (?n, s1)" "tx_next {} v (int K) s s1"
      "wrote_file ip N off bs s s1" "file_ok s1 ip N"
    using writei_loop_ok [OF assms(1,2) room, of bs ?n 0 off] assms(5,6) by auto
  note d1 = tx_nextD [OF 1(2)]
  have i1: "itable s1 = itable s" "sb s1 = sb s" using fs_fields [OF d1(7)] by auto
  define s2 where "s2 = (if of_nat off + of_nat ?n > i_size (itable s1 ip)
    then upd_ip ip (i_size_update (\<lambda>_. of_nat off + of_nat ?n)) s1 else s1)"
  have 2: "in_tx {} s2" "file_ok s2 ip N" "file_byte s2 ip = file_byte s1 ip" "file_block s2 ip = file_block s1 ip"
      "view s2 = view s1" "i_inum (itable s2 ip) = i_inum (itable s ip)" "sb s2 = sb s"
    using 1(4) d1(1) i1 by (auto simp: s2_def file_size_upd)
  have z: "\<exists>z. unat z = max (unat (i_size (itable s ip))) (off + ?n) \<and> itable s2 = (itable s)(ip := (itable s ip)\<lparr>i_size := z\<rparr>)"
    using i1 u by (cases "of_nat off + of_nat ?n > i_size (itable s ip)")
      (auto simp: s2_def word_less_nat_alt max_def intro: exI [of _ "i_size (itable s ip)"] exI [of _ "of_nat off + of_nat ?n"])
  have "tx_room {} 1 s2" using tx_room_next [OF 1(2), of 1] assms(3) by (simp add: s2_def)
  from iupdate_ok [OF 2(1,2) this] obtain s3 d where
    3: "iupdate ip s2 = Ret s3" "tx_next {} ((view s2)(IBLOCK (i_inum (itable s ip)) (sb s) := d)) 1 s2 s3"
    unfolding 2(6,7) by blast
  note d3 = tx_nextD [OF 3(2)] and f3 = file_iupdate [OF 3(2) [folded 2(6,7)] 2(2)]
  have "off + ?n \<le> MAXFILE * BSIZE" by (rule order_trans [OF assms(5)]) (use assms(2) in \<open>simp add: file_ok_def\<close>)
  then have szb: "\<not> of_nat off > i_size (itable s ip)" "\<not> (of_nat off + of_nat ?n :: uint32) < of_nat off" "\<not> off + ?n > MAXFILE * BSIZE"
    using assms(4,5) u by (auto simp: word_less_nat_alt)
  have wr: "writei ip (FromKernel bs) (of_nat off) (of_nat ?n) s = Ret (int ?n, s3)"
    using szb u 1(1) 3(1) by (simp add: writei_def Let_def s2_def)
  have by3: "file_byte s3 ip p = (if off \<le> p \<and> p < off + ?n then bs ! (p - off) else file_byte s ip p)" if "p < N * BSIZE" for p
    using f3(4) [OF that] 1(3) that by (simp add: 2(3) wrote_file_def)
  have "tx_room {} 0 s3" using tx_room_next [OF 3(2), of 0] \<open>tx_room {} 1 s2\<close> by simp
  moreover have "view s3 b = view s b" if "b \<notin> file_block s ip ` {..<N}" "b \<noteq> IBLOCK (i_inum (itable s ip)) (sb s)" for b
    using that 1(3) by (simp add: d3(2) 2(5) wrote_file_def)
  ultimately show ?thesis using wr by3 z f3(2,3) d3(1) by metis
qed

text \<open>
  C6. Writing a file: \<open>writei\<close> of kernel bytes that fall into allocated blocks of the file
  succeeds, puts exactly these bytes at the offset, grows the file to cover them, keeps every
  other byte of the file, and touches no block but the file's own and the inode's. \<open>readi\<close> of
  the same range then returns the bytes written. \<open>K\<close> bounds the number of blocks the range
  spans, which the transaction must have room for beside the inode's.
\<close>

theorem writei_readi:
  assumes "in_tx {} s" "file_ok s ip N" "tx_room {} (int K + 1) s" "off \<le> unat (i_size (itable s ip))"
    and "off + length bs \<le> N * BSIZE" "off + length bs \<le> (off div BSIZE + K) * BSIZE"
    and "unat (i_size (itable s ip)) \<le> N * BSIZE"
  shows "\<exists>s' s''. writei ip (FromKernel bs) (of_nat off) (of_nat (length bs)) s = Ret (int (length bs), s') \<and>
    unat (i_size (itable s' ip)) = max (unat (i_size (itable s ip))) (off + length bs) \<and>
    (\<forall>p < N * BSIZE. file_byte s' ip p =
       (if off \<le> p \<and> p < off + length bs then bs ! (p - off) else file_byte s ip p)) \<and>
    (\<forall>b. b \<notin> file_block s ip ` {..<N} \<and> b \<noteq> IBLOCK (i_inum (itable s ip)) (sb s) \<longrightarrow> view s' b = view s b) \<and>
    readi ip (ToKernel []) (of_nat off) (of_nat (length bs)) s' = Ret (int (length bs), ToKernel bs, s'')"
proof -
  let ?n = "length bs"
  note bd = file_bound [OF assms(2)]
  have u: "unat (of_nat off :: uint32) = off" "unat (of_nat ?n :: uint32) = ?n" using assms(5) bd by (simp_all add: unat_of_nat)
  obtain s' z where w: "writei ip (FromKernel bs) (of_nat off) (of_nat ?n) s = Ret (int ?n, s')"
      "unat z = max (unat (i_size (itable s ip))) (off + ?n)" "itable s' = (itable s)(ip := (itable s ip)\<lparr>i_size := z\<rparr>)"
      "\<forall>p < N * BSIZE. file_byte s' ip p = (if off \<le> p \<and> p < off + ?n then bs ! (p - off) else file_byte s ip p)"
      "\<forall>b. b \<notin> file_block s ip ` {..<N} \<and> b \<noteq> IBLOCK (i_inum (itable s ip)) (sb s) \<longrightarrow> view s' b = view s b"
      "in_tx {} s'" "file_ok s' ip N" "tx_room {} 0 s'"
    using writei_ok [OF assms(1-6)] by (elim exE conjE) (rule that; assumption)
  have sz: "unat (i_size (itable s' ip)) = max (unat (i_size (itable s ip))) (off + ?n)" using w(2,3) by simp
  then have "unat (i_size (itable s' ip)) \<le> N * BSIZE" using assms(5,7) by simp
  from readi_ok [OF w(6-8) this, of "of_nat off" "of_nat ?n"] obtain s'' where
    r: "readi ip (ToKernel []) (of_nat off) (of_nat ?n) s' = Ret (int ?n, ToKernel (map (file_byte s' ip) [off..<off + ?n]), s'')"
    using u sz assms(4,5) bd by (auto simp: Let_def word_less_nat_alt)
  have "map (file_byte s' ip) [off..<off + ?n] = bs"
    by (rule nth_equalityI) (use w(4) assms(5) in auto)
  then show ?thesis using w(1,4,5) sz r by metis
qed

theorem writei_readi_witness:
  "\<exists>s' s''. writei 3 (FromKernel (replicate 2000 7)) 10 2000 file_fs = Ret (2000, s') \<and>
     readi 3 (ToKernel []) 10 2000 s' = Ret (2000, ToKernel (replicate 2000 7), s'')"
  using writei_readi [OF file_fs_ok(1,3), of 2 10 "replicate 2000 7"] file_fs_ok(2,4)
  by (auto simp: BSIZE_def)

section \<open>Storing and loading an inode\<close>

text \<open>A referenced entry of the table for inode \<open>j\<close>, unlocked, whose contents are not loaded.\<close>

definition cold :: "uint32 \<Rightarrow> inode \<Rightarrow> bool" where
  "cold j x \<longleftrightarrow> i_dev x = ROOTDEV \<and> i_inum x = j \<and> 1 \<le> i_ref x \<and> \<not> i_valid x \<and> sl_locked (i_lock x) = 0"

text \<open>What \<open>ilock\<close> makes of such an entry when the inode's block reads as \<open>d\<close>.\<close>

definition loaded :: "int \<Rightarrow> block \<Rightarrow> inode \<Rightarrow> inode" where
  "loaded pid d x = (get_dinode (dinode_off (i_inum x)) d x)\<lparr>i_valid := True, i_lock := (i_lock x)\<lparr>sl_locked := 1, sl_pid := pid\<rparr>\<rparr>"

lemma upd_ip_buf: "upd_ip ip f (upd_buf b x s) = upd_buf b x (upd_ip ip f s)" "taken (upd_ip ip f s) n r = taken s n r"
  by (simp_all add: upd_ip_def upd_buf_def) (simp add: taken_def fun_eq_iff flip: upd_ip_def)

lemma ilock_cold:
  assumes t: "in_tx {} s" and room: "tx_room {} 0 s" and c: "cold j (itable s jp)"
  shows "if i_type (loaded (mypid s) (view s (IBLOCK j (sb s))) (itable s jp)) = 0 then ilock jp s = Panic ''ilock: no type''
    else \<exists>s'. ilock jp s = Ret s' \<and> itable s' = (itable s)(jp := loaded (mypid s) (view s (IBLOCK j (sb s))) (itable s jp))
      \<and> view s' = view s"
proof -
  let ?n = "IBLOCK j (sb s)" and ?x = "itable s jp"
  let ?lk = "(i_lock ?x)\<lparr>sl_locked := 1, sl_pid := mypid s\<rparr>"
  define s1 where "s1 = upd_ip jp (i_lock_update (\<lambda>_. ?lk)) s"
  have 1: "in_tx {} s1" "tx_room {} 0 s1" "view s1 = view s" using t room by (simp_all add: s1_def)
  obtain bp r where bp: "bread ROOTDEV ?n s1 = Ret (bp, upd_buf bp (taken s1 ?n r) s1)"
      "in_tx {bp} (upd_buf bp (taken s1 ?n r) s1)" "view (upd_buf bp (taken s1 ?n r) s1) = view s1"
    using tx_open [OF 1(1), of ?n 0] 1(2) by auto
  define g where "g = get_dinode (dinode_off j) (view s ?n)"
  define s2 where "s2 = upd_ip jp g s1"
  have 2: "in_tx {} s2" "in_tx {bp} (upd_buf bp (taken s2 ?n r) s2)" "view (upd_buf bp (taken s2 ?n r) s2) = view s2"
    "view s2 = view s" using bp(2,3) 1 by (simp_all add: s2_def upd_ip_buf(2) flip: upd_ip_buf(1))
  obtain s3 where 3: "brelse bp (upd_buf bp (taken s2 ?n r) s2) = Ret s3" "tx_next {} (view s2) 0 s2 s3"
    using tx_close [OF 2(1) _ 2(2,3)] tx_clean [OF 2(1), of ?n] by auto
  note d3 = tx_nextD [OF 3(2)]
  have i3: "itable s3 = itable s2" using fs_fields [OF d3(7)] by simp
  have y: "i_valid_update (\<lambda>_. True) (itable s2 jp) = loaded (mypid s) (view s ?n) ?x"
    using c by (simp add: s2_def s1_def g_def loaded_def get_dinode_def cold_def)
  have b: "upd_ip jp g (upd_buf bp (taken s1 ?n r) s1) = upd_buf bp (taken s2 ?n r) s2"
    by (simp add: s2_def upd_ip_buf)
  have "ilock jp s = (let s = upd_ip jp (i_valid_update (\<lambda>_. True)) s3 in
      if i_type (itable s jp) = 0 then Panic ''ilock: no type'' else Ret s)"
    using c bp(1) 3(1) b 1(3) by (simp add: ilock_def acquiresleep_def cold_def Let_def s1_def [symmetric] g_def) (simp add: s1_def Let_def)
  moreover have "i_type (itable s2 jp) = i_type (loaded (mypid s) (view s ?n) ?x)" using arg_cong [OF y, of i_type] by simp
  moreover have "(itable s2)(jp := z) = (itable s)(jp := z)" for z by (simp add: s2_def s1_def)
  ultimately show ?thesis using y i3 d3(2) 2(4) by (simp add: Let_def)
qed

lemma IBLOCK_slot:
  assumes "j \<noteq> i" "IBLOCK j q = IBLOCK i q"
  shows "dinode_off j \<noteq> dinode_off i"
proof
  assume "dinode_off j = dinode_off i"
  then have m: "unat j mod IPB = unat i mod IPB" by (simp add: dinode_off_def)
  have "unat j div IPB < 2 ^ 32" "unat i div IPB < 2 ^ 32"
    using unat_lt_2p32 [of j] unat_lt_2p32 [of i] by (simp_all add: le_less_trans [OF div_le_dividend])
  moreover have "unat (of_nat (unat j div IPB) :: uint32) = unat (of_nat (unat i div IPB) :: uint32)"
    using assms(2) by (simp add: IBLOCK_def)
  ultimately have "unat j div IPB = unat i div IPB" by (simp add: unat_of_nat)
  with m have "unat j = unat i" by (metis div_mult_mod_eq)
  then show False using assms(1) by (simp add: word_unat_eq_iff)
qed

text \<open>
  C34. Storing and loading an inode. Inside a transaction, \<open>iupdate\<close> puts the block that holds the inode
  into the log and leaves every other block as it is. \<open>ilock\<close> of an entry that has not been loaded
  then yields exactly the type, device numbers, link count, size and block addresses that were
  stored, and for every other inode, also one in the same block, it does what it would have done
  before.
\<close>

theorem iupdate_ilock:
  assumes "in_tx {} s" "tx_room {} 1 s" "i_dev (itable s ip) = ROOTDEV" "i = i_inum (itable s ip)" "IBLOCK i (sb s) \<notin> log_area s"
    and "length (i_addrs (itable s ip)) = NDIRECT + 1" "i_type (itable s ip) \<noteq> 0"
  shows "\<exists>s'. iupdate ip s = Ret s' \<and> IBLOCK i (sb s) \<in> pins s' \<and> (\<forall>b. b \<noteq> IBLOCK i (sb s) \<longrightarrow> view s' b = view s b) \<and>
    (\<forall>jp x. cold i x \<longrightarrow> (\<exists>t. ilock jp (upd_ip jp (\<lambda>_. x) s') = Ret t \<and>
       itable t jp = x\<lparr>i_lock := (i_lock x)\<lparr>sl_locked := 1, sl_pid := mypid s\<rparr>, i_valid := True,
         i_type := i_type (itable s ip), i_major := i_major (itable s ip), i_minor := i_minor (itable s ip),
         i_nlink := i_nlink (itable s ip), i_size := i_size (itable s ip), i_addrs := i_addrs (itable s ip)\<rparr>)) \<and>
    (\<forall>jp x j. cold j x \<and> j \<noteq> i \<longrightarrow>
       (case ilock jp (upd_ip jp (\<lambda>_. x) s) of
          Ret t \<Rightarrow> (\<exists>t'. ilock jp (upd_ip jp (\<lambda>_. x) s') = Ret t' \<and> itable t' jp = itable t jp)
        | r \<Rightarrow> ilock jp (upd_ip jp (\<lambda>_. x) s') = r))"
proof -
  let ?n = "IBLOCK i (sb s)"
  let ?d = "put_dinode (dinode_off i) (itable s ip) (view s ?n)"
  obtain s' where s': "iupdate ip s = Ret s'" "?n \<in> pins s'" "tx_next {} ((view s)(?n := ?d)) 1 s s'"
    using iupdate_slot [OF assms(1-3) _ assms(5)] assms(4) by auto
  note d = tx_nextD [OF s'(3)]
  have f: "sb s' = sb s" using fs_fields [OF d(7)] by simp
  have room: "tx_room {} 0 s'" "tx_room {} 0 s" using tx_room_next [OF s'(3), of 0] tx_room_weaken [OF assms(2)] assms(2) by simp_all
  have "length (view s ?n) = BSIZE" using held_length(1) assms(1) by (auto simp: in_tx_def)
  note slot = dinode_slot [OF this assms(6), of i]
  have same: "\<exists>t. ilock jp (upd_ip jp (\<lambda>_. x) s') = Ret t \<and> itable t jp = loaded (mypid s) ?d x"
    if c: "cold i x" and ty: "i_type (loaded (mypid s) ?d x) \<noteq> 0" for jp x
    using ilock_cold [of "upd_ip jp (\<lambda>_. x) s'" i jp] room d f c ty by (auto split: if_splits)
  have ld: "loaded (mypid s) ?d x = x\<lparr>i_lock := (i_lock x)\<lparr>sl_locked := 1, sl_pid := mypid s\<rparr>, i_valid := True,
         i_type := i_type (itable s ip), i_major := i_major (itable s ip), i_minor := i_minor (itable s ip),
         i_nlink := i_nlink (itable s ip), i_size := i_size (itable s ip), i_addrs := i_addrs (itable s ip)\<rparr>" if "cold i x" for x
    using that slot [THEN conjunct1] by (simp add: loaded_def cold_def)
  have oth: "loaded pid (view s' (IBLOCK j (sb s))) x = loaded pid (view s (IBLOCK j (sb s))) x" if "cold j x" "j \<noteq> i" for j x pid
    using that slot [THEN conjunct2, of j] IBLOCK_slot [OF that(2), of "sb s"] by (auto simp: loaded_def d(2) cold_def)
  have "case ilock jp (upd_ip jp (\<lambda>_. x) s) of
          Ret t \<Rightarrow> (\<exists>t'. ilock jp (upd_ip jp (\<lambda>_. x) s') = Ret t' \<and> itable t' jp = itable t jp)
        | r \<Rightarrow> ilock jp (upd_ip jp (\<lambda>_. x) s') = r" if "cold j x" "j \<noteq> i" for jp x j
    using ilock_cold [of "upd_ip jp (\<lambda>_. x) s'" j jp] ilock_cold [of "upd_ip jp (\<lambda>_. x) s" j jp] room d(1,9) f that oth [OF that] assms(1)
    by (auto split: if_splits)
  then show ?thesis using s'(1,2) same ld assms(7) d(2) by (intro exI [of _ s']) (simp, blast)
qed

theorem iupdate_ilock_witness:
  "\<exists>s' t. iupdate 3 file_fs = Ret s' \<and>
     ilock 7 (upd_ip 7 (\<lambda>_. zero_inode\<lparr>i_dev := ROOTDEV, i_inum := 5, i_ref := 1, i_lock := initsleeplock\<rparr>) s') = Ret t \<and>
     i_type (itable t 7) = T_FILE \<and> i_size (itable t 7) = 10 \<and> i_addrs (itable t 7) = [50, 51, 0, 0, 0, 0, 0, 0, 0, 0, 0, 0, 0]"
proof -
  let ?x = "zero_inode\<lparr>i_dev := ROOTDEV, i_inum := 5, i_ref := 1, i_lock := initsleeplock\<rparr>"
  have f: "itable file_fs 3 = small_file" by (simp add: file_fs_def)
  have x: "i_dev small_file = ROOTDEV" "5 = i_inum small_file" "length (i_addrs small_file) = NDIRECT + 1" "i_type small_file \<noteq> 0"
    "i_type small_file = T_FILE" "i_size small_file = 10" "i_addrs small_file = [50, 51, 0, 0, 0, 0, 0, 0, 0, 0, 0, 0, 0]"
    by (simp_all add: small_file_def NDIRECT_def T_FILE_def)
  have ib: "IBLOCK 5 (sb file_fs) \<notin> log_area file_fs" using file_fs_ok(3) f x(2) by (simp add: file_ok_def)
  have room: "tx_room {} 1 file_fs" using tx_room_weaken [OF file_fs_ok(2)] by simp
  obtain s' where s': "iupdate 3 file_fs = Ret s'" "\<forall>jp x. cold 5 x \<longrightarrow> (\<exists>t. ilock jp (upd_ip jp (\<lambda>_. x) s') = Ret t \<and>
       itable t jp = x\<lparr>i_lock := (i_lock x)\<lparr>sl_locked := 1, sl_pid := mypid file_fs\<rparr>, i_valid := True,
         i_type := i_type small_file, i_major := i_major small_file, i_minor := i_minor small_file,
         i_nlink := i_nlink small_file, i_size := i_size small_file, i_addrs := i_addrs small_file\<rparr>)"
    using iupdate_ilock [OF file_fs_ok(1), of 3 5, unfolded f, OF room x(1,2) ib x(3,4)]
    by (elim exE conjE) (rule that; assumption)
  have "cold 5 ?x" by (simp add: cold_def zero_inode_def initsleeplock_def)
  from mp [OF spec [OF spec [OF s'(2), of 7]] this] obtain t where "ilock 7 (upd_ip 7 (\<lambda>_. ?x) s') = Ret t"
      "i_type (itable t 7) = i_type small_file" "i_size (itable t 7) = i_size small_file" "i_addrs (itable t 7) = i_addrs small_file"
    by auto
  then show ?thesis using x s'(1) by (intro exI [of _ s'] exI [of _ t]) simp
qed

end
