(* ===== verification/Fs_Paths.thy ===== *)
theory Fs_Paths
  imports Fs
begin

text \<open>
  Names and paths of \<^verbatim>\<open>kernel/fs.c\<close>: \<open>skipelem\<close> against splitting at slashes, and the fields of
  the directory entry that \<open>dirlink\<close> builds.
\<close>

section \<open>Path elements\<close>

text \<open>All elements, the way the loop of \<open>namex\<close> takes them.\<close>

function path_elems :: "uint8 list \<Rightarrow> uint8 list list" where
  "path_elems path = (case skipelem path of None \<Rightarrow> [] | Some (name, rest) \<Rightarrow> name # path_elems rest)"
  by auto
termination by (relation "measure length") (auto simp: skipelem_shorter)

declare path_elems.simps [simp del]

text \<open>Splitting at every slash.\<close>

fun split_slash :: "uint8 list \<Rightarrow> uint8 list list" where
  "split_slash [] = [[]]"
| "split_slash (c # cs) =
     (if c = SLASH then [] # split_slash cs
      else case split_slash cs of [] \<Rightarrow> [[c]] | e # es \<Rightarrow> (c # e) # es)"

abbreviation parts :: "uint8 list \<Rightarrow> uint8 list list" where
  "parts path \<equiv> filter (\<lambda>e. e \<noteq> []) (split_slash path)"

lemma split_slash_ne: "split_slash p \<noteq> []"
  by (cases p) (auto split: list.split)

lemma parts_slashes: "parts (dropWhile (\<lambda>c. c = SLASH) p) = parts p"
  by (induction p) auto

lemma split_slash_elem:
  "\<exists>es. split_slash p = takeWhile (\<lambda>c. c \<noteq> SLASH) p # es \<and>
     parts (dropWhile (\<lambda>c. c \<noteq> SLASH) p) = filter (\<lambda>e. e \<noteq> []) es"
  by (induction p) auto

lemma skipelem_parts:
  "skipelem path = (case parts path of
     [] \<Rightarrow> None
   | e # _ \<Rightarrow> Some (take DIRSIZ e,
       dropWhile (\<lambda>c. c = SLASH) (dropWhile (\<lambda>c. c \<noteq> SLASH) (dropWhile (\<lambda>c. c = SLASH) path))))"
  "skipelem path = Some (name, rest) \<Longrightarrow> parts rest = tl (parts path)"
proof -
  define q where "q = dropWhile (\<lambda>c. c = SLASH) path"
  have pp: "parts path = parts q" by (simp add: parts_slashes q_def)
  obtain es where es: "split_slash q = takeWhile (\<lambda>c. c \<noteq> SLASH) q # es"
    "parts (dropWhile (\<lambda>c. c \<noteq> SLASH) q) = filter (\<lambda>e. e \<noteq> []) es" using split_slash_elem by blast
  have "takeWhile (\<lambda>c. c \<noteq> SLASH) q \<noteq> []" if "q \<noteq> []"
    using that hd_dropWhile [of "\<lambda>c. c = SLASH" path] by (cases q) (auto simp: q_def)
  then have "parts q = (if q = [] then [] else takeWhile (\<lambda>c. c \<noteq> SLASH) q # filter (\<lambda>e. e \<noteq> []) es)"
    using es(1) by (cases "q = []") auto
  with pp have p: "parts path = (if q = [] then [] else takeWhile (\<lambda>c. c \<noteq> SLASH) q # filter (\<lambda>e. e \<noteq> []) es)" by simp
  have s: "skipelem path = (if q = [] then None
      else Some (take DIRSIZ (takeWhile (\<lambda>c. c \<noteq> SLASH) q), dropWhile (\<lambda>c. c = SLASH) (dropWhile (\<lambda>c. c \<noteq> SLASH) q)))"
    by (simp add: skipelem_def Let_def q_def [symmetric])
  show "skipelem path = (case parts path of
     [] \<Rightarrow> None
   | e # _ \<Rightarrow> Some (take DIRSIZ e, dropWhile (\<lambda>c. c = SLASH) (dropWhile (\<lambda>c. c \<noteq> SLASH) (dropWhile (\<lambda>c. c = SLASH) path))))"
    unfolding s p q_def [symmetric] by simp
  show "parts rest = tl (parts path)" if "skipelem path = Some (name, rest)"
    using that es(2) unfolding s p by (auto simp: parts_slashes split: if_splits)
qed

text \<open>
  C35. Path parsing: taking elements with \<open>skipelem\<close> until it fails, as \<open>namex\<close> does, yields
  exactly the non-empty parts of the path between slashes, each cut to \<open>DIRSIZ\<close> bytes. The
  loop always ends, and the rest of the path is empty exactly when the last part was taken.
\<close>

theorem skipelem_splits:
  "path_elems path = map (take DIRSIZ) (filter (\<lambda>e. e \<noteq> []) (split_slash path)) \<and>
   (\<forall>name rest. skipelem path = Some (name, rest) \<longrightarrow> (rest = [] \<longleftrightarrow> length (path_elems path) = 1))"
proof -
  have all: "path_elems p = map (take DIRSIZ) (parts p)" for p
  proof (induction p rule: path_elems.induct)
    case (1 p)
    show ?case
    proof (cases "skipelem p")
      case None
      then show ?thesis using skipelem_parts(1) [of p] by (simp add: path_elems.simps split: list.splits)
    next
      case (Some a)
      then obtain name rest where s: "skipelem p = Some (name, rest)" by (cases a) auto
      from s obtain e es where p: "parts p = e # es" "name = take DIRSIZ e"
        using skipelem_parts(1) [of p] by (auto split: list.splits)
      have "path_elems rest = map (take DIRSIZ) (parts rest)" using 1 s by simp
      then show ?thesis using s p skipelem_parts(2) [OF s] by (simp add: path_elems.simps [of p])
    qed
  qed
  have "rest = [] \<longleftrightarrow> length (path_elems path) = 1" if s: "skipelem path = Some (name, rest)" for name rest
  proof -
    have "parts rest = [] \<longleftrightarrow> rest = []"
    proof
      assume "parts rest = []"
      then have "skipelem rest = None" using skipelem_parts(1) [of rest] by simp
      moreover have "dropWhile (\<lambda>c. c = SLASH) rest = rest" using s by (auto simp: skipelem_def Let_def split: if_splits)
      ultimately show "rest = []" by (auto simp: skipelem_def Let_def split: if_splits)
    qed simp
    moreover have "parts path \<noteq> []" using skipelem_parts(1) [of path] s by auto
    ultimately show ?thesis using skipelem_parts(2) [OF s] all [of path]
      by (cases "parts path") auto
  qed
  then show ?thesis using all by blast
qed

theorem skipelem_splits_witness:
  "skipelem [SLASH, SLASH, 0x61, SLASH, SLASH, 0x62, 0x62] = Some ([0x61], [0x62, 0x62]) \<and>
   path_elems [SLASH, SLASH, 0x61, SLASH, SLASH, 0x62, 0x62] = [[0x61], [0x62, 0x62]] \<and>
   \<not> length (path_elems [SLASH, SLASH, 0x61, SLASH, SLASH, 0x62, 0x62]) = 1"
proof -
  have s: "skipelem [SLASH, SLASH, 0x61, SLASH, SLASH, 0x62, 0x62] = Some ([0x61], [0x62, 0x62])"
    by (simp add: skipelem_def DIRSIZ_def)
  show ?thesis using skipelem_splits [of "[SLASH, SLASH, 0x61, SLASH, SLASH, 0x62, 0x62]"] s
    by (simp add: DIRSIZ_def)
qed

section \<open>Directory entries\<close>

definition cstr :: "uint8 list \<Rightarrow> uint8 list" where
  "cstr p = takeWhile (\<lambda>c. c \<noteq> 0) p"

lemma strncmp_bytes_0: "strncmp_bytes n p q = 0 \<longleftrightarrow> take n (cstr p) = take n (cstr q)"
proof (induction n arbitrary: p q)
  case (Suc n)
  show ?case
    by (cases p; cases q) (auto simp: Suc.IH hd0_def cstr_def)
qed simp

lemma cstr_take: "take n (cstr p) = cstr (take n p)"
proof (induction n arbitrary: p)
  case (Suc n)
  then show ?case by (cases p) (auto simp: cstr_def)
qed (simp add: cstr_def)

lemma mk_dirent_fields:
  "de_inum (mk_dirent inum name) = inum"
  "de_name (mk_dirent inum name) = take DIRSIZ (cstr name @ replicate DIRSIZ 0)"
  "length (mk_dirent inum name) = 16"
proof -
  show "de_inum (mk_dirent inum name) = inum"
    by (rule bit_word_eqI)
      (auto simp: de_inum_def mk_dirent_def get16_def bit_or_iff bit_push_bit_iff bit_unsigned_iff bit_drop_bit_eq)
qed (simp_all add: de_name_def mk_dirent_def cstr_def get_bytes_def DIRSIZ_def)

lemma cstr_pad: "cstr (take n (cstr p @ replicate n 0)) = take n (cstr p)"
proof -
  have "cstr (cstr p @ replicate n 0) = cstr p"
    unfolding cstr_def by (induction p) (simp_all add: takeWhile_replicate)
  then show ?thesis using cstr_take [of n "cstr p @ replicate n 0"] by simp
qed

end
