(* ===== verification/Fs_Dirs.thy ===== *)
theory Fs_Dirs
  imports Fs_Inodes Fs_Paths
begin

text \<open>
  Directories of \<^verbatim>\<open>kernel/fs.c\<close>: the contents of a directory file as a list of entries, and what
  \<open>dirlookup\<close> and \<open>dirlink\<close> do to that list inside a transaction. The directory's blocks are allocated,
  so that no block allocation is involved.
\<close>

section \<open>The entries of a directory\<close>

definition dir_entries :: "'a fsstate_scheme \<Rightarrow> nat \<Rightarrow> uint8 list list" where
  "dir_entries s dp =
     map (\<lambda>k. map (file_byte s dp) [16 * k..<16 * k + 16]) [0..<unat (i_size (itable s dp)) div 16]"

text \<open>An entry in use whose name agrees with \<open>name\<close> in the first \<open>DIRSIZ\<close> bytes, and the first such entry.\<close>

definition names :: "uint8 list \<Rightarrow> uint8 list \<Rightarrow> bool" where
  "names name de \<longleftrightarrow> de_inum de \<noteq> 0 \<and> take DIRSIZ (cstr name) = take DIRSIZ (cstr (de_name de))"

definition dir_find :: "uint8 list \<Rightarrow> uint8 list list \<Rightarrow> nat option" where
  "dir_find name es = find (\<lambda>k. names name (es ! k)) [0..<length es]"

definition dir_ok :: "'a fsstate_scheme \<Rightarrow> nat \<Rightarrow> nat \<Rightarrow> bool" where
  "dir_ok s dp N \<longleftrightarrow> file_ok s dp N \<and> i_type (itable s dp) = T_DIR \<and> 16 dvd unat (i_size (itable s dp))
     \<and> unat (i_size (itable s dp)) \<le> N * BSIZE"

lemma dir_next:
  assumes "tx_next {} (view s) 0 s s'" "tx_room {} k s"
  shows "dir_entries s' dp = dir_entries s dp" "dir_ok s' dp N = dir_ok s dp N" "in_tx {} s'" "tx_room {} k s'" "itable s' = itable s" "view s' = view s"
  using file_next [OF assms(1)] tx_nextD [OF assms(1)] tx_room_next [OF assms(1), of k] assms(2)
  by (simp_all add: dir_entries_def dir_ok_def)

lemma read_dirent_ok:
  assumes "in_tx {} s" "dir_ok s dp N" "tx_room {} 0 s" "j < length (dir_entries s dp)"
  shows "\<exists>s'. read_dirent dp (16 * j) msg s = Ret (dir_entries s dp ! j, s') \<and> tx_next {} (view s) 0 s s'"
proof -
  let ?z = "unat (i_size (itable s dp))"
  have f: "file_ok s dp N" "?z \<le> N * BSIZE" "16 dvd ?z" using assms(2) by (auto simp: dir_ok_def)
  have j: "16 * j + 16 \<le> ?z" using assms(4) f(3) by (auto simp: dir_entries_def elim: dvdE)
  moreover have "unat (of_nat (16 * j) :: uint32) = 16 * j" 
    using j unat_lt_2p32 [of "i_size (itable s dp)"] by (intro of_nat_inverse [OF refl]) simp
  ultimately show ?thesis
    using readi_ok [OF assms(1) f(1) assms(3) f(2), of "of_nat (16 * j)" 16] file_bound [OF f(1)] f(2) assms(4)
    by (auto simp: read_dirent_def Let_def word_less_nat_alt dir_entries_def)
qed

section \<open>Searching\<close>

lemma dirlookup_from_ok:
  assumes "in_tx {} s" "dir_ok s dp N" "tx_room {} 0 s" "j \<le> length (dir_entries s dp)"
  shows "\<exists>t. tx_next {} (view s) 0 s t \<and> dirlookup_from (16 * length (dir_entries s dp)) (16 * j) dp name s =
    (case find (\<lambda>k. names name (dir_entries s dp ! k)) [j..<length (dir_entries s dp)] of
       None \<Rightarrow> Ret (None, t)
     | Some i \<Rightarrow> seq (iget ROOTDEV (ucast (de_inum (dir_entries s dp ! i))) t) (\<lambda>(ip, t). Ret (Some (ip, 16 * i), t)))"
  using assms
proof (induction "length (dir_entries s dp) - j" arbitrary: j s)
  case 0
  then show ?case using tx_next_refl by (auto simp: dirlookup_from.simps)
next
  case (Suc m)
  then have j: "j < length (dir_entries s dp)" by simp
  obtain s1 where 1: "read_dirent dp (16 * j) ''dirlookup read'' s = Ret (dir_entries s dp ! j, s1)" "tx_next {} (view s) 0 s s1"
    using read_dirent_ok [OF Suc.prems(1-3) j] by blast
  note d = dir_next [OF 1(2) Suc.prems(3)]
  have m: "m = length (dir_entries s1 dp) - Suc j" using Suc.hyps(2) d(1) by simp
  have dev: "i_dev (itable s1 dp) = ROOTDEV" using Suc.prems(2) d(5) by (simp add: dir_ok_def file_ok_def)
  obtain t where t: "tx_next {} (view s1) 0 s1 t" "dirlookup_from (16 * length (dir_entries s dp)) (16 * Suc j) dp name s1 =
    (case find (\<lambda>k. names name (dir_entries s dp ! k)) [Suc j..<length (dir_entries s dp)] of
       None \<Rightarrow> Ret (None, t)
     | Some i \<Rightarrow> seq (iget ROOTDEV (ucast (de_inum (dir_entries s dp ! i))) t) (\<lambda>(ip, t). Ret (Some (ip, 16 * i), t)))"
    using Suc.hyps(1) [OF m d(3) _ d(4), unfolded d(1,2), OF Suc.prems(2)] j by auto
  have st: "tx_next {} (view s) 0 s t" using tx_next_trans [OF 1(2) t(1)] d(6) by simp
  have nm: "names name (dir_entries s dp ! j) \<longleftrightarrow> de_inum (dir_entries s dp ! j) \<noteq> 0 \<and> namecmp name (de_name (dir_entries s dp ! j)) = 0"
    by (simp add: names_def namecmp_def strncmp_bytes_0)
  show ?case
  proof (cases "names name (dir_entries s dp ! j)")
    case True
    then show ?thesis using 1 j dev nm by (intro exI [of _ s1]) (simp add: dirlookup_from.simps [of _ "16 * j"] upt_conv_Cons)
  next
    case False
    then show ?thesis using 1(1) t(2) st j nm by (intro exI [of _ t]) (auto simp: dirlookup_from.simps [of _ "16 * j"] upt_conv_Cons add.commute)
  qed
qed

lemma dir_size: "dir_ok s dp N \<Longrightarrow> unat (i_size (itable s dp)) = 16 * length (dir_entries s dp)"
  by (simp add: dir_ok_def dir_entries_def)

lemma dirlookup_ok:
  assumes "in_tx {} s" "dir_ok s dp N" "tx_room {} 0 s"
  shows "\<exists>t. tx_next {} (view s) 0 s t \<and> dirlookup dp name s =
    (case dir_find name (dir_entries s dp) of
       None \<Rightarrow> Ret (None, t)
     | Some i \<Rightarrow> seq (iget ROOTDEV (ucast (de_inum (dir_entries s dp ! i))) t) (\<lambda>(ip, t). Ret (Some (ip, 16 * i), t)))"
  using dirlookup_from_ok [OF assms, of 0 name] dir_size [OF assms(2)] assms(2)
  by (simp add: dirlookup_def dir_find_def dir_ok_def)

text \<open>The first free entry, or the end.\<close>

definition free_slot :: "uint8 list list \<Rightarrow> nat" where
  "free_slot es = (case find (\<lambda>k. de_inum (es ! k) = 0) [0..<length es] of None \<Rightarrow> length es | Some k \<Rightarrow> k)"

lemma dirlink_slot_from:
  assumes "in_tx {} s" "dir_ok s dp N" "tx_room {} 0 s" "j \<le> length (dir_entries s dp)"
  shows "\<exists>t. tx_next {} (view s) 0 s t \<and> dirlink_slot (16 * length (dir_entries s dp)) (16 * j) dp s =
    Ret (16 * (case find (\<lambda>k. de_inum (dir_entries s dp ! k) = 0) [j..<length (dir_entries s dp)] of
       None \<Rightarrow> length (dir_entries s dp) | Some i \<Rightarrow> i), t)"
  using assms
proof (induction "length (dir_entries s dp) - j" arbitrary: j s)
  case 0
  then show ?case using tx_next_refl by (auto simp: dirlink_slot.simps)
next
  case (Suc m)
  then have j: "j < length (dir_entries s dp)" by simp
  obtain s1 where 1: "read_dirent dp (16 * j) ''dirlink read'' s = Ret (dir_entries s dp ! j, s1)" "tx_next {} (view s) 0 s s1"
    using read_dirent_ok [OF Suc.prems(1-3) j] by blast
  note d = dir_next [OF 1(2) Suc.prems(3)]
  have m: "m = length (dir_entries s1 dp) - Suc j" using Suc.hyps(2) d(1) by simp
  obtain t where t: "tx_next {} (view s1) 0 s1 t" "dirlink_slot (16 * length (dir_entries s dp)) (16 * Suc j) dp s1 =
    Ret (16 * (case find (\<lambda>k. de_inum (dir_entries s dp ! k) = 0) [Suc j..<length (dir_entries s dp)] of
       None \<Rightarrow> length (dir_entries s dp) | Some i \<Rightarrow> i), t)"
    using Suc.hyps(1) [OF m d(3) _ d(4), unfolded d(1,2), OF Suc.prems(2)] j by auto
  have st: "tx_next {} (view s) 0 s t" using tx_next_trans [OF 1(2) t(1)] d(6) by simp
  show ?case
  proof (cases "de_inum (dir_entries s dp ! j) = 0")
    case True
    then show ?thesis using 1 j by (intro exI [of _ s1]) (simp add: dirlink_slot.simps [of _ "16 * j"] upt_conv_Cons)
  next
    case False
    then show ?thesis using 1(1) t(2) st j by (intro exI [of _ t]) (auto simp: dirlink_slot.simps [of _ "16 * j"] upt_conv_Cons add.commute)
  qed
qed

lemma free_slot_props:
  "free_slot es \<le> length es" "j < free_slot es \<Longrightarrow> de_inum (es ! j) \<noteq> 0"
  "free_slot es < length es \<Longrightarrow> de_inum (es ! free_slot es) = 0"
  by (auto simp: free_slot_def find_None_iff find_Some_iff split: option.splits)

lemma dirlink_slot_ok:
  assumes "in_tx {} s" "dir_ok s dp N" "tx_room {} 0 s"
  shows "\<exists>t. tx_next {} (view s) 0 s t \<and>
    dirlink_slot (unat (i_size (itable s dp))) 0 dp s = Ret (16 * free_slot (dir_entries s dp), t)"
  using dirlink_slot_from [OF assms, of 0] dir_size [OF assms(2)] by (simp add: free_slot_def)

section \<open>Adding an entry\<close>

definition put_entry :: "nat \<Rightarrow> uint8 list \<Rightarrow> uint8 list list \<Rightarrow> uint8 list list" where
  "put_entry k e es = (if k < length es then es[k := e] else es @ [e])"

text \<open>Nothing changes but the directory's own inode and blocks.\<close>

definition only_dir :: "nat \<Rightarrow> nat \<Rightarrow> 'a fsstate_scheme \<Rightarrow> 'a fsstate_scheme \<Rightarrow> bool" where
  "only_dir dp N s s' \<longleftrightarrow> (\<forall>jp. jp \<noteq> dp \<longrightarrow> itable s' jp = itable s jp) \<and>
     (\<forall>b. b \<notin> file_block s dp ` {..<N} \<and> b \<noteq> IBLOCK (i_inum (itable s dp)) (sb s) \<longrightarrow> view s' b = view s b)"

lemma only_dir_next: "tx_next {} (view s) 0 s t \<Longrightarrow> only_dir dp N t s' = only_dir dp N s s'"
  by (simp add: only_dir_def file_next tx_nextD(2) fs_fields(1) [OF tx_nextD(7)])

text \<open>Sixteen bytes written over the entry \<open>j\<close>, or right after the last one.\<close>

lemma write_entry:
  assumes d: "in_tx {} s" "dir_ok s dp N" "tx_room {} 2 s" and j: "j \<le> length (dir_entries s dp)"
    and e: "length e = 16" and room: "unat (i_size (itable s dp)) + 16 \<le> N * BSIZE"
  shows "\<exists>s'. writei dp (FromKernel e) (of_nat (16 * j)) 16 s = Ret (16, s') \<and> in_tx {} s' \<and> dir_ok s' dp N \<and> tx_room {} 0 s' \<and>
    dir_entries s' dp = put_entry j e (dir_entries s dp) \<and> only_dir dp N s s'"
proof -
  let ?z = "unat (i_size (itable s dp))" and ?n = "length (dir_entries s dp)"
  have z: "?z = 16 * ?n" by (rule dir_size [OF d(2)])
  have ok: "file_ok s dp N" "tx_room {} (int 1 + 1) s" using d by (simp_all add: dir_ok_def)
  have blk: "16 * j + length e \<le> (16 * j div BSIZE + 1) * BSIZE"
  proof -
    obtain q r where "j = 64 * q + r" "r < 64" using div_mult_mod_eq [of j 64] by (metis mod_less_divisor mult.commute zero_less_numeral)
    then show ?thesis using e by (simp add: BSIZE_def)
  qed
  have "16 * j \<le> ?z" "16 * j + length e \<le> N * BSIZE" using j z e room by linarith+
  from writei_ok [OF d(1) ok this blk] obtain s' q where
    w: "writei dp (FromKernel e) (of_nat (16 * j)) (of_nat (length e)) s = Ret (int (length e), s')"
      "unat q = max ?z (16 * j + length e)" "itable s' = (itable s)(dp := (itable s dp)\<lparr>i_size := q\<rparr>)"
      "\<forall>p < N * BSIZE. file_byte s' dp p = (if 16 * j \<le> p \<and> p < 16 * j + length e then e ! (p - 16 * j) else file_byte s dp p)"
      "\<forall>b. b \<notin> file_block s dp ` {..<N} \<and> b \<noteq> IBLOCK (i_inum (itable s dp)) (sb s) \<longrightarrow> view s' b = view s b"
      "in_tx {} s'" "file_ok s' dp N" "tx_room {} 0 s'"
    by (elim exE conjE) (rule that; assumption)
  have q: "unat q = 16 * max ?n (Suc j)" using w(2) z e by (simp add: max_def)
  have old: "map (file_byte s' dp) [16 * i..<16 * i + 16] = map (file_byte s dp) [16 * i..<16 * i + 16]" if "i < ?n" "i \<noteq> j" for i
    using that z room w(4) e by (auto intro!: map_cong)
  have new: "map (file_byte s' dp) [16 * j..<16 * j + 16] = e"
    by (rule nth_equalityI) (use e w(4) j z room in auto)
  have len: "length (dir_entries s' dp) = max ?n (Suc j)" using q w(3) by (simp add: dir_entries_def)
  have "dir_entries s' dp = put_entry j e (dir_entries s dp)"
  proof (rule nth_equalityI)
    show "length (dir_entries s' dp) = length (put_entry j e (dir_entries s dp))" using len j by (simp add: put_entry_def)
    fix i assume i: "i < length (dir_entries s' dp)"
    then have "dir_entries s' dp ! i = map (file_byte s' dp) [16 * i..<16 * i + 16]" by (simp add: dir_entries_def)
    moreover have "dir_entries s dp ! i = map (file_byte s dp) [16 * i..<16 * i + 16]" if "i < ?n" using that by (simp add: dir_entries_def)
    ultimately show "dir_entries s' dp ! i = put_entry j e (dir_entries s dp) ! i"
      using i len j old [of i] new by (cases "i = j") (auto simp: put_entry_def nth_append)
  qed
  moreover have "dir_ok s' dp N" using d(2) w(3,7) q room z j by (auto simp: dir_ok_def max_def)
  moreover have "only_dir dp N s s'" using w(3,5) by (simp add: only_dir_def)
  ultimately show ?thesis using w(1,6,8) e by auto
qed

lemma find_upt_cong: "(\<And>i. i < n \<Longrightarrow> P i = Q i) \<Longrightarrow> find P [0..<n] = find Q [0..<n]"
  by (rule find_cong) auto

lemma find_append: "find P (xs @ ys) = (case find P xs of None \<Rightarrow> find P ys | Some x \<Rightarrow> Some x)"
  by (induction xs) auto

lemma dir_find_put:
  assumes j: "j = free_slot es" and e: "\<not> names name e"
  shows "dir_find name (put_entry j e es) = dir_find name es"
proof (cases "j < length es")
  case True
  then have "\<not> names name (es ! j)" using free_slot_props(3) [of es] j by (simp add: names_def)
  then show ?thesis using True e unfolding dir_find_def put_entry_def by (auto simp: nth_list_update intro!: find_upt_cong)
next
  case False
  then have "j = length es" using free_slot_props(1) [of es] j by simp
  have "find (\<lambda>k. names name ((es @ [e]) ! k)) [0..<length es] = find (\<lambda>k. names name (es ! k)) [0..<length es]"
    by (rule find_upt_cong) (simp add: nth_append)
  then show ?thesis using False e by (simp add: dir_find_def put_entry_def find_append split: option.splits)
qed

lemma dir_find_new:
  assumes j: "j = free_slot es" and e: "names name e" and es: "dir_find name es = None"
  shows "dir_find name (put_entry j e es) = Some j"
proof -
  have j': "j \<le> length es" using free_slot_props(1) [of es] j by simp
  have "\<not> names name (es ! i)" if "i < length es" for i using es that by (simp add: dir_find_def find_None_iff)
  then show ?thesis unfolding dir_find_def find_Some_iff
    using j' e by (intro exI [of _ j]) (auto simp: put_entry_def nth_append)
qed

lemma mk_dirent_names:
  "names other (mk_dirent inum name) \<longleftrightarrow> inum \<noteq> 0 \<and> take DIRSIZ (cstr other) = take DIRSIZ (cstr name)"
  unfolding names_def mk_dirent_fields cstr_pad by simp

lemma dirlink_new:
  assumes d: "in_tx {} s" "dir_ok s dp N" "tx_room {} 2 s" and room: "unat (i_size (itable s dp)) + 16 \<le> N * BSIZE"
    and new: "dir_find name (dir_entries s dp) = None"
  shows "\<exists>s'. dirlink dp name inum s = Ret (0, s') \<and> in_tx {} s' \<and> dir_ok s' dp N \<and> tx_room {} 0 s' \<and>
    dir_entries s' dp = put_entry (free_slot (dir_entries s dp)) (mk_dirent (ucast inum) name) (dir_entries s dp) \<and> only_dir dp N s s'"
proof -
  let ?j = "free_slot (dir_entries s dp)"
  obtain s1 where 1: "tx_next {} (view s) 0 s s1" "dirlookup dp name s = Ret (None, s1)"
    using dirlookup_ok [OF d(1,2) tx_room_weaken [OF d(3)], of name] new by auto
  note d1 = dir_next [OF 1(1) d(3)]
  obtain s2 where 2: "tx_next {} (view s1) 0 s1 s2" "dirlink_slot (unat (i_size (itable s1 dp))) 0 dp s1 = Ret (16 * ?j, s2)"
    using dirlink_slot_ok [OF d1(3) _ tx_room_weaken [OF d1(4)], unfolded d1(1,2), OF d(2)] by auto
  note d2 = dir_next [OF 2(1) d1(4)]
  have "?j \<le> length (dir_entries s2 dp)" "dir_ok s2 dp N" "unat (i_size (itable s2 dp)) + 16 \<le> N * BSIZE"
    using free_slot_props(1) d1 d2 d(2) room by auto
  from write_entry [OF d2(3) this(2) d2(4) this(1) mk_dirent_fields(3) this(3), of "ucast inum" name] obtain s' where
    "writei dp (FromKernel (mk_dirent (ucast inum) name)) (of_nat (16 * ?j)) 16 s2 = Ret (16, s')" "in_tx {} s'" "dir_ok s' dp N" "tx_room {} 0 s'"
    "dir_entries s' dp = put_entry ?j (mk_dirent (ucast inum) name) (dir_entries s dp)" "only_dir dp N s s'"
    unfolding d2(1) d1(1) only_dir_next [OF 2(1)] only_dir_next [OF 1(1)] by blast
  then show ?thesis using 1(2) 2(2) by (simp add: dirlink_def)
qed

text \<open>
  C36. Linking and looking up a name, in a directory whose blocks are allocated. If the name is there,
  \<open>dirlink\<close> drops the inode that \<open>dirlookup\<close> found and fails. Otherwise it succeeds: the entry goes
  to the first free slot, or to the end, with the inode number cut to 16 bits and the name cut to
  \<open>DIRSIZ\<close> bytes, and no other entry changes, nor any block or inode but the directory's. \<open>dirlookup\<close> of the name then takes that inode and returns
  the offset of the entry, unless the 16 bits are zero, which makes the entry a free one; a name
  that differs within \<open>DIRSIZ\<close> bytes is found exactly where it was found before.
\<close>

theorem dirlink_dirlookup:
  assumes "in_tx {} s" "dir_ok s dp N" "tx_room {} 2 s" "unat (i_size (itable s dp)) + 16 \<le> N * BSIZE"
  shows "case dir_find name (dir_entries s dp) of
     Some j \<Rightarrow> (\<exists>t. view t = view s \<and> itable t = itable s \<and> dirlink dp name inum s =
       seq (iget ROOTDEV (ucast (de_inum (dir_entries s dp ! j))) t) (\<lambda>(ip, t). seq (iput ip t) (\<lambda>t. Ret (-1, t))))
   | None \<Rightarrow> (\<exists>s' j e t. dirlink dp name inum s = Ret (0, s') \<and> only_dir dp N s s' \<and>
       j \<le> length (dir_entries s dp) \<and> (\<forall>i<j. de_inum (dir_entries s dp ! i) \<noteq> 0) \<and>
       (if j < length (dir_entries s dp) then de_inum (dir_entries s dp ! j) = 0 \<and> dir_entries s' dp = (dir_entries s dp)[j := e]
        else dir_entries s' dp = dir_entries s dp @ [e]) \<and>
       unat (de_inum e) = unat inum mod 65536 \<and> cstr (de_name e) = take 14 (cstr name) \<and>
       (\<forall>other. take 14 (cstr other) \<noteq> take 14 (cstr name) \<longrightarrow>
          dir_find other (dir_entries s' dp) = dir_find other (dir_entries s dp)) \<and>
       view t = view s' \<and> itable t = itable s' \<and> dirlookup dp name s' =
         (if unat inum mod 65536 = 0 then Ret (None, t)
          else seq (iget ROOTDEV (of_nat (unat inum mod 65536)) t) (\<lambda>(ip, t). Ret (Some (ip, 16 * j), t))))"
proof (cases "dir_find name (dir_entries s dp)")
  case (Some j)
  obtain t where t: "tx_next {} (view s) 0 s t" "dirlookup dp name s =
      seq (iget ROOTDEV (ucast (de_inum (dir_entries s dp ! j))) t) (\<lambda>(ip, t). Ret (Some (ip, 16 * j), t))"
    using dirlookup_ok [OF assms(1,2) tx_room_weaken [OF assms(3)], of name] Some by auto
  then show ?thesis using Some dir_next(5,6) [OF t(1) assms(3)]
    by (cases "iget ROOTDEV (ucast (de_inum (dir_entries s dp ! j))) t") (auto simp: dirlink_def intro!: exI [of _ t])
next
  case None
  let ?es = "dir_entries s dp" and ?e = "mk_dirent (ucast inum) name"
  let ?j = "free_slot ?es"
  obtain s' where s': "dirlink dp name inum s = Ret (0, s')" "in_tx {} s'" "dir_ok s' dp N" "tx_room {} 0 s'"
      "dir_entries s' dp = put_entry ?j ?e ?es" "only_dir dp N s s'"
    using dirlink_new [OF assms None] by blast
  have u: "unat (ucast inum :: uint16) = unat inum mod 65536" by (simp add: unsigned_ucast_eq take_bit_eq_mod)
  have c: "(ucast (ucast inum :: uint16) :: uint32) = of_nat (unat inum mod 65536)" by (simp flip: u)
  have z: "(ucast inum :: uint16) = 0 \<longleftrightarrow> unat inum mod 65536 = 0" by (simp add: unat_eq_0 [symmetric] u del: unat_eq_0)
  have oth: "dir_find other (dir_entries s' dp) = dir_find other ?es" if "take DIRSIZ (cstr other) \<noteq> take DIRSIZ (cstr name)" for other
    unfolding s'(5) using that by (intro dir_find_put [OF refl]) (simp add: mk_dirent_names)
  have fnd: "dir_find name (dir_entries s' dp) = (if unat inum mod 65536 = 0 then None else Some ?j)"
    unfolding s'(5) using None dir_find_put [of ?j ?es name ?e] dir_find_new [of ?j ?es name ?e] by (simp add: mk_dirent_names z)
  have ej: "dir_entries s' dp ! ?j = ?e" using free_slot_props(1) [of ?es] by (auto simp: s'(5) put_entry_def nth_append)
  obtain t where t: "tx_next {} (view s') 0 s' t" "dirlookup dp name s' =
         (if unat inum mod 65536 = 0 then Ret (None, t)
          else seq (iget ROOTDEV (of_nat (unat inum mod 65536)) t) (\<lambda>(ip, t). Ret (Some (ip, 16 * ?j), t)))"
    using dirlookup_ok [OF s'(2-4), of name] unfolding fnd by (cases "unat inum mod 65536 = 0") (auto simp: ej mk_dirent_fields c)
  have e: "unat (de_inum ?e) = unat inum mod 65536" "cstr (de_name ?e) = take 14 (cstr name)"
    using cstr_pad [of DIRSIZ name] by (simp_all add: mk_dirent_fields u DIRSIZ_def)
  show ?thesis unfolding None option.case
    using s'(1,5,6) e oth t(2) dir_next(5,6) [OF t(1) s'(4)] free_slot_props(1) [of ?es] free_slot_props(2) [of _ ?es] free_slot_props(3) [of ?es]
    by (intro exI [of _ s'] exI [of _ ?j] exI [of _ ?e] exI [of _ t]) (auto simp: put_entry_def DIRSIZ_def)
qed

text \<open>An empty directory with two blocks.\<close>

definition dir_fs :: fsstate where
  "dir_fs = upd_ip 3 (\<lambda>_. small_file\<lparr>i_type := T_DIR, i_size := 0\<rparr>) small_fs"

lemma dir_fs_ok: "in_tx {} dir_fs" "tx_room {} 2 dir_fs" "dir_ok dir_fs 3 2" "dir_entries dir_fs 3 = []"
proof -
  show "in_tx {} dir_fs" "tx_room {} 2 dir_fs" using file_fs_ok(1) tx_room_weaken [OF file_fs_ok(2), of 2] by (simp_all add: dir_fs_def file_fs_def)
  have b: "file_block dir_fs 3 = file_block file_fs 3" by (intro ext) (simp add: file_block_def dir_fs_def file_fs_def)
  have "file_ok dir_fs 3 2" using file_fs_ok(3) unfolding file_ok_def b by (simp add: dir_fs_def file_fs_def)
  then show "dir_ok dir_fs 3 2" by (simp add: dir_ok_def) (simp add: dir_fs_def)
  show "dir_entries dir_fs 3 = []" by (simp add: dir_entries_def dir_fs_def)
qed

lemma iget_succeeds: "i_ref (itable s 0) = 0 \<Longrightarrow> \<exists>ip t. iget dev inum s = Ret (ip, t)"
  by (auto simp: iget_def find_None_iff NINODE_def split: option.splits)

theorem dirlink_dirlookup_witness:
  "\<exists>s' t ip. dirlink 3 (bytes_of ''sh'') 7 dir_fs = Ret (0, s') \<and> dirlookup 3 (bytes_of ''sh'') s' = Ret (Some (ip, 0), t)"
proof -
  have n: "dir_find (bytes_of ''sh'') (dir_entries dir_fs 3) = None" by (simp add: dir_fs_ok(4) dir_find_def)
  have z: "unat (i_size (itable dir_fs 3)) + 16 \<le> 2 * BSIZE" by (simp add: dir_fs_def BSIZE_def)
  obtain s' t where s': "dirlink 3 (bytes_of ''sh'') 7 dir_fs = Ret (0, s')" "only_dir 3 2 dir_fs s'" "itable t = itable s'"
      "dirlookup 3 (bytes_of ''sh'') s' = seq (iget ROOTDEV 7 t) (\<lambda>(ip, t). Ret (Some (ip, 0), t))"
    using dirlink_dirlookup [OF dir_fs_ok(1,3,2) z, of "bytes_of ''sh''" 7] n dir_fs_ok(4) by auto
  have "i_ref (itable t 0) = 0" using s'(2,3) by (simp add: only_dir_def dir_fs_def small_fs_def small_fs0_def zero_inode_def)
  then show ?thesis using s' iget_succeeds [of t ROOTDEV 7] by auto
qed

end
