(* ===== verification/Ring_Fifo.thy ===== *)
theory Ring_Fifo
  imports Kernel_Prelude
begin

text \<open>
  Ring buffers: an array of \<open>N\<close> bytes with a read and a write counter that wrap at the width
  of the counters, as pipes, the console's input and the serial port's output use them. The
  locale \<open>fifo\<close> is the contract of a bounded queue; what it gives is that any sequence of
  operations delivers the accepted elements once each and in order.
\<close>

section \<open>The contract\<close>

datatype 'a fop = Enq 'a | Deq

text \<open>Operations that are refused change nothing: the caller waits and tries again.\<close>

fun fifo_step :: "('a \<Rightarrow> 's \<Rightarrow> 's option) \<Rightarrow> ('s \<Rightarrow> ('a \<times> 's) option) \<Rightarrow> 'a fop \<Rightarrow> 's \<Rightarrow> 'a list \<times> 'a list \<times> 's" where
  "fifo_step enq deq (Enq x) s = (case enq x s of None \<Rightarrow> ([], [], s) | Some s' \<Rightarrow> ([x], [], s'))"
| "fifo_step enq deq Deq s = (case deq s of None \<Rightarrow> ([], [], s) | Some (x, s') \<Rightarrow> ([], [x], s'))"

text \<open>The elements accepted, the elements delivered, and the state after a sequence of operations.\<close>

primrec fifo_run :: "('a \<Rightarrow> 's \<Rightarrow> 's option) \<Rightarrow> ('s \<Rightarrow> ('a \<times> 's) option) \<Rightarrow> 'a fop list \<Rightarrow> 's \<Rightarrow> 'a list \<times> 'a list \<times> 's" where
  "fifo_run enq deq [] s = ([], [], s)"
| "fifo_run enq deq (p # ps) s =
     (case fifo_step enq deq p s of (i, out, s) \<Rightarrow>
      case fifo_run enq deq ps s of (is, outs, s) \<Rightarrow> (i @ is, out @ outs, s))"

locale fifo =
  fixes inv :: "'s \<Rightarrow> bool"
    and contents :: "'s \<Rightarrow> 'a list"
    and capacity :: nat
    and enq :: "'a \<Rightarrow> 's \<Rightarrow> 's option"
    and deq :: "'s \<Rightarrow> ('a \<times> 's) option"
  assumes enq_full: "inv s \<Longrightarrow> enq x s = None \<longleftrightarrow> length (contents s) = capacity"
    and enq_some: "inv s \<Longrightarrow> enq x s = Some s' \<Longrightarrow> inv s' \<and> contents s' = contents s @ [x]"
    and deq_empty: "inv s \<Longrightarrow> deq s = None \<longleftrightarrow> contents s = []"
    and deq_some: "inv s \<Longrightarrow> deq s = Some (x, s') \<Longrightarrow> inv s' \<and> contents s = x # contents s'"
    and bounded: "inv s \<Longrightarrow> length (contents s) \<le> capacity"
begin

lemma step_fifo: "inv s \<Longrightarrow> fifo_step enq deq p s = (i, out, s') \<Longrightarrow> inv s' \<and> contents s @ i = out @ contents s'"
  by (cases p) (auto split: option.splits dest: enq_some deq_some)

lemma run_fifo: "inv s \<Longrightarrow> fifo_run enq deq ps s = (is, outs, s') \<Longrightarrow> inv s' \<and> contents s @ is = outs @ contents s'"
proof (induction ps arbitrary: s "is" outs s')
  case (Cons p ps)
  obtain i out t where st: "fifo_step enq deq p s = (i, out, t)" by (cases "fifo_step enq deq p s") auto
  obtain "is2" outs2 u where r: "fifo_run enq deq ps t = (is2, outs2, u)" by (cases "fifo_run enq deq ps t") auto
  have "inv t" "contents s @ i = out @ contents t" using step_fifo [OF Cons.prems(1) st] by auto
  moreover from Cons.IH [OF \<open>inv t\<close> r] have "inv u" "contents t @ is2 = outs2 @ contents u" by auto
  moreover have "is = i @ is2" "outs = out @ outs2" "s' = u" using Cons.prems(2) st r by auto
  ultimately show ?case by (metis append_assoc)
qed simp

lemma run_drained: "inv s \<Longrightarrow> contents s = [] \<Longrightarrow> fifo_run enq deq ps s = (is, outs, s') \<Longrightarrow> contents s' = [] \<Longrightarrow> outs = is"
  using run_fifo by fastforce

end

section \<open>Counters that wrap\<close>

definition ring_contents :: "nat \<Rightarrow> uint8 list \<Rightarrow> 'w::len word \<Rightarrow> 'w word \<Rightarrow> uint8 list" where
  "ring_contents N buf r w = map (\<lambda>i. buf ! ((unat r + i) mod N)) [0..<unat (w - r)]"

lemma unat_add_mod:
  assumes "N dvd 2 ^ LENGTH('w)"
  shows "unat (r + of_nat i :: 'w::len word) mod N = (unat r + i) mod N"
  using assms by (simp add: unat_word_ariths unat_of_nat mod_mod_cancel mod_add_right_eq)

lemma unat_Suc_mod:
  assumes "N dvd 2 ^ LENGTH('w)"
  shows "unat (r + 1 :: 'w::len word) mod N = (unat r + 1) mod N"
  using unat_add_mod [OF assms, of r 1] by simp

lemma ring_length [simp]: "length (ring_contents N buf r w) = unat (w - r)"
  by (simp add: ring_contents_def)

lemma ring_index_ne: "i < k \<Longrightarrow> k < N \<Longrightarrow> (a + i) mod N \<noteq> (a + k) mod N" for a i k N :: nat
proof
  assume ik: "i < k" "k < N" and "(a + i) mod N = (a + k) mod N"
  then have "N dvd (a + k) - (a + i)" by (metis mod_eq_dvd_iff_nat add_le_mono le_refl less_imp_le)
  then show False using ik dvd_imp_le [of N "k - i"] by auto
qed

lemma ring_enq:
  fixes r w :: "'w::len word"
  assumes N: "N dvd 2 ^ LENGTH('w)" "N < 2 ^ LENGTH('w)" "length buf = N" and room: "unat (w - r) < N"
  shows "ring_contents N (buf[unat w mod N := x]) r (w + 1) = ring_contents N buf r w @ [x]"
proof -
  let ?k = "unat (w - r)"
  have w: "unat w mod N = (unat r + ?k) mod N" using unat_add_mod [OF N(1), of r ?k] by simp
  have "w + 1 - r = of_nat (Suc ?k)" by simp
  then have k: "unat (w + 1 - r) = Suc ?k" using N(2) room by (simp only: unat_of_nat) simp
  have other: "buf[unat w mod N := x] ! ((unat r + i) mod N) = buf ! ((unat r + i) mod N)" if "i < ?k" for i
    using ring_index_ne [OF that room, of "unat r"] by (simp add: w)
  have "unat w mod N < length buf" using N(3) room by simp
  then have "buf[unat w mod N := x] ! ((unat r + ?k) mod N) = x" by (simp add: w)
  then show ?thesis using other by (simp add: ring_contents_def k)
qed

lemma ring_deq:
  fixes r w :: "'w::len word"
  assumes N: "N dvd 2 ^ LENGTH('w)" and ne: "w \<noteq> r"
  shows "ring_contents N buf r w = buf ! (unat r mod N) # ring_contents N buf (r + 1) w"
    "unat (w - (r + 1)) = unat (w - r) - 1"
proof -
  have "w - r \<noteq> 0" using ne by simp
  then have k: "unat (w - r) = Suc (unat (w - (r + 1)))"
    by (metis add_diff_cancel_left' diff_diff_add unat_minus_one Suc_pred' unat_gt_0)
  then show "unat (w - (r + 1)) = unat (w - r) - 1" by simp
  have "buf ! ((unat r + Suc i) mod N) = buf ! ((unat (r + 1) + i) mod N)" for i
    using unat_Suc_mod [OF N, of r] by (metis add_Suc_right add_Suc_shift mod_add_left_eq plus_1_eq_Suc add.commute)
  then show "ring_contents N buf r w = buf ! (unat r mod N) # ring_contents N buf (r + 1) w"
    by (simp only: ring_contents_def k upt_conv_Cons [OF zero_less_Suc] map_Suc_upt [symmetric] list.map map_map o_def) simp
qed

lemma ring_deq_drop:
  fixes r w :: "'w::len word"
  assumes "N dvd 2 ^ LENGTH('w)" "w \<noteq> r"
  shows "ring_contents N buf (r + 1) w = tl (ring_contents N buf r w)"
  using ring_deq [OF assms] by simp

end
