(* ===== verification/Pipe.thy ===== *)
theory Pipe
  imports Fs Vm_Copy Ring_Fifo
begin

text \<open>
  \<^verbatim>\<open>kernel/pipe.c\<close>: pipes, one byte at a time, with 32-bit counters that wrap. A call that has to
  sleep returns \<open>Waiting i\<close>, \<open>i\<close> the number of bytes it has moved; it goes on from there
  when it is woken. \<open>pipealloc\<close> and the freeing of the page are in theory \<open>File\<close>.
\<close>

section \<open>Operations\<close>

definition PIPESIZE :: nat where "PIPESIZE = 512"

record pipe =
  p_data :: "uint8 list"
  nread :: uint32
  nwrite :: uint32
  readopen :: bool
  writeopen :: bool

datatype fres = Returned int | Waiting nat

definition pipe_put :: "uint8 \<Rightarrow> pipe \<Rightarrow> pipe option" where
  "pipe_put ch pi =
     (if nwrite pi = nread pi + of_nat PIPESIZE then None
      else Some (pi\<lparr>p_data := (p_data pi)[unat (nwrite pi) mod PIPESIZE := ch], nwrite := nwrite pi + 1\<rparr>))"

definition pipe_get :: "pipe \<Rightarrow> (uint8 \<times> pipe) option" where
  "pipe_get pi =
     (if nread pi = nwrite pi then None
      else Some (p_data pi ! (unat (nread pi) mod PIPESIZE), pi\<lparr>nread := nread pi + 1\<rparr>))"

text \<open>
  The loop of \<open>pipewrite\<close>; \<open>killed\<close> is \<open>killed(myproc())\<close>. The loop has seen that there is
  room before it fetches the byte, so \<open>pipe_put\<close> does not refuse it.
\<close>

function pipewrite_loop :: "bool \<Rightarrow> uint64 \<Rightarrow> nat \<Rightarrow> nat \<Rightarrow> pipe \<Rightarrow> 'a fsstate_scheme \<Rightarrow> (fres \<times> pipe) res" where
  "pipewrite_loop killed addr n i pi s =
     (if i < n
      then if \<not> readopen pi \<or> killed then Ret (Returned (-1), pi)
           else if nwrite pi = nread pi + of_nat PIPESIZE then Ret (Waiting i, pi)
           else seq (copyin (upagetable s) (addr + of_nat i) 1 (km s)) (\<lambda>(r, chs).
                if r = -1 then Ret (Returned (int i), pi)
                else case pipe_put (hd chs) pi of
                       None \<Rightarrow> Ret (Waiting i, pi)
                     | Some pi \<Rightarrow> pipewrite_loop killed addr n (i + 1) pi s)
      else Ret (Returned (int i), pi))"
  by auto
termination by (relation "measure (\<lambda>(killed, addr, n, i, pi, s). n - i)") auto

declare pipewrite_loop.simps [simp del]

definition pipewrite :: "bool \<Rightarrow> uint64 \<Rightarrow> int \<Rightarrow> nat \<Rightarrow> pipe \<Rightarrow> 'a fsstate_scheme \<Rightarrow> (fres \<times> pipe) res" where
  "pipewrite killed addr n i pi s = pipewrite_loop killed addr (nat n) i pi s"

function piperead_loop :: "uint64 \<Rightarrow> nat \<Rightarrow> nat \<Rightarrow> pipe \<Rightarrow> 'a fsstate_scheme \<Rightarrow> (nat \<times> pipe \<times> 'a fsstate_scheme) res" where
  "piperead_loop addr n i pi s =
     (if i < n
      then case pipe_get pi of
             None \<Rightarrow> Ret (i, pi, s)
           | Some (ch, pi) \<Rightarrow>
               seq (copyout (upagetable s) (addr + of_nat i) [ch] (km s)) (\<lambda>(r, k).
               let s = s\<lparr>km := k\<rparr> in
               if r = -1 then Ret (i, pi, s) else piperead_loop addr n (i + 1) pi s)
      else Ret (i, pi, s))"
  by auto
termination by (relation "measure (\<lambda>(addr, n, i, pi, s). n - i)") auto

declare piperead_loop.simps [simp del]

definition piperead :: "bool \<Rightarrow> uint64 \<Rightarrow> int \<Rightarrow> pipe \<Rightarrow> 'a fsstate_scheme \<Rightarrow> (fres \<times> pipe \<times> 'a fsstate_scheme) res" where
  "piperead killed addr n pi s =
     (if nread pi = nwrite pi \<and> writeopen pi
      then Ret (if killed then Returned (-1) else Waiting 0, pi, s)
      else seq (piperead_loop addr (nat n) 0 pi s) (\<lambda>(i, pi, s). Ret (Returned (int i), pi, s)))"

definition pipeclose :: "bool \<Rightarrow> pipe \<Rightarrow> pipe" where
  "pipeclose writable pi = (if writable then pi\<lparr>writeopen := False\<rparr> else pi\<lparr>readopen := False\<rparr>)"

definition new_pipe :: "uint8 list \<Rightarrow> pipe" where
  "new_pipe junk = \<lparr>p_data = junk, nread = 0, nwrite = 0, readopen = True, writeopen = True\<rparr>"

section \<open>A pipe is a bounded queue\<close>

definition pipe_inv :: "pipe \<Rightarrow> bool" where
  "pipe_inv pi \<longleftrightarrow> length (p_data pi) = PIPESIZE \<and> unat (nwrite pi - nread pi) \<le> PIPESIZE"

definition pipe_bytes :: "pipe \<Rightarrow> uint8 list" where
  "pipe_bytes pi = ring_contents PIPESIZE (p_data pi) (nread pi) (nwrite pi)"

lemma PIPESIZE_dvd: "PIPESIZE dvd 2 ^ LENGTH(32)" "PIPESIZE < 2 ^ LENGTH(32)"
  by (simp_all add: PIPESIZE_def)

lemma pipe_full_iff: "nwrite pi = nread pi + of_nat PIPESIZE \<longleftrightarrow> unat (nwrite pi - nread pi) = PIPESIZE"
proof
  assume "unat (nwrite pi - nread pi) = PIPESIZE"
  then have "(of_nat (unat (nwrite pi - nread pi)) :: uint32) = of_nat PIPESIZE" by simp
  then have "nwrite pi - nread pi = of_nat PIPESIZE" by simp
  then show "nwrite pi = nread pi + of_nat PIPESIZE" by (simp add: algebra_simps)
qed (simp add: PIPESIZE_def)

interpretation pf: fifo pipe_inv pipe_bytes PIPESIZE pipe_put pipe_get
proof
  fix s s' :: pipe and x
  assume i: "pipe_inv s"
  show "(pipe_put x s = None) = (length (pipe_bytes s) = PIPESIZE)"
    by (simp add: pipe_put_def pipe_full_iff pipe_bytes_def)
  show "(pipe_get s = None) = (pipe_bytes s = [])"
    by (auto simp: pipe_get_def pipe_bytes_def ring_contents_def unat_0_iff)
  show "length (pipe_bytes s) \<le> PIPESIZE" using i by (simp add: pipe_inv_def pipe_bytes_def)
  show "pipe_inv s' \<and> pipe_bytes s' = pipe_bytes s @ [x]" if "pipe_put x s = Some s'"
  proof -
    have lt: "unat (nwrite s - nread s) < PIPESIZE"
      using that i by (auto simp: pipe_put_def pipe_full_iff pipe_inv_def split: if_splits)
    have s': "s' = s\<lparr>p_data := (p_data s)[unat (nwrite s) mod PIPESIZE := x], nwrite := nwrite s + 1\<rparr>"
      using that by (auto simp: pipe_put_def split: if_splits)
    have "pipe_bytes s' = pipe_bytes s @ [x]"
      using ring_enq [OF PIPESIZE_dvd _ lt] i by (simp add: s' pipe_bytes_def pipe_inv_def)
    moreover from this have "unat (nwrite s' - nread s') = Suc (unat (nwrite s - nread s))"
      by (metis ring_length pipe_bytes_def length_append_singleton)
    ultimately show ?thesis using i lt by (simp add: s' pipe_inv_def)
  qed
  show "pipe_inv s' \<and> pipe_bytes s = x # pipe_bytes s'" if "pipe_get s = Some (x, s')"
  proof -
    have ne: "nwrite s \<noteq> nread s" and s': "x = p_data s ! (unat (nread s) mod PIPESIZE)" "s' = s\<lparr>nread := nread s + 1\<rparr>"
      using that by (auto simp: pipe_get_def split: if_splits)
    show ?thesis using ring_deq(1) [OF PIPESIZE_dvd(1) ne, of "p_data s"] ring_deq(2) [OF PIPESIZE_dvd(1) ne] i by (auto simp: s' pipe_bytes_def pipe_inv_def)
  qed
qed

text \<open>
  C11. A pipe is a bounded queue: start with a pipe whose counters are equal anywhere in their
  32-bit range, and let any interleaving of writers putting bytes and readers taking bytes
  run. What the readers have got, followed by what is still in the pipe, is what the writers
  have put, in order; and there are never more than 512 bytes in it.
\<close>

theorem pipe_fifo:
  assumes "pipe_inv pi" "nread pi = nwrite pi" "fifo_run pipe_put pipe_get ps pi = (accepted, delivered, pi')"
  shows "accepted = delivered @ pipe_bytes pi' \<and> length (pipe_bytes pi') \<le> PIPESIZE"
proof -
  have "pipe_bytes pi = []" using assms(2) by (simp add: pipe_bytes_def ring_contents_def)
  then show ?thesis using pf.run_fifo [OF assms(1,3)] pf.bounded by auto
qed

text \<open>The counters of this example wrap around between the two writes.\<close>

theorem pipe_fifo_witness:
  "\<exists>pi'. fifo_run pipe_put pipe_get [Enq 1, Enq 2, Deq, Enq 3, Deq] \<lparr>p_data = replicate 512 0, nread = -1, nwrite = -1, readopen = True, writeopen = True\<rparr> =
     ([1, 2, 3], [1, 2], pi') \<and> pipe_bytes pi' = [3]"
proof -
  let ?pi = "\<lparr>p_data = replicate 512 0, nread = -1, nwrite = -1, readopen = True, writeopen = True\<rparr> :: pipe"
  have u: "unat (- 1 :: uint32) = 4294967295" by (simp add: unsigned_minus_1_eq_mask mask_eq_exp_minus_1)
  have inv: "pipe_inv ?pi" by (simp add: pipe_inv_def PIPESIZE_def)
  obtain pi' where r: "fifo_run pipe_put pipe_get [Enq 1, Enq 2, Deq, Enq 3, Deq] ?pi = ([1, 2, 3], [1, 2], pi')"
    by (simp add: pipe_put_def pipe_get_def PIPESIZE_def u nth_list_update)
  then show ?thesis using pipe_fifo [OF inv _ r] by auto
qed

section \<open>The system calls\<close>

text \<open>The user's bytes at \<open>addr\<close> are \<open>bs\<close>.\<close>

definition user_bytes :: "'a fsstate_scheme \<Rightarrow> uint64 \<Rightarrow> uint8 list \<Rightarrow> bool" where
  "user_bytes s addr bs \<longleftrightarrow>
     (\<forall>i<length bs. copyin (upagetable s) (addr + of_nat i) 1 (km s) = Ret (0, [bs ! i]))"

lemma pipewrite_loop_ok:
  assumes "pipe_inv pi" "readopen pi" "user_bytes s addr bs" "i \<le> length bs"
  shows "let m = min (length bs - i) (PIPESIZE - length (pipe_bytes pi)) in
    \<exists>pi'. pipewrite_loop False addr (length bs) i pi s =
        Ret (if i + m = length bs then Returned (int (length bs)) else Waiting (i + m), pi') \<and>
      pipe_inv pi' \<and> pipe_bytes pi' = pipe_bytes pi @ take m (drop i bs)"
  using assms
proof (induction "length bs - i" arbitrary: i pi)
  case 0
  then show ?case by (simp add: pipewrite_loop.simps)
next
  case (Suc k)
  then have i: "i < length bs" by simp
  show ?case
  proof (cases "length (pipe_bytes pi) = PIPESIZE")
    case True
    then have "nwrite pi = nread pi + of_nat PIPESIZE" by (simp add: pipe_full_iff pipe_bytes_def)
    then show ?thesis using i True Suc.prems by (simp add: pipewrite_loop.simps [of False addr "length bs" i])
  next
    case False
    then have room: "length (pipe_bytes pi) < PIPESIZE" using pf.bounded [OF Suc.prems(1)] by simp
    obtain pi1 where p1: "pipe_put (bs ! i) pi = Some pi1" using pf.enq_full [OF Suc.prems(1), of "bs ! i"] False by auto
    note e = pf.enq_some [OF Suc.prems(1) p1]
    have o: "readopen pi1" using p1 Suc.prems(2) by (auto simp: pipe_put_def split: if_splits)
    have nf: "nwrite pi \<noteq> nread pi + of_nat PIPESIZE" using False by (simp add: pipe_full_iff pipe_bytes_def)
    have step: "pipewrite_loop False addr (length bs) i pi s = pipewrite_loop False addr (length bs) (i + 1) pi1 s"
      using i nf p1 Suc.prems(2,3) by (simp add: pipewrite_loop.simps [of False addr "length bs" i] user_bytes_def)
    let ?m = "min (length bs - i) (PIPESIZE - length (pipe_bytes pi))"
      and ?m1 = "min (length bs - (i + 1)) (PIPESIZE - length (pipe_bytes pi1))"
    have m: "?m = Suc ?m1" using i room e by (auto simp: min_def)
    have t: "take ?m (drop i bs) = bs ! i # take ?m1 (drop (i + 1) bs)"
      unfolding m using i by (simp add: Cons_nth_drop_Suc [symmetric])
    have k: "k = length bs - (i + 1)" "i + 1 \<le> length bs" using Suc.hyps(2) by simp_all
    from Suc.hyps(1) [OF k(1) conjunct1 [OF e] o Suc.prems(3) k(2)] obtain pi' where
      "pipewrite_loop False addr (length bs) (i + 1) pi1 s =
        Ret (if i + 1 + ?m1 = length bs then Returned (int (length bs)) else Waiting (i + 1 + ?m1), pi')"
      "pipe_inv pi'" "pipe_bytes pi' = pipe_bytes pi1 @ take ?m1 (drop (i + 1) bs)"
      unfolding Let_def by blast
    then show ?thesis unfolding Let_def t step using e unfolding m by auto
  qed
qed

text \<open>
  C28. \<open>pipewrite\<close> of \<open>n\<close> readable user bytes to a pipe open for reading moves as many as fit,
  in order, behind the bytes already there; it returns \<open>n\<close> if all fit and otherwise sleeps with
  that progress. A killed process, or a pipe without readers, gets -1 and leaves the pipe alone.
\<close>

theorem pipewrite_appends:
  assumes "pipe_inv pi" "user_bytes s addr bs"
  shows "let m = min (length bs) (PIPESIZE - length (pipe_bytes pi)) in
    \<exists>pi'. pipewrite killed addr (int (length bs)) 0 pi s =
       Ret (if bs = [] then Returned 0 else if killed \<or> \<not> readopen pi then Returned (-1)
            else if m = length bs then Returned (int (length bs)) else Waiting m, pi') \<and>
      pipe_bytes pi' = pipe_bytes pi @ (if killed \<or> \<not> readopen pi then [] else take m bs)"
proof (cases "bs = [] \<or> killed \<or> \<not> readopen pi")
  case True
  then show ?thesis by (auto simp: pipewrite_def pipewrite_loop.simps [of killed] Let_def)
next
  case False
  then show ?thesis using pipewrite_loop_ok [OF assms(1) _ assms(2), of 0] by (auto simp: pipewrite_def Let_def)
qed

theorem pipewrite_appends_witness:
  "\<exists>(s :: fsstate) pi' b. user_bytes s 0x1000 [b] \<and>
     pipewrite False 0x1000 1 0 (new_pipe (replicate 512 0)) s = Ret (Returned 1, pi') \<and> pipe_bytes pi' = [b]"
proof (rule one_page_user)
  fix k :: kmem and ps
  assume ok: "pt_ok k ps 0x80100000" "user_sep k ps 0x80100000" and w: "\<And>i. i < 4096 \<Longrightarrow> uwritable (kmem_mem k) 0x80100000 (0x1000 + of_nat i)"
  define s :: fsstate where "s = undefined\<lparr>km := k, upagetable := 0x80100000\<rparr>"
  have "uwritable (kmem_mem k) 0x80100000 0x1000" using w [of 0] by simp
  then obtain b where b: "ubyte (kmem_mem k) 0x80100000 0x1000 = Some b"
    using uwritable_page [OF _ ok(2)] by (auto simp: ubyte_def Let_def)
  have "copyin 0x80100000 0x1000 1 k = Ret (0, [b])"
    using copyin_usee [OF ok(1), of "0x1000" 1] b by (auto simp: usee_def)
  then have u: "user_bytes s 0x1000 [b]" by (simp add: user_bytes_def s_def)
  have inv: "pipe_inv (new_pipe (replicate 512 0))" "pipe_bytes (new_pipe (replicate 512 0)) = []"
    by (simp_all add: pipe_inv_def new_pipe_def PIPESIZE_def pipe_bytes_def ring_contents_def)
  from pipewrite_appends [OF inv(1) u, of False] show ?thesis
    using u inv(2) by (auto simp: Let_def new_pipe_def PIPESIZE_def)
qed

text \<open>
  C29. A reader with a bad buffer loses a byte: if the pipe holds data and \<open>copyout\<close> fails,
  \<open>piperead\<close> returns 0, the value for end of file, and the first byte is gone from the pipe.
\<close>

theorem piperead_bad_address_loses_byte:
  assumes "pipe_inv pi" "pipe_bytes pi = b # bs" "0 < n" "copyout (upagetable s) addr [b] (km s) = Ret (-1, km s)"
  shows "\<exists>pi' s'. piperead killed addr n pi s = Ret (Returned 0, pi', s') \<and> pipe_bytes pi' = bs"
proof -
  obtain x pi1 where g: "pipe_get pi = Some (x, pi1)" using pf.deq_empty [OF assms(1)] assms(2) by (cases "pipe_get pi") auto
  have x: "x = b" "pipe_bytes pi1 = bs" using pf.deq_some [OF assms(1) g] assms(2) by auto
  have "nread pi \<noteq> nwrite pi" using g by (auto simp: pipe_get_def)
  then have "piperead killed addr n pi s = Ret (Returned 0, pi1, s\<lparr>km := km s\<rparr>)"
    using g x assms(3,4) by (simp add: piperead_def piperead_loop.simps [of addr "nat n" 0])
  then show ?thesis using x by blast
qed

theorem piperead_bad_address_loses_byte_witness:
  "\<exists>(s :: fsstate) pi' s'. piperead False MAXVA 1 \<lparr>p_data = 65 # replicate 511 0, nread = 0, nwrite = 1, readopen = True, writeopen = True\<rparr> s =
     Ret (Returned 0, pi', s') \<and> pipe_bytes pi' = []"
proof -
  let ?pi = "\<lparr>p_data = 65 # replicate 511 0, nread = 0, nwrite = 1, readopen = True, writeopen = True\<rparr> :: pipe"
  fix s :: fsstate
  have "copyout (upagetable s) MAXVA [65] (km s) = Ret (-1, km s)"
    by (subst copyout.simps) (simp add: walkaddr_def Let_def MAXVA_def PGROUNDDOWN_def PGSIZE_def)
  moreover have "pipe_inv ?pi" "pipe_bytes ?pi = [65]" by (simp_all add: pipe_inv_def pipe_bytes_def ring_contents_def PIPESIZE_def)
  ultimately show ?thesis using piperead_bad_address_loses_byte [of ?pi 65 "[]" 1 s MAXVA False] by auto
qed

end
