(* ===== verification/Kstate.thy ===== *)
theory Kstate
  imports Pipe
begin

text \<open>
  The state above the file system: \<^verbatim>\<open>struct file\<close> and the file table (\<^verbatim>\<open>kernel/file.h\<close>),
  the process table (\<^verbatim>\<open>kernel/proc.h\<close>), the pipes by the address of their page, and the clock
  ticks; with \<open>wakeup\<close>, \<open>kill\<close>, \<open>killed\<close>, \<open>setkilled\<close> of \<^verbatim>\<open>kernel/proc.c\<close>,
  and the two halves of \<open>sleep\<close>, which the files and the console call. A pointer to a process or to a file is its index in
  the table, a pointer that may be null an option. The base record's \<open>mypid\<close>, \<open>upagetable\<close>
  and \<open>cwd\<close> are the fields of the process that runs; \<open>cur_ok\<close> says that they agree with its
  entry in the table. The trapframe of a process is in physical memory, at its address.
\<close>

section \<open>Constants\<close>

definition NPROC :: nat where "NPROC = 64"
definition NOFILE :: nat where "NOFILE = 16"
definition NFILE :: nat where "NFILE = 100"
definition NDEV :: nat where "NDEV = 10"
definition CONSOLE :: uint16 where "CONSOLE = 1"

section \<open>Files\<close>

datatype ftype = FD_NONE | FD_PIPE | FD_INODE | FD_DEVICE

record file_struct =
  f_type :: ftype
  f_ref :: int
  f_readable :: bool
  f_writable :: bool
  f_pipe :: uint64
  f_ip :: nat
  f_off :: uint32
  f_major :: uint16

section \<open>Processes\<close>

datatype procstate = UNUSED | USED | SLEEPING | RUNNABLE | RUNNING | ZOMBIE

text \<open>The addresses processes sleep on, named by the object they point to.\<close>

datatype chan = ChProc nat | ChTicks | ChPipe_nread uint64 | ChPipe_nwrite uint64 | ChCons_r | ChUart_tx_r | ChDisk_free | ChBuf nat

record context_struct =
  ctx_ra :: uint64
  ctx_sp :: uint64
  ctx_s :: "uint64 list"

record proc =
  p_state :: procstate
  p_chan :: "chan option"
  p_killed :: bool
  p_xstate :: int
  p_pid :: int
  p_parent :: "nat option"
  p_kstack :: uint64
  p_sz :: uint64
  p_pagetable :: uint64
  p_trapframe :: uint64
  p_context :: context_struct
  p_ofile :: "nat option list"
  p_cwd :: "nat option"
  p_name :: "uint8 list"

text \<open>
  \<open>cur\<close> is the \<open>proc\<close> field of this processor. \<open>cons_out\<close> collects what has been printed on
  the console, as bytes.
\<close>

record kstate = fsstate +
  ftable :: "nat \<Rightarrow> file_struct"
  pipes :: "uint64 \<Rightarrow> pipe"
  procs :: "nat \<Rightarrow> proc"
  cur :: "nat option"
  nextpid :: int
  initproc :: nat
  ticks :: uint32
  cons_out :: "uint8 list"

definition upd_file :: "nat \<Rightarrow> (file_struct \<Rightarrow> file_struct) \<Rightarrow> 'a kstate_scheme \<Rightarrow> 'a kstate_scheme" where
  "upd_file f g s = s\<lparr>ftable := (ftable s)(f := g (ftable s f))\<rparr>"

definition upd_pipe :: "uint64 \<Rightarrow> pipe \<Rightarrow> 'a kstate_scheme \<Rightarrow> 'a kstate_scheme" where
  "upd_pipe a pi s = s\<lparr>pipes := (pipes s)(a := pi)\<rparr>"

definition upd_proc :: "nat \<Rightarrow> (proc \<Rightarrow> proc) \<Rightarrow> 'a kstate_scheme \<Rightarrow> 'a kstate_scheme" where
  "upd_proc p g s = s\<lparr>procs := (procs s)(p := g (procs s p))\<rparr>"

text \<open>\<open>myproc()\<close>; the index past the table stands for the null pointer.\<close>

definition myproc :: "'a kstate_scheme \<Rightarrow> nat" where
  "myproc s = (case cur s of Some p \<Rightarrow> p | None \<Rightarrow> NPROC)"

abbreviation me :: "'a kstate_scheme \<Rightarrow> proc" where "me s \<equiv> procs s (myproc s)"

definition cur_ok :: "'a kstate_scheme \<Rightarrow> bool" where
  "cur_ok s \<longleftrightarrow> myproc s < NPROC \<and> p_state (me s) = RUNNING \<and> p_pid (me s) = mypid s
     \<and> p_pagetable (me s) = upagetable s \<and> p_cwd (me s) = Some (cwd s) \<and> length (p_ofile (me s)) = NOFILE"

section \<open>The trapframe\<close>

abbreviation TF_EPC :: uint64 where "TF_EPC \<equiv> 24"
abbreviation TF_SP :: uint64 where "TF_SP \<equiv> 48"
abbreviation TF_A0 :: uint64 where "TF_A0 \<equiv> 112"
abbreviation TF_A1 :: uint64 where "TF_A1 \<equiv> 120"
abbreviation TF_A7 :: uint64 where "TF_A7 \<equiv> 168"

definition tf_get :: "nat \<Rightarrow> uint64 \<Rightarrow> 'a kstate_scheme \<Rightarrow> uint64" where
  "tf_get p off s = ld64 (kmem_mem (km s)) (p_trapframe (procs s p) + off)"

definition tf_set :: "nat \<Rightarrow> uint64 \<Rightarrow> uint64 \<Rightarrow> 'a kstate_scheme \<Rightarrow> 'a kstate_scheme" where
  "tf_set p off v s = s\<lparr>km := set_mem (st64 (kmem_mem (km s)) (p_trapframe (procs s p) + off) v) (km s)\<rparr>"

section \<open>Sleeping, waking and killing\<close>

text \<open>
  \<open>sleep\<close> is in two halves: up to the jump to the scheduler, which the model of a call that
  waits ends with, and from the return of \<open>sched\<close>, when the process has been woken and runs again.
  The caller's lock is held from the test of its condition until the state is set.
\<close>

definition sleep :: "chan \<Rightarrow> 'a kstate_scheme \<Rightarrow> 'a kstate_scheme" where
  "sleep ch s = upd_proc (myproc s) (\<lambda>p. p\<lparr>p_chan := Some ch, p_state := SLEEPING\<rparr>) s"

definition sleep_return :: "'a kstate_scheme \<Rightarrow> 'a kstate_scheme" where
  "sleep_return s = upd_proc (myproc s) (p_chan_update (\<lambda>_. None)) s"

definition wake_one :: "chan option \<Rightarrow> nat \<Rightarrow> 'a kstate_scheme \<Rightarrow> 'a kstate_scheme" where
  "wake_one ch p s =
     (if p \<noteq> myproc s \<and> p_state (procs s p) = SLEEPING \<and> p_chan (procs s p) = ch
      then upd_proc p (p_state_update (\<lambda>_. RUNNABLE)) s else s)"

definition wakeup :: "chan option \<Rightarrow> 'a kstate_scheme \<Rightarrow> 'a kstate_scheme" where
  "wakeup ch s = fold (wake_one ch) [0..<NPROC] s"

definition kill :: "int \<Rightarrow> 'a kstate_scheme \<Rightarrow> int \<times> 'a kstate_scheme" where
  "kill pid s =
     (case find (\<lambda>p. p_pid (procs s p) = pid) [0..<NPROC] of
        None \<Rightarrow> (-1, s)
      | Some p \<Rightarrow>
          let s = upd_proc p (p_killed_update (\<lambda>_. True)) s
          in (0, if p_state (procs s p) = SLEEPING then upd_proc p (p_state_update (\<lambda>_. RUNNABLE)) s else s))"

definition setkilled :: "nat \<Rightarrow> 'a kstate_scheme \<Rightarrow> 'a kstate_scheme" where
  "setkilled p s = upd_proc p (p_killed_update (\<lambda>_. True)) s"

definition killed :: "nat \<Rightarrow> 'a kstate_scheme \<Rightarrow> bool" where
  "killed p s = p_killed (procs s p)"

lemma upd_proc_simps [simp]:
  "procs (upd_proc p g s) = (procs s)(p := g (procs s p))"
  "cur (upd_proc p g s) = cur s" "ftable (upd_proc p g s) = ftable s" "pipes (upd_proc p g s) = pipes s"
  "km (upd_proc p g s) = km s" "nextpid (upd_proc p g s) = nextpid s" "initproc (upd_proc p g s) = initproc s"
  "fsstate.truncate (upd_proc p g s) = fsstate.truncate s" "myproc (upd_proc p g s) = myproc s"
  "ticks (upd_proc p g s) = ticks s" "mypid (upd_proc p g s) = mypid s" "upagetable (upd_proc p g s) = upagetable s"
  "cwd (upd_proc p g s) = cwd s" "cons_out (upd_proc p g s) = cons_out s" "itable (upd_proc p g s) = itable s"
  by (simp_all add: upd_proc_def fsstate.truncate_def myproc_def)

text \<open>\<open>wakeup\<close> in closed form: every other sleeper on the channel, and nothing else, becomes runnable.\<close>

lemma procs_same: "(\<And>p. f p = procs s p) \<Longrightarrow> s\<lparr>procs := f\<rparr> = s"
proof -
  assume "\<And>p. f p = procs s p"
  then have "f = procs s" by (rule ext)
  then show ?thesis by simp
qed

lemma wake_one_eq:
  "wake_one ch q s =
     s\<lparr>procs := \<lambda>p. if p = q \<and> p \<noteq> myproc s \<and> p_state (procs s p) = SLEEPING \<and> p_chan (procs s p) = ch
                    then (procs s p)\<lparr>p_state := RUNNABLE\<rparr> else procs s p\<rparr>"
  by (auto simp: wake_one_def upd_proc_def fun_upd_def intro!: arg_cong [where f = "\<lambda>f. s\<lparr>procs := f\<rparr>"] procs_same [symmetric])

lemma myproc_procs [simp]: "myproc (s\<lparr>procs := f\<rparr>) = myproc s"
  by (simp add: myproc_def)

lemma wakeup_fold:
  "distinct ps \<Longrightarrow> fold (wake_one ch) ps s =
     s\<lparr>procs := \<lambda>p. if p \<in> set ps \<and> p \<noteq> myproc s \<and> p_state (procs s p) = SLEEPING \<and> p_chan (procs s p) = ch
                    then (procs s p)\<lparr>p_state := RUNNABLE\<rparr> else procs s p\<rparr>"
proof (induction ps arbitrary: s)
  case (Cons q ps)
  then show ?case
    by (simp add: wake_one_eq) (rule arg_cong [where f = "\<lambda>f. s\<lparr>procs := f\<rparr>"], auto)
qed simp

lemma wakeup_eq:
  "wakeup ch s =
     s\<lparr>procs := \<lambda>p. if p < NPROC \<and> p \<noteq> myproc s \<and> p_state (procs s p) = SLEEPING \<and> p_chan (procs s p) = ch
                    then (procs s p)\<lparr>p_state := RUNNABLE\<rparr> else procs s p\<rparr>"
  by (simp add: wakeup_def wakeup_fold)

end
