(* ===== verification/File.thy ===== *)
theory File
  imports Kstate
begin

text \<open>
  \<^verbatim>\<open>kernel/file.c\<close>: the table of open files, and reading and writing through it; with
  \<open>pipealloc\<close> and \<open>pipeclose\<close> of \<^verbatim>\<open>kernel/pipe.c\<close>, which allocate and free a page. The
  device switch is an argument: for a major number, the device's function if it is set.
  A call on a pipe or a device that has to sleep returns \<open>Waiting\<close>, in the state in which it sleeps.
\<close>

section \<open>The file table\<close>

definition filealloc :: "'a kstate_scheme \<Rightarrow> nat option \<times> 'a kstate_scheme" where
  "filealloc s =
     (case find (\<lambda>f. f_ref (ftable s f) = 0) [0..<NFILE] of
        None \<Rightarrow> (None, s)
      | Some f \<Rightarrow> (Some f, upd_file f (f_ref_update (\<lambda>_. 1)) s))"

definition filedup :: "nat \<Rightarrow> 'a kstate_scheme \<Rightarrow> (nat \<times> 'a kstate_scheme) res" where
  "filedup f s =
     (if f_ref (ftable s f) < 1 then Panic ''filedup''
      else Ret (f, upd_file f (f_ref_update (\<lambda>r. r + 1)) s))"

text \<open>The end of a pipe that is closed wakes the processes at the other end.\<close>

definition pipeclose_page :: "uint64 \<Rightarrow> bool \<Rightarrow> 'a kstate_scheme \<Rightarrow> 'a kstate_scheme res" where
  "pipeclose_page pi writable s =
     (let p = pipeclose writable (pipes s pi);
          s = wakeup (Some (if writable then ChPipe_nread pi else ChPipe_nwrite pi)) (upd_pipe pi p s)
      in if \<not> readopen p \<and> \<not> writeopen p
         then seq (kfree pi (km s)) (\<lambda>k. Ret (s\<lparr>km := k\<rparr>))
         else Ret s)"

definition fileclose :: "nat \<Rightarrow> 'a kstate_scheme \<Rightarrow> 'a kstate_scheme res" where
  "fileclose f s =
     (if f_ref (ftable s f) < 1 then Panic ''fileclose''
      else let s = upd_file f (f_ref_update (\<lambda>r. r - 1)) s in
      if f_ref (ftable s f) > 0 then Ret s
      else let ff = ftable s f;
               s = upd_file f (\<lambda>x. x\<lparr>f_ref := 0, f_type := FD_NONE\<rparr>) s in
      if f_type ff = FD_PIPE then pipeclose_page (f_pipe ff) (f_writable ff) s
      else if f_type ff = FD_INODE \<or> f_type ff = FD_DEVICE
      then seq (begin_op s) (\<lambda>s. seq (iput (f_ip ff) s) (\<lambda>s. end_op s))
      else Ret s)"

text \<open>
  A \<^verbatim>\<open>struct stat\<close> in memory; \<open>pad\<close> are the four bytes before \<open>size\<close>, which nothing
  sets: they are what the kernel stack held.
\<close>

definition le32 :: "uint32 \<Rightarrow> uint8 list" where
  "le32 v = [ucast v, ucast (drop_bit 8 v), ucast (drop_bit 16 v), ucast (drop_bit 24 v)]"

definition le64 :: "uint64 \<Rightarrow> uint8 list" where
  "le64 v = le32 (ucast v) @ le32 (ucast (drop_bit 32 v))"

definition stat_bytes :: "uint8 list \<Rightarrow> stat \<Rightarrow> uint8 list" where
  "stat_bytes pad st =
     le32 (st_dev st) @ le32 (st_ino st) @ [ucast (st_type st), ucast (drop_bit 8 (st_type st))]
     @ [ucast (st_nlink st), ucast (drop_bit 8 (st_nlink st))] @ pad
     @ le64 (st_size st)"

definition filestat :: "uint8 list \<Rightarrow> nat \<Rightarrow> uint64 \<Rightarrow> 'a kstate_scheme \<Rightarrow> (int \<times> 'a kstate_scheme) res" where
  "filestat pad f addr s =
     (if f_type (ftable s f) = FD_INODE \<or> f_type (ftable s f) = FD_DEVICE
      then let ip = f_ip (ftable s f) in
           seq (ilock ip s) (\<lambda>s.
           let st = stati ip s in
           seq (iunlock ip s) (\<lambda>s.
           seq (copyout (upagetable s) addr (stat_bytes pad st) (km s)) (\<lambda>(r, k).
           Ret (if r < 0 then -1 else 0, s\<lparr>km := k\<rparr>))))
      else Ret (-1, s))"

section \<open>Reading and writing\<close>

type_synonym 's devfun = "uint64 \<Rightarrow> int \<Rightarrow> 's \<Rightarrow> (fres \<times> 's) res"

definition devfun :: "(nat \<Rightarrow> 's devfun option) \<Rightarrow> uint16 \<Rightarrow> 's devfun option" where
  "devfun devsw major =
     (if sint major < 0 \<or> sint major \<ge> int NDEV then None else devsw (nat (sint major)))"

definition fileread :: "(nat \<Rightarrow> 'a kstate_scheme devfun option) \<Rightarrow> nat \<Rightarrow> uint64 \<Rightarrow> int \<Rightarrow> 'a kstate_scheme \<Rightarrow>
    (fres \<times> 'a kstate_scheme) res" where
  "fileread devread f addr n s =
     (let ff = ftable s f in
      if \<not> f_readable ff then Ret (Returned (-1), s)
      else case f_type ff of
        FD_PIPE \<Rightarrow>
          seq (piperead (killed (myproc s) s) addr n (pipes s (f_pipe ff)) s) (\<lambda>(r, p, s).
          let s = upd_pipe (f_pipe ff) p s in
          Ret (r, case r of
                    Waiting _ \<Rightarrow> sleep (ChPipe_nread (f_pipe ff)) s
                  | Returned i \<Rightarrow> if i = -1 then s else wakeup (Some (ChPipe_nwrite (f_pipe ff))) s))
      | FD_DEVICE \<Rightarrow>
          (case devfun devread (f_major ff) of
             None \<Rightarrow> Ret (Returned (-1), s)
           | Some rd \<Rightarrow> rd addr n s)
      | FD_INODE \<Rightarrow>
          seq (ilock (f_ip ff) s) (\<lambda>s.
          seq (readi (f_ip ff) (ToUser addr) (f_off (ftable s f)) (of_int n) s) (\<lambda>(r, dst, s).
          let s = (if r > 0 then upd_file f (f_off_update (\<lambda>x. x + of_int r)) s else s) in
          seq (iunlock (f_ip ff) s) (\<lambda>s. Ret (Returned r, s))))
      | FD_NONE \<Rightarrow> Panic ''fileread'')"

text \<open>The size of one transaction: \<open>((MAXOPBLOCKS-1-1-2) / 2) * BSIZE\<close>.\<close>

definition write_max :: nat where
  "write_max = nat ((MAXOPBLOCKS - 1 - 1 - 2) div 2) * BSIZE"

lemma write_max_eq: "write_max = 3072"
  by (simp add: write_max_def MAXOPBLOCKS_def BSIZE_def)

function filewrite_loop :: "nat \<Rightarrow> uint64 \<Rightarrow> nat \<Rightarrow> nat \<Rightarrow> 'a kstate_scheme \<Rightarrow> (nat \<times> 'a kstate_scheme) res" where
  "filewrite_loop f addr n i s =
     (if i < n
      then let n1 = min (n - i) write_max; ip = f_ip (ftable s f) in
           seq (begin_op s) (\<lambda>s. seq (ilock ip s) (\<lambda>s.
           seq (writei ip (FromUser (addr + of_nat i)) (f_off (ftable s f)) (of_nat n1) s) (\<lambda>(r, s).
           let s = (if r > 0 then upd_file f (f_off_update (\<lambda>x. x + of_int r)) s else s) in
           seq (iunlock ip s) (\<lambda>s. seq (end_op s) (\<lambda>s.
           if r \<noteq> int n1 then Ret (i, s) else filewrite_loop f addr n (i + n1) s)))))
      else Ret (i, s))"
  by auto
termination by (relation "measure (\<lambda>(f, addr, n, i, s). n - i)") (auto simp: write_max_eq)

declare filewrite_loop.simps [simp del]

definition filewrite :: "(nat \<Rightarrow> 'a kstate_scheme devfun option) \<Rightarrow> nat \<Rightarrow> uint64 \<Rightarrow> int \<Rightarrow> 'a kstate_scheme \<Rightarrow>
    (fres \<times> 'a kstate_scheme) res" where
  "filewrite devwrite f addr n s =
     (let ff = ftable s f in
      if \<not> f_writable ff then Ret (Returned (-1), s)
      else case f_type ff of
        FD_PIPE \<Rightarrow>
          seq (pipewrite (killed (myproc s) s) addr n 0 (pipes s (f_pipe ff)) s) (\<lambda>(r, p).
          let s = upd_pipe (f_pipe ff) p s in
          Ret (r, case r of
                    Waiting _ \<Rightarrow> sleep (ChPipe_nwrite (f_pipe ff)) (wakeup (Some (ChPipe_nread (f_pipe ff))) s)
                  | Returned i \<Rightarrow> if i = -1 then s else wakeup (Some (ChPipe_nread (f_pipe ff))) s))
      | FD_DEVICE \<Rightarrow>
          (case devfun devwrite (f_major ff) of
             None \<Rightarrow> Ret (Returned (-1), s)
           | Some wr \<Rightarrow> wr addr n s)
      | FD_INODE \<Rightarrow>
          seq (filewrite_loop f addr (nat n) 0 s) (\<lambda>(i, s).
          Ret (Returned (if int i = n then n else -1), s))
      | FD_NONE \<Rightarrow> Panic ''filewrite'')"

section \<open>Pipes as files\<close>

text \<open>The error path closes the files it has got; they have no type yet, or the old one of the entry.\<close>

definition pipealloc_bad :: "nat option \<Rightarrow> nat option \<Rightarrow> 'a kstate_scheme \<Rightarrow> ((nat \<times> nat) option \<times> 'a kstate_scheme) res" where
  "pipealloc_bad f0 f1 s =
     seq (case f0 of Some f \<Rightarrow> fileclose f s | None \<Rightarrow> Ret s) (\<lambda>s.
     seq (case f1 of Some f \<Rightarrow> fileclose f s | None \<Rightarrow> Ret s) (\<lambda>s. Ret (None, s)))"

definition pipealloc :: "'a kstate_scheme \<Rightarrow> ((nat \<times> nat) option \<times> 'a kstate_scheme) res" where
  "pipealloc s =
     (case filealloc s of
        (None, s) \<Rightarrow> pipealloc_bad None None s
      | (Some f0, s) \<Rightarrow>
         (case filealloc s of
            (None, s) \<Rightarrow> pipealloc_bad (Some f0) None s
          | (Some f1, s) \<Rightarrow>
             (case kalloc (km s) of (pi, k) \<Rightarrow>
              let s = s\<lparr>km := k\<rparr> in
              if pi = 0 then pipealloc_bad (Some f0) (Some f1) s
              else let s = upd_pipe pi (new_pipe (bytes_at (kmem_mem k) (pi + 24) PIPESIZE)) s;
                       s = upd_file f0 (\<lambda>x. x\<lparr>f_type := FD_PIPE, f_readable := True, f_writable := False, f_pipe := pi\<rparr>) s;
                       s = upd_file f1 (\<lambda>x. x\<lparr>f_type := FD_PIPE, f_readable := False, f_writable := True, f_pipe := pi\<rparr>) s
                   in Ret (Some (f0, f1), s))))"

end
