(* ===== verification/Proc.thy ===== *)
theory Proc
  imports File
begin

text \<open>
  \<^verbatim>\<open>kernel/proc.c\<close>: creating, ending and scheduling processes. The link-time symbols
  \<open>trampoline\<close> and \<open>forkret\<close> are arguments. A section under \<open>p->lock\<close> or \<open>wait_lock\<close> is
  one step. \<open>exit\<close> ends in the state in which it jumps to the scheduler; \<open>wait\<close> either
  returns or is \<open>Waiting\<close> in the state in which it sleeps. What a process does between two
  context switches is an argument of the scheduler.
\<close>

section \<open>The process table\<close>

definition procinit :: "'a kstate_scheme \<Rightarrow> 'a kstate_scheme" where
  "procinit s = fold (\<lambda>p. upd_proc p (\<lambda>x. x\<lparr>p_state := UNUSED, p_kstack := KSTACK (of_nat p)\<rparr>)) [0..<NPROC] s"

definition allocpid :: "'a kstate_scheme \<Rightarrow> int \<times> 'a kstate_scheme" where
  "allocpid s = (nextpid s, s\<lparr>nextpid := nextpid s + 1\<rparr>)"

definition proc_pagetable :: "uint64 \<Rightarrow> uint64 \<Rightarrow> kmem \<Rightarrow> (uint64 \<times> kmem) res" where
  "proc_pagetable trampoline trapframe k =
     (case uvmcreate k of (pagetable, k) \<Rightarrow>
      if pagetable = 0 then Ret (0, k)
      else seq (mappages pagetable TRAMPOLINE PGSIZE trampoline (PTE_R OR PTE_X) k) (\<lambda>(r, k).
           if r < 0 then seq (uvmfree pagetable 0 k) (\<lambda>k. Ret (0, k))
           else seq (mappages pagetable TRAPFRAME PGSIZE trapframe (PTE_R OR PTE_W) k) (\<lambda>(r, k).
                if r < 0
                then seq (uvmunmap pagetable TRAMPOLINE 1 False k) (\<lambda>k.
                     seq (uvmfree pagetable 0 k) (\<lambda>k. Ret (0, k)))
                else Ret (pagetable, k))))"

definition proc_freepagetable :: "uint64 \<Rightarrow> uint64 \<Rightarrow> kmem \<Rightarrow> kmem res" where
  "proc_freepagetable pagetable sz k =
     seq (uvmunmap pagetable TRAMPOLINE 1 False k) (\<lambda>k.
     seq (uvmunmap pagetable TRAPFRAME 1 False k) (\<lambda>k.
     uvmfree pagetable sz k))"

definition freeproc :: "nat \<Rightarrow> 'a kstate_scheme \<Rightarrow> 'a kstate_scheme res" where
  "freeproc p s =
     seq (if p_trapframe (procs s p) \<noteq> 0 then kfree (p_trapframe (procs s p)) (km s) else Ret (km s)) (\<lambda>k.
     seq (if p_pagetable (procs s p) \<noteq> 0 then proc_freepagetable (p_pagetable (procs s p)) (p_sz (procs s p)) k else Ret k) (\<lambda>k.
     Ret (upd_proc p (\<lambda>x. x\<lparr>p_trapframe := 0, p_pagetable := 0, p_sz := 0, p_pid := 0, p_parent := None,
            p_name := (p_name x)[0 := 0], p_chan := None, p_killed := False, p_xstate := 0, p_state := UNUSED\<rparr>)
          (s\<lparr>km := k\<rparr>))))"

definition allocproc :: "uint64 \<Rightarrow> uint64 \<Rightarrow> 'a kstate_scheme \<Rightarrow> (nat option \<times> 'a kstate_scheme) res" where
  "allocproc trampoline forkret s =
     (case find (\<lambda>p. p_state (procs s p) = UNUSED) [0..<NPROC] of
        None \<Rightarrow> Ret (None, s)
      | Some p \<Rightarrow>
          (case allocpid s of (pid, s) \<Rightarrow>
           let s = upd_proc p (\<lambda>x. x\<lparr>p_pid := pid, p_state := USED\<rparr>) s in
           case kalloc (km s) of (tf, k) \<Rightarrow>
           let s = upd_proc p (p_trapframe_update (\<lambda>_. tf)) (s\<lparr>km := k\<rparr>) in
           if tf = 0 then seq (freeproc p s) (\<lambda>s. Ret (None, s))
           else seq (proc_pagetable trampoline tf (km s)) (\<lambda>(pagetable, k).
                let s = upd_proc p (p_pagetable_update (\<lambda>_. pagetable)) (s\<lparr>km := k\<rparr>) in
                if pagetable = 0 then seq (freeproc p s) (\<lambda>s. Ret (None, s))
                else Ret (Some p, upd_proc p (\<lambda>x. x\<lparr>p_context :=
                       \<lparr>ctx_ra = forkret, ctx_sp = p_kstack x + PGSIZE, ctx_s = replicate 12 0\<rparr>\<rparr>) s))))"

section \<open>The first process\<close>

definition initcode :: "uint8 list" where
  "initcode =
    [0x17, 0x05, 0x00, 0x00, 0x13, 0x05, 0x45, 0x02,
     0x97, 0x05, 0x00, 0x00, 0x93, 0x85, 0x35, 0x02,
     0x93, 0x08, 0x70, 0x00, 0x73, 0x00, 0x00, 0x00,
     0x93, 0x08, 0x20, 0x00, 0x73, 0x00, 0x00, 0x00,
     0xef, 0xf0, 0x9f, 0xff, 0x2f, 0x69, 0x6e, 0x69,
     0x74, 0x00, 0x00, 0x24, 0x00, 0x00, 0x00, 0x00,
     0x00, 0x00, 0x00, 0x00]"

text \<open>
  \<open>safestrcpy\<close> between kernel arrays of \<open>n\<close> bytes: the bytes before the terminating zero,
  at most \<open>n - 1\<close>, then a zero; the rest of the destination stays.
\<close>

definition safestrcpy_bytes :: "uint8 list \<Rightarrow> uint8 list \<Rightarrow> nat \<Rightarrow> uint8 list" where
  "safestrcpy_bytes dst src n =
     (if n = 0 then dst
      else let c = take (n - 1) (takeWhile (\<lambda>b. b \<noteq> 0) src) @ [0] in c @ drop (length c) dst)"

text \<open>A null result of \<open>allocproc\<close> is not checked for: the code would write through it.\<close>

definition userinit :: "uint64 \<Rightarrow> uint64 \<Rightarrow> 'a kstate_scheme \<Rightarrow> 'a kstate_scheme res" where
  "userinit trampoline forkret s =
     seq (allocproc trampoline forkret s) (\<lambda>(q, s).
     case q of
       None \<Rightarrow> Panic ''kerneltrap''
     | Some p \<Rightarrow>
         let s = s\<lparr>initproc := p\<rparr> in
         seq (uvmfirst (p_pagetable (procs s p)) initcode (km s)) (\<lambda>k.
         let s = upd_proc p (p_sz_update (\<lambda>_. PGSIZE)) (s\<lparr>km := k\<rparr>);
             s = tf_set p TF_EPC 0 s;
             s = tf_set p TF_SP PGSIZE s;
             s = upd_proc p (\<lambda>x. x\<lparr>p_name := safestrcpy_bytes (p_name x) (bytes_of ''initcode'') 16\<rparr>) s
         in seq (namei [SLASH] s) (\<lambda>(ip, s).
            Ret (upd_proc p (\<lambda>x. x\<lparr>p_cwd := ip, p_state := RUNNABLE\<rparr>) s))))"

section \<open>Growing, forking\<close>

text \<open>\<open>n\<close> is sign-extended to 64 bits before it is added.\<close>

definition growproc :: "int \<Rightarrow> 'a kstate_scheme \<Rightarrow> (int \<times> 'a kstate_scheme) res" where
  "growproc n s =
     (let p = myproc s; sz = p_sz (procs s p); pt = p_pagetable (procs s p) in
      if n > 0
      then seq (uvmalloc pt sz (sz + of_int n) PTE_W (km s)) (\<lambda>(sz, k).
           if sz = 0 then Ret (-1, s\<lparr>km := k\<rparr>)
           else Ret (0, upd_proc p (p_sz_update (\<lambda>_. sz)) (s\<lparr>km := k\<rparr>)))
      else if n < 0
      then seq (uvmdealloc pt sz (sz + of_int n) (km s)) (\<lambda>(sz, k).
           Ret (0, upd_proc p (p_sz_update (\<lambda>_. sz)) (s\<lparr>km := k\<rparr>)))
      else Ret (0, upd_proc p (p_sz_update (\<lambda>_. sz)) s))"

definition dup_files :: "nat \<Rightarrow> 'a kstate_scheme \<Rightarrow> 'a kstate_scheme res" where
  "dup_files np s =
     foldM (\<lambda>i s.
       case p_ofile (me s) ! i of
         None \<Rightarrow> Ret s
       | Some f \<Rightarrow> seq (filedup f s) (\<lambda>(f, s).
           Ret (upd_proc np (\<lambda>x. x\<lparr>p_ofile := (p_ofile x)[i := Some f]\<rparr>) s))) [0..<NOFILE] s"

definition fork :: "uint64 \<Rightarrow> uint64 \<Rightarrow> 'a kstate_scheme \<Rightarrow> (int \<times> 'a kstate_scheme) res" where
  "fork trampoline forkret s =
     seq (allocproc trampoline forkret s) (\<lambda>(q, s).
     case q of
       None \<Rightarrow> Ret (-1, s)
     | Some np \<Rightarrow>
         let p = myproc s in
         seq (uvmcopy (p_pagetable (procs s p)) (p_pagetable (procs s np)) (p_sz (procs s p)) (km s)) (\<lambda>(r, k).
         let s = s\<lparr>km := k\<rparr> in
         if r < 0 then seq (freeproc np s) (\<lambda>s. Ret (-1, s))
         else let s = upd_proc np (p_sz_update (\<lambda>_. p_sz (procs s p))) s;
                  m = kmem_mem (km s);
                  s = s\<lparr>km := set_mem (poke m (p_trapframe (procs s np)) (bytes_at m (p_trapframe (procs s p)) 288)) (km s)\<rparr>;
                  s = tf_set np TF_A0 0 s
              in seq (dup_files np s) (\<lambda>s.
                 case idup (cwd s) s of (c, s) \<Rightarrow>
                 let s = upd_proc np (\<lambda>x. x\<lparr>p_cwd := Some c, p_name := safestrcpy_bytes (p_name x) (p_name (procs s p)) 16\<rparr>) s;
                     pid = p_pid (procs s np);
                     s = upd_proc np (p_parent_update (\<lambda>_. Some p)) s;
                     s = upd_proc np (p_state_update (\<lambda>_. RUNNABLE)) s
                 in Ret (pid, s))))"

section \<open>Exit and wait\<close>

definition reparent_one :: "nat \<Rightarrow> nat \<Rightarrow> 'a kstate_scheme \<Rightarrow> 'a kstate_scheme" where
  "reparent_one p pp s =
     (if p_parent (procs s pp) = Some p
      then wakeup (Some (ChProc (initproc s))) (upd_proc pp (p_parent_update (\<lambda>_. Some (initproc s))) s)
      else s)"

definition reparent :: "nat \<Rightarrow> 'a kstate_scheme \<Rightarrow> 'a kstate_scheme" where
  "reparent p s = fold (reparent_one p) [0..<NPROC] s"

definition close_files :: "nat \<Rightarrow> 'a kstate_scheme \<Rightarrow> 'a kstate_scheme res" where
  "close_files p s =
     foldM (\<lambda>fd s.
       case p_ofile (procs s p) ! fd of
         None \<Rightarrow> Ret s
       | Some f \<Rightarrow> seq (fileclose f s) (\<lambda>s.
           Ret (upd_proc p (\<lambda>x. x\<lparr>p_ofile := (p_ofile x)[fd := None]\<rparr>) s))) [0..<NOFILE] s"

text \<open>The part of \<open>exit\<close> under \<open>wait_lock\<close>, up to the jump to the scheduler.\<close>

definition exit_zombie :: "int \<Rightarrow> 'a kstate_scheme \<Rightarrow> 'a kstate_scheme" where
  "exit_zombie status s =
     (let p = myproc s;
          s = reparent p s;
          s = wakeup (map_option ChProc (p_parent (procs s p))) s
      in upd_proc p (\<lambda>x. x\<lparr>p_xstate := status, p_state := ZOMBIE\<rparr>) s)"

definition exit :: "int \<Rightarrow> 'a kstate_scheme \<Rightarrow> 'a kstate_scheme res" where
  "exit status s =
     (let p = myproc s in
      if p = initproc s then Panic ''init exiting''
      else seq (close_files p s) (\<lambda>s.
           seq (begin_op s) (\<lambda>s. seq (iput (cwd s) s) (\<lambda>s. seq (end_op s) (\<lambda>s.
           Ret (exit_zombie status (upd_proc p (p_cwd_update (\<lambda>_. None)) s)))))))"

text \<open>One scan of the table by \<open>wait\<close>: the first child that is a zombie, and whether there is any child.\<close>

definition wait_scan :: "nat \<Rightarrow> 'a kstate_scheme \<Rightarrow> nat option \<times> bool" where
  "wait_scan p s =
     (let kids = filter (\<lambda>pp. p_parent (procs s pp) = Some p) [0..<NPROC]
      in (find (\<lambda>pp. p_state (procs s pp) = ZOMBIE) kids, kids \<noteq> []))"

definition wait :: "uint64 \<Rightarrow> 'a kstate_scheme \<Rightarrow> (fres \<times> 'a kstate_scheme) res" where
  "wait addr s =
     (let p = myproc s in
      case wait_scan p s of
        (Some pp, _) \<Rightarrow>
          let pid = p_pid (procs s pp) in
          seq (if addr \<noteq> 0 then copyout (p_pagetable (procs s p)) addr (le32 (of_int (p_xstate (procs s pp)))) (km s)
               else Ret (0, km s)) (\<lambda>(r, k).
          let s = s\<lparr>km := k\<rparr> in
          if r < 0 then Ret (Returned (-1), s)
          else seq (freeproc pp s) (\<lambda>s. Ret (Returned pid, s)))
      | (None, havekids) \<Rightarrow>
          if \<not> havekids \<or> killed p s then Ret (Returned (-1), s)
          else Ret (Waiting 0, sleep (ChProc p) s))"

section \<open>Scheduling\<close>

text \<open>
  Entering a process loads its fields into the running state. \<open>run\<close> is what the process
  does until it comes back; when it panics the machine stops. \<open>scheduler_visit\<close> is the body of the inner
  loop, and collects the processes that have run, so that \<open>found\<close> is whether there is one.
\<close>

definition enter :: "nat \<Rightarrow> 'a kstate_scheme \<Rightarrow> 'a kstate_scheme" where
  "enter p s =
     (let s = upd_proc p (p_state_update (\<lambda>_. RUNNING)) s in
      s\<lparr>cur := Some p, mypid := p_pid (procs s p), upagetable := p_pagetable (procs s p),
        cwd := (case p_cwd (procs s p) of Some c \<Rightarrow> c | None \<Rightarrow> NINODE)\<rparr>)"

definition scheduler_visit :: "(nat \<Rightarrow> 'a kstate_scheme \<Rightarrow> 'a kstate_scheme res) \<Rightarrow> nat \<Rightarrow>
    nat list \<times> 'a kstate_scheme \<Rightarrow> (nat list \<times> 'a kstate_scheme) res" where
  "scheduler_visit run p = (\<lambda>(ran, s).
     if p_state (procs s p) = RUNNABLE
     then seq (run p (enter p s)) (\<lambda>s. Ret (ran @ [p], s\<lparr>cur := None\<rparr>))
     else Ret (ran, s))"

definition scheduler_pass :: "(nat \<Rightarrow> 'a kstate_scheme \<Rightarrow> 'a kstate_scheme res) \<Rightarrow> 'a kstate_scheme \<Rightarrow>
    (nat list \<times> 'a kstate_scheme) res" where
  "scheduler_pass run s = foldM (scheduler_visit run) [0..<NPROC] ([], s)"

text \<open>
  \<open>sched\<close>: the process checks that it may leave the processor, and restores its own
  \<open>intena\<close> when it comes back; \<open>others\<close> is what has become of the processor in between.
\<close>

definition sched :: "bool \<Rightarrow> (cpu \<Rightarrow> cpu) \<Rightarrow> procstate \<Rightarrow> cpu \<Rightarrow> cpu res" where
  "sched holding_lock others st c =
     (if \<not> holding_lock then Panic ''sched p->lock''
      else if noff c \<noteq> 1 then Panic ''sched locks''
      else if st = RUNNING then Panic ''sched running''
      else if sie c then Panic ''sched interruptible''
      else Ret ((others c)\<lparr>intena := intena c\<rparr>))"

definition yield :: "'a kstate_scheme \<Rightarrow> 'a kstate_scheme" where
  "yield s = upd_proc (myproc s) (p_state_update (\<lambda>_. RUNNABLE)) s"

text \<open>The first process to run initialises the file system; \<open>first\<close> is the static variable.\<close>

definition forkret :: "bool \<Rightarrow> 'a kstate_scheme \<Rightarrow> (bool \<times> 'a kstate_scheme) res" where
  "forkret first s =
     (if first then seq (fsinit ROOTDEV s) (\<lambda>s. Ret (False, s)) else Ret (first, s))"

section \<open>Listing\<close>

fun state_name :: "procstate \<Rightarrow> string" where
  "state_name UNUSED = ''unused''"
| "state_name USED = ''used''"
| "state_name SLEEPING = ''sleep ''"
| "state_name RUNNABLE = ''runble''"
| "state_name RUNNING = ''run   ''"
| "state_name ZOMBIE = ''zombie''"

text \<open>The lines \<open>procdump\<close> prints, as the three arguments of its \<open>printf\<close>.\<close>

definition procdump :: "'a kstate_scheme \<Rightarrow> (int \<times> string \<times> uint8 list) list" where
  "procdump s =
     map (\<lambda>p. (p_pid (procs s p), state_name (p_state (procs s p)), takeWhile (\<lambda>b. b \<noteq> 0) (p_name (procs s p))))
       (filter (\<lambda>p. p_state (procs s p) \<noteq> UNUSED) [0..<NPROC])"

end
