(* ===== verification/Sysargs.thy ===== *)
theory Sysargs
  imports Proc
begin

text \<open>
  The argument-fetching functions of \<^verbatim>\<open>kernel/syscall.c\<close>: the arguments are in the trapframe,
  strings and pointers in the user memory of the process that runs.
\<close>

definition MAXPATH :: nat where "MAXPATH = 128"
definition MAXARG :: nat where "MAXARG = 32"

definition argraw :: "nat \<Rightarrow> 'a kstate_scheme \<Rightarrow> uint64 res" where
  "argraw n s = (if n \<le> 5 then Ret (tf_get (myproc s) (TF_A0 + 8 * of_nat n) s) else Panic ''argraw'')"

definition argint :: "nat \<Rightarrow> 'a kstate_scheme \<Rightarrow> int res" where
  "argint n s = seq (argraw n s) (\<lambda>v. Ret (sint (ucast v :: uint32)))"

definition argaddr :: "nat \<Rightarrow> 'a kstate_scheme \<Rightarrow> uint64 res" where
  "argaddr n s = argraw n s"

text \<open>The word at a user address, with the result code.\<close>

definition fetchaddr :: "uint64 \<Rightarrow> 'a kstate_scheme \<Rightarrow> (int \<times> uint64) res" where
  "fetchaddr addr s =
     (if addr \<ge> p_sz (me s) \<or> addr + 8 > p_sz (me s) then Ret (-1, 0)
      else seq (copyin (p_pagetable (me s)) addr 8 (km s)) (\<lambda>(r, bs).
           if r \<noteq> 0 then Ret (-1, 0) else Ret (0, get64 bs 0)))"

text \<open>The result is the length of the string and the string without its terminating zero.\<close>

definition fetchstr :: "uint64 \<Rightarrow> nat \<Rightarrow> 'a kstate_scheme \<Rightarrow> (int \<times> uint8 list) res" where
  "fetchstr addr max_n s =
     seq (copyinstr (p_pagetable (me s)) addr max_n (km s)) (\<lambda>(r, bs).
     if r < 0 then Ret (-1, bs)
     else let str = takeWhile (\<lambda>b. b \<noteq> 0) bs in Ret (int (length str), str))"

definition argstr :: "nat \<Rightarrow> nat \<Rightarrow> 'a kstate_scheme \<Rightarrow> (int \<times> uint8 list) res" where
  "argstr n max_n s = seq (argaddr n s) (\<lambda>addr. fetchstr addr max_n s)"

end
