(* ===== verification/Exec.thy ===== *)
theory Exec
  imports Sysargs
begin

text \<open>
  \<^verbatim>\<open>kernel/exec.c\<close>: replacing the image of a process by a program from a file. The headers
  are their bytes (\<^verbatim>\<open>kernel/elf.h\<close>); an argument is its bytes before the terminating zero. Reading
  a segment to a kernel address collects the bytes and stores them. The loop counter of
  \<open>loadseg\<close> is a natural number: a segment that made it wrap would be larger than the memory.
\<close>

definition ELF_MAGIC :: uint32 where "ELF_MAGIC = 0x464C457F"
definition ELF_PROG_LOAD :: uint32 where "ELF_PROG_LOAD = 1"
definition USERSTACK :: uint64 where "USERSTACK = 1"

record elfhdr =
  e_magic :: uint32
  e_entry :: uint64
  e_phoff :: uint64
  e_phnum :: uint16

definition get_elfhdr :: "uint8 list \<Rightarrow> elfhdr" where
  "get_elfhdr b = \<lparr>e_magic = get32 b 0, e_entry = get64 b 24, e_phoff = get64 b 32, e_phnum = get16 b 56\<rparr>"

record proghdr =
  ph_type :: uint32
  ph_flags :: uint32
  ph_off :: uint64
  ph_vaddr :: uint64
  ph_filesz :: uint64
  ph_memsz :: uint64

definition get_proghdr :: "uint8 list \<Rightarrow> proghdr" where
  "get_proghdr b = \<lparr>ph_type = get32 b 0, ph_flags = get32 b 4, ph_off = get64 b 8, ph_vaddr = get64 b 16,
     ph_filesz = get64 b 32, ph_memsz = get64 b 40\<rparr>"

definition flags2perm :: "uint32 \<Rightarrow> uint64" where
  "flags2perm flags =
     (let perm = (if flags AND 0x1 \<noteq> 0 then PTE_X else 0)
      in if flags AND 0x2 \<noteq> 0 then perm OR PTE_W else perm)"

definition kbytes :: "udst \<Rightarrow> uint8 list" where
  "kbytes dst = (case dst of ToKernel b \<Rightarrow> b | ToUser _ \<Rightarrow> [])"

function loadseg_loop :: "uint64 \<Rightarrow> uint64 \<Rightarrow> nat \<Rightarrow> uint32 \<Rightarrow> nat \<Rightarrow> nat \<Rightarrow> 'a kstate_scheme \<Rightarrow> (int \<times> 'a kstate_scheme) res" where
  "loadseg_loop pagetable va ip offset sz i s =
     (if i < sz
      then seq (walkaddr pagetable (va + of_nat i) (km s)) (\<lambda>pa.
           if pa = 0 then Panic ''loadseg: address should exist''
           else let n = (if sz - i < unat PGSIZE then sz - i else unat PGSIZE) in
                seq (readi ip (ToKernel []) (offset + of_nat i) (of_nat n) s) (\<lambda>(r, dst, s).
                let s = s\<lparr>km := set_mem (poke (kmem_mem (km s)) pa (kbytes dst)) (km s)\<rparr> in
                if r \<noteq> int n then Ret (-1, s)
                else loadseg_loop pagetable va ip offset sz (i + unat PGSIZE) s))
      else Ret (0, s))"
  by auto
termination by (relation "measure (\<lambda>(pagetable, va, ip, offset, sz, i, s). sz - i)") (auto simp: PGSIZE_def)

declare loadseg_loop.simps [simp del]

definition loadseg :: "uint64 \<Rightarrow> uint64 \<Rightarrow> nat \<Rightarrow> uint32 \<Rightarrow> uint32 \<Rightarrow> 'a kstate_scheme \<Rightarrow> (int \<times> 'a kstate_scheme) res" where
  "loadseg pagetable va ip offset sz s = loadseg_loop pagetable va ip offset (unat sz) 0 s"

text \<open>
  The loop over the program headers, with the number of headers left. The result is whether
  all went well, and the size of the image so far, which the error path needs.
\<close>

fun exec_load :: "nat \<Rightarrow> nat \<Rightarrow> uint64 \<Rightarrow> uint32 \<Rightarrow> uint64 \<Rightarrow> 'a kstate_scheme \<Rightarrow> (bool \<times> uint64 \<times> 'a kstate_scheme) res" where
  "exec_load 0 ip pagetable off sz s = Ret (True, sz, s)"
| "exec_load (Suc n) ip pagetable off sz s =
     seq (readi ip (ToKernel []) off 56 s) (\<lambda>(r, dst, s).
     if r \<noteq> 56 then Ret (False, sz, s)
     else let ph = get_proghdr (kbytes dst) in
     if ph_type ph \<noteq> ELF_PROG_LOAD then exec_load n ip pagetable (off + 56) sz s
     else if ph_memsz ph < ph_filesz ph then Ret (False, sz, s)
     else if ph_vaddr ph + ph_memsz ph < ph_vaddr ph then Ret (False, sz, s)
     else if ph_vaddr ph mod PGSIZE \<noteq> 0 then Ret (False, sz, s)
     else seq (uvmalloc pagetable sz (ph_vaddr ph + ph_memsz ph) (flags2perm (ph_flags ph)) (km s)) (\<lambda>(sz1, k).
          let s = s\<lparr>km := k\<rparr> in
          if sz1 = 0 then Ret (False, sz, s)
          else seq (loadseg pagetable (ph_vaddr ph) ip (ucast (ph_off ph)) (ucast (ph_filesz ph)) s) (\<lambda>(r, s).
               if r < 0 then Ret (False, sz1, s)
               else exec_load n ip pagetable (off + 56) sz1 s)))"

text \<open>Pushing the argument strings: the stack pointer and the addresses of the strings, or failure.\<close>

definition push_down :: "uint64 \<Rightarrow> uint64 \<Rightarrow> uint64" where
  "push_down sp n = (let sp = sp - n in sp - sp mod 16)"

fun push_args :: "uint64 \<Rightarrow> uint64 \<Rightarrow> uint8 list list \<Rightarrow> uint64 \<Rightarrow> uint64 list \<Rightarrow> kmem \<Rightarrow>
    ((uint64 \<times> uint64 list) option \<times> kmem) res" where
  "push_args pagetable stackbase [] sp ustack k = Ret (Some (sp, ustack), k)"
| "push_args pagetable stackbase (arg # argv) sp ustack k =
     (if length ustack \<ge> MAXARG then Ret (None, k)
      else let sp = push_down sp (of_nat (length arg + 1)) in
      if sp < stackbase then Ret (None, k)
      else seq (copyout pagetable sp (arg @ [0]) k) (\<lambda>(r, k).
           if r < 0 then Ret (None, k)
           else push_args pagetable stackbase argv sp (ustack @ [sp]) k))"

definition push_argv :: "uint64 \<Rightarrow> uint64 \<Rightarrow> uint8 list list \<Rightarrow> uint64 \<Rightarrow> kmem \<Rightarrow> (uint64 option \<times> kmem) res" where
  "push_argv pagetable stackbase argv sp k =
     seq (push_args pagetable stackbase argv sp [] k) (\<lambda>(r, k).
     case r of
       None \<Rightarrow> Ret (None, k)
     | Some (sp, ustack) \<Rightarrow>
         let sp = push_down sp (of_nat (length ustack + 1) * 8) in
         if sp < stackbase then Ret (None, k)
         else seq (copyout pagetable sp (concat (map le64 (ustack @ [0]))) k) (\<lambda>(r, k).
              Ret (if r < 0 then None else Some sp, k)))"

fun last_elem :: "uint8 list \<Rightarrow> uint8 list \<Rightarrow> uint8 list" where
  "last_elem l [] = l"
| "last_elem l (c # s) = last_elem (if c = SLASH then s else l) s"

definition exec_bad :: "uint64 \<Rightarrow> uint64 \<Rightarrow> nat option \<Rightarrow> 'a kstate_scheme \<Rightarrow> (int \<times> 'a kstate_scheme) res" where
  "exec_bad pagetable sz ip s =
     seq (if pagetable \<noteq> 0 then proc_freepagetable pagetable sz (km s) else Ret (km s)) (\<lambda>k.
     let s = s\<lparr>km := k\<rparr> in
     case ip of
       None \<Rightarrow> Ret (-1, s)
     | Some ip \<Rightarrow> seq (iunlockput ip s) (\<lambda>s. seq (end_op s) (\<lambda>s. Ret (-1, s))))"

text \<open>From \<^verbatim>\<open>p->trapframe->a1 = sp\<close> on: the process gets the new image and the old one is freed.\<close>

definition exec_commit :: "uint8 list \<Rightarrow> uint64 \<Rightarrow> uint64 \<Rightarrow> uint64 \<Rightarrow> uint64 \<Rightarrow> 'a kstate_scheme \<Rightarrow> 'a kstate_scheme res" where
  "exec_commit path pagetable sz entry sp s =
     (let p = myproc s; oldpagetable = p_pagetable (procs s p); oldsz = p_sz (procs s p);
          s = tf_set p TF_A1 sp s;
          s = upd_proc p (\<lambda>x. x\<lparr>p_name := safestrcpy_bytes (p_name x) (last_elem path path) 16,
                p_pagetable := pagetable, p_sz := sz\<rparr>) s;
          s = s\<lparr>upagetable := pagetable\<rparr>;
          s = tf_set p TF_EPC entry s;
          s = tf_set p TF_SP sp s
      in seq (proc_freepagetable oldpagetable oldsz (km s)) (\<lambda>k. Ret (s\<lparr>km := k\<rparr>)))"

text \<open>From the second \<^verbatim>\<open>p = myproc()\<close> on: the stack, its guard page and the arguments.\<close>

definition exec_stack :: "uint8 list \<Rightarrow> uint8 list list \<Rightarrow> uint64 \<Rightarrow> uint64 \<Rightarrow> uint64 \<Rightarrow> 'a kstate_scheme \<Rightarrow> (int \<times> 'a kstate_scheme) res" where
  "exec_stack path argv pagetable sz entry s =
     (let sz = PGROUNDUP sz in
      seq (uvmalloc pagetable sz (sz + (USERSTACK + 1) * PGSIZE) PTE_W (km s)) (\<lambda>(sz1, k).
      if sz1 = 0 then exec_bad pagetable sz None (s\<lparr>km := k\<rparr>)
      else seq (uvmclear pagetable (sz1 - (USERSTACK + 1) * PGSIZE) k) (\<lambda>k.
           seq (push_argv pagetable (sz1 - USERSTACK * PGSIZE) argv sz1 k) (\<lambda>(r, k).
           let s = s\<lparr>km := k\<rparr> in
           case r of
             None \<Rightarrow> exec_bad pagetable sz1 None s
           | Some sp \<Rightarrow> seq (exec_commit path pagetable sz1 entry sp s) (\<lambda>s. Ret (int (length argv), s))))))"

definition exec :: "uint64 \<Rightarrow> uint8 list \<Rightarrow> uint8 list list \<Rightarrow> 'a kstate_scheme \<Rightarrow> (int \<times> 'a kstate_scheme) res" where
  "exec trampoline path argv s =
     seq (begin_op s) (\<lambda>s.
     seq (namei path s) (\<lambda>(found, s).
     case found of
       None \<Rightarrow> seq (end_op s) (\<lambda>s. Ret (-1, s))
     | Some ip \<Rightarrow>
         seq (ilock ip s) (\<lambda>s.
         seq (readi ip (ToKernel []) 0 64 s) (\<lambda>(r, dst, s).
         let elf = get_elfhdr (kbytes dst) in
         if r \<noteq> 64 then exec_bad 0 0 (Some ip) s
         else if e_magic elf \<noteq> ELF_MAGIC then exec_bad 0 0 (Some ip) s
         else seq (proc_pagetable trampoline (p_trapframe (me s)) (km s)) (\<lambda>(pagetable, k).
              let s = s\<lparr>km := k\<rparr> in
              if pagetable = 0 then exec_bad 0 0 (Some ip) s
              else seq (exec_load (unat (e_phnum elf)) ip pagetable (ucast (e_phoff elf)) 0 s) (\<lambda>(ok, sz, s).
                   if \<not> ok then exec_bad pagetable sz (Some ip) s
                   else seq (iunlockput ip s) (\<lambda>s. seq (end_op s) (\<lambda>s.
                        exec_stack path argv pagetable sz (e_entry elf) s))))))))"

end
