(* ===== verification/Sysfile.thy ===== *)
theory Sysfile
  imports Exec
begin

text \<open>
  \<^verbatim>\<open>kernel/sysfile.c\<close>: the system calls on files. The arguments come from the trapframe of the
  process that runs. The \<open>goto\<close>s are shared functions (\<open>..._bad\<close>, \<open>..._fail\<close>). The flags of
  \<open>open\<close> are a 32-bit word.
\<close>

abbreviation (input) O_WRONLY :: uint32 where "O_WRONLY \<equiv> 0x001"
abbreviation (input) O_RDWR :: uint32 where "O_RDWR \<equiv> 0x002"
abbreviation (input) O_CREATE :: uint32 where "O_CREATE \<equiv> 0x200"
abbreviation (input) O_TRUNC :: uint32 where "O_TRUNC \<equiv> 0x400"

section \<open>Descriptors\<close>

definition argfd :: "nat \<Rightarrow> 'a kstate_scheme \<Rightarrow> (nat \<times> nat) option res" where
  "argfd n s =
     seq (argint n s) (\<lambda>fd.
     if fd < 0 \<or> fd \<ge> int NOFILE then Ret None
     else case p_ofile (me s) ! nat fd of
            None \<Rightarrow> Ret None
          | Some f \<Rightarrow> Ret (Some (nat fd, f)))"

definition fdalloc :: "nat \<Rightarrow> 'a kstate_scheme \<Rightarrow> int \<times> 'a kstate_scheme" where
  "fdalloc f s =
     (case find (\<lambda>fd. p_ofile (me s) ! fd = None) [0..<NOFILE] of
        None \<Rightarrow> (-1, s)
      | Some fd \<Rightarrow> (int fd, upd_proc (myproc s) (\<lambda>x. x\<lparr>p_ofile := (p_ofile x)[fd := Some f]\<rparr>) s))"

definition clear_fd :: "nat \<Rightarrow> 'a kstate_scheme \<Rightarrow> 'a kstate_scheme" where
  "clear_fd fd s = upd_proc (myproc s) (\<lambda>x. x\<lparr>p_ofile := (p_ofile x)[fd := None]\<rparr>) s"

definition sys_dup :: "'a kstate_scheme \<Rightarrow> (int \<times> 'a kstate_scheme) res" where
  "sys_dup s =
     seq (argfd 0 s) (\<lambda>r.
     case r of
       None \<Rightarrow> Ret (-1, s)
     | Some (_, f) \<Rightarrow>
         (case fdalloc f s of (fd, s) \<Rightarrow>
          if fd < 0 then Ret (-1, s)
          else seq (filedup f s) (\<lambda>(f, s). Ret (fd, s))))"

definition sys_read :: "(nat \<Rightarrow> 'a kstate_scheme devfun option) \<Rightarrow> 'a kstate_scheme \<Rightarrow> (fres \<times> 'a kstate_scheme) res" where
  "sys_read devread s =
     seq (argaddr 1 s) (\<lambda>p. seq (argint 2 s) (\<lambda>n. seq (argfd 0 s) (\<lambda>r.
     case r of
       None \<Rightarrow> Ret (Returned (-1), s)
     | Some (_, f) \<Rightarrow> fileread devread f p n s)))"

definition sys_write :: "(nat \<Rightarrow> 'a kstate_scheme devfun option) \<Rightarrow> 'a kstate_scheme \<Rightarrow> (fres \<times> 'a kstate_scheme) res" where
  "sys_write devwrite s =
     seq (argaddr 1 s) (\<lambda>p. seq (argint 2 s) (\<lambda>n. seq (argfd 0 s) (\<lambda>r.
     case r of
       None \<Rightarrow> Ret (Returned (-1), s)
     | Some (_, f) \<Rightarrow> filewrite devwrite f p n s)))"

definition sys_close :: "'a kstate_scheme \<Rightarrow> (int \<times> 'a kstate_scheme) res" where
  "sys_close s =
     seq (argfd 0 s) (\<lambda>r.
     case r of
       None \<Rightarrow> Ret (-1, s)
     | Some (fd, f) \<Rightarrow> seq (fileclose f (clear_fd fd s)) (\<lambda>s. Ret (0, s)))"

definition sys_fstat :: "uint8 list \<Rightarrow> 'a kstate_scheme \<Rightarrow> (int \<times> 'a kstate_scheme) res" where
  "sys_fstat pad s =
     seq (argaddr 1 s) (\<lambda>st. seq (argfd 0 s) (\<lambda>r.
     case r of
       None \<Rightarrow> Ret (-1, s)
     | Some (_, f) \<Rightarrow> filestat pad f st s))"

section \<open>Links\<close>

definition add_nlink :: "nat \<Rightarrow> int \<Rightarrow> 'a fsstate_scheme \<Rightarrow> 'a fsstate_scheme" where
  "add_nlink ip d s = upd_ip ip (i_nlink_update (\<lambda>n. n + of_int d)) s"

definition end_op_ret :: "int \<Rightarrow> 'a kstate_scheme \<Rightarrow> (int \<times> 'a kstate_scheme) res" where
  "end_op_ret r s = seq (end_op s) (\<lambda>s. Ret (r, s))"

definition sys_link_bad :: "nat \<Rightarrow> 'a kstate_scheme \<Rightarrow> (int \<times> 'a kstate_scheme) res" where
  "sys_link_bad ip s =
     seq (ilock ip s) (\<lambda>s. seq (iupdate ip (add_nlink ip (-1) s)) (\<lambda>s.
     seq (iunlockput ip s) (\<lambda>s. end_op_ret (-1) s)))"

definition sys_link :: "'a kstate_scheme \<Rightarrow> (int \<times> 'a kstate_scheme) res" where
  "sys_link s =
     seq (argstr 0 MAXPATH s) (\<lambda>(r, old).
     if r < 0 then Ret (-1, s)
     else seq (argstr 1 MAXPATH s) (\<lambda>(r, new).
     if r < 0 then Ret (-1, s)
     else seq (begin_op s) (\<lambda>s. seq (namei old s) (\<lambda>(found, s).
     case found of
       None \<Rightarrow> end_op_ret (-1) s
     | Some ip \<Rightarrow>
         seq (ilock ip s) (\<lambda>s.
         if i_type (itable s ip) = T_DIR then seq (iunlockput ip s) (\<lambda>s. end_op_ret (-1) s)
         else seq (iupdate ip (add_nlink ip 1 s)) (\<lambda>s. seq (iunlock ip s) (\<lambda>s.
              seq (nameiparent new s) (\<lambda>(found, name, s).
              case found of
                None \<Rightarrow> sys_link_bad ip s
              | Some dp \<Rightarrow>
                  seq (ilock dp s) (\<lambda>s.
                  seq (if i_dev (itable s dp) \<noteq> i_dev (itable s ip) then Ret (-1, s)
                       else dirlink dp name (i_inum (itable s ip)) s) (\<lambda>(r, s).
                  seq (iunlockput dp s) (\<lambda>s.
                  if r < 0 then sys_link_bad ip s
                  else seq (iput ip s) (\<lambda>s. end_op_ret 0 s))))))))))))"

function isdirempty_from :: "nat \<Rightarrow> nat \<Rightarrow> nat \<Rightarrow> 'a kstate_scheme \<Rightarrow> (bool \<times> 'a kstate_scheme) res" where
  "isdirempty_from sz off dp s =
     (if off < sz
      then seq (read_dirent dp off ''isdirempty: readi'' s) (\<lambda>(de, s).
           if de_inum de \<noteq> 0 then Ret (False, s) else isdirempty_from sz (off + 16) dp s)
      else Ret (True, s))"
  by auto
termination by (relation "measure (\<lambda>(sz, off, _). sz - off)") auto

declare isdirempty_from.simps [simp del]

definition isdirempty :: "nat \<Rightarrow> 'a kstate_scheme \<Rightarrow> (bool \<times> 'a kstate_scheme) res" where
  "isdirempty dp s = isdirempty_from (unat (i_size (itable s dp))) (2 * 16) dp s"

definition sys_unlink_bad :: "nat \<Rightarrow> 'a kstate_scheme \<Rightarrow> (int \<times> 'a kstate_scheme) res" where
  "sys_unlink_bad dp s = seq (iunlockput dp s) (\<lambda>s. end_op_ret (-1) s)"

text \<open>The part of \<open>sys_unlink\<close> after the directory entry has been found: clear it and drop the link.\<close>

definition unlink_entry :: "nat \<Rightarrow> nat \<Rightarrow> nat \<Rightarrow> 'a kstate_scheme \<Rightarrow> (int \<times> 'a kstate_scheme) res" where
  "unlink_entry dp ip off s =
     seq (writei dp (FromKernel (replicate 16 0)) (of_nat off) 16 s) (\<lambda>(r, s).
     if r \<noteq> 16 then Panic ''unlink: writei''
     else seq (if i_type (itable s ip) = T_DIR then iupdate dp (add_nlink dp (-1) s) else Ret s) (\<lambda>s.
          seq (iunlockput dp s) (\<lambda>s.
          seq (iupdate ip (add_nlink ip (-1) s)) (\<lambda>s.
          seq (iunlockput ip s) (\<lambda>s. end_op_ret 0 s)))))"

definition sys_unlink :: "'a kstate_scheme \<Rightarrow> (int \<times> 'a kstate_scheme) res" where
  "sys_unlink s =
     seq (argstr 0 MAXPATH s) (\<lambda>(r, path).
     if r < 0 then Ret (-1, s)
     else seq (begin_op s) (\<lambda>s. seq (nameiparent path s) (\<lambda>(found, name, s).
     case found of
       None \<Rightarrow> end_op_ret (-1) s
     | Some dp \<Rightarrow>
         seq (ilock dp s) (\<lambda>s.
         if namecmp name (bytes_of ''.'') = 0 \<or> namecmp name (bytes_of ''..'') = 0 then sys_unlink_bad dp s
         else seq (dirlookup dp name s) (\<lambda>(found, s).
              case found of
                None \<Rightarrow> sys_unlink_bad dp s
              | Some (ip, off) \<Rightarrow>
                  seq (ilock ip s) (\<lambda>s.
                  if sint (i_nlink (itable s ip)) < 1 then Panic ''unlink: nlink < 1''
                  else seq (if i_type (itable s ip) = T_DIR then isdirempty ip s else Ret (True, s)) (\<lambda>(empty, s).
                       if \<not> empty then seq (iunlockput ip s) (\<lambda>s. sys_unlink_bad dp s)
                       else unlink_entry dp ip off s)))))))"

section \<open>Creating and opening\<close>

definition create_fail :: "nat \<Rightarrow> nat \<Rightarrow> 'a kstate_scheme \<Rightarrow> (nat option \<times> 'a kstate_scheme) res" where
  "create_fail ip dp s =
     seq (iupdate ip (upd_ip ip (i_nlink_update (\<lambda>_. 0)) s)) (\<lambda>s.
     seq (iunlockput ip s) (\<lambda>s. seq (iunlockput dp s) (\<lambda>s. Ret (None, s))))"

text \<open>From \<open>ialloc\<close> on: the new inode, its entries, and its entry in the directory.\<close>

definition create_new :: "nat \<Rightarrow> uint8 list \<Rightarrow> uint16 \<Rightarrow> uint16 \<Rightarrow> uint16 \<Rightarrow> 'a kstate_scheme \<Rightarrow> (nat option \<times> 'a kstate_scheme) res" where
  "create_new dp name type major minor s =
     seq (ialloc (i_dev (itable s dp)) type s) (\<lambda>(new, s).
     case new of
       None \<Rightarrow> seq (iunlockput dp s) (\<lambda>s. Ret (None, s))
     | Some ip \<Rightarrow>
         seq (ilock ip s) (\<lambda>s.
         seq (iupdate ip (upd_ip ip (\<lambda>x. x\<lparr>i_major := major, i_minor := minor, i_nlink := 1\<rparr>) s)) (\<lambda>s.
         seq (if type = T_DIR
              then seq (dirlink ip (bytes_of ''.'') (i_inum (itable s ip)) s) (\<lambda>(r, s).
                   if r < 0 then Ret (r, s) else dirlink ip (bytes_of ''..'') (i_inum (itable s dp)) s)
              else Ret (0, s)) (\<lambda>(r, s).
         if r < 0 then create_fail ip dp s
         else seq (dirlink dp name (i_inum (itable s ip)) s) (\<lambda>(r, s).
              if r < 0 then create_fail ip dp s
              else seq (if type = T_DIR then iupdate dp (add_nlink dp 1 s) else Ret s) (\<lambda>s.
                   seq (iunlockput dp s) (\<lambda>s. Ret (Some ip, s))))))))"

definition create :: "uint8 list \<Rightarrow> uint16 \<Rightarrow> uint16 \<Rightarrow> uint16 \<Rightarrow> 'a kstate_scheme \<Rightarrow> (nat option \<times> 'a kstate_scheme) res" where
  "create path type major minor s =
     seq (nameiparent path s) (\<lambda>(found, name, s).
     case found of
       None \<Rightarrow> Ret (None, s)
     | Some dp \<Rightarrow>
         seq (ilock dp s) (\<lambda>s. seq (dirlookup dp name s) (\<lambda>(found, s).
         case found of
           Some (ip, _) \<Rightarrow>
             seq (iunlockput dp s) (\<lambda>s. seq (ilock ip s) (\<lambda>s.
             if type = T_FILE \<and> (i_type (itable s ip) = T_FILE \<or> i_type (itable s ip) = T_DEVICE) then Ret (Some ip, s)
             else seq (iunlockput ip s) (\<lambda>s. Ret (None, s))))
         | None \<Rightarrow> create_new dp name type major minor s)))"

definition open_bad :: "nat \<Rightarrow> 'a kstate_scheme \<Rightarrow> (int \<times> 'a kstate_scheme) res" where
  "open_bad ip s = seq (iunlockput ip s) (\<lambda>s. end_op_ret (-1) s)"

text \<open>The inode of \<open>open\<close>, locked; \<open>None\<close> when the call fails, after its \<open>end_op\<close>.\<close>

definition open_inode :: "uint8 list \<Rightarrow> uint32 \<Rightarrow> 'a kstate_scheme \<Rightarrow> (nat option \<times> 'a kstate_scheme) res" where
  "open_inode path omode s =
     (if omode AND O_CREATE \<noteq> 0
      then seq (create path T_FILE 0 0 s) (\<lambda>(found, s).
           case found of
             None \<Rightarrow> seq (end_op s) (\<lambda>s. Ret (None, s))
           | Some ip \<Rightarrow> Ret (Some ip, s))
      else seq (namei path s) (\<lambda>(found, s).
           case found of
             None \<Rightarrow> seq (end_op s) (\<lambda>s. Ret (None, s))
           | Some ip \<Rightarrow>
               seq (ilock ip s) (\<lambda>s.
               if i_type (itable s ip) = T_DIR \<and> omode \<noteq> 0
               then seq (iunlockput ip s) (\<lambda>s. seq (end_op s) (\<lambda>s. Ret (None, s)))
               else Ret (Some ip, s))))"

text \<open>From \<open>filealloc\<close> on.\<close>

definition open_file :: "nat \<Rightarrow> uint32 \<Rightarrow> 'a kstate_scheme \<Rightarrow> (int \<times> 'a kstate_scheme) res" where
  "open_file ip omode s =
     (case filealloc s of
        (None, s) \<Rightarrow> open_bad ip s
      | (Some f, s) \<Rightarrow>
          (case fdalloc f s of (fd, s) \<Rightarrow>
           if fd < 0 then seq (fileclose f s) (\<lambda>s. open_bad ip s)
           else let s = (if i_type (itable s ip) = T_DEVICE
                         then upd_file f (\<lambda>x. x\<lparr>f_type := FD_DEVICE, f_major := i_major (itable s ip)\<rparr>) s
                         else upd_file f (\<lambda>x. x\<lparr>f_type := FD_INODE, f_off := 0\<rparr>) s);
                    s = upd_file f (\<lambda>x. x\<lparr>f_ip := ip, f_readable := (omode AND O_WRONLY = 0),
                          f_writable := (omode AND O_WRONLY \<noteq> 0 \<or> omode AND O_RDWR \<noteq> 0)\<rparr>) s
                in seq (if omode AND O_TRUNC \<noteq> 0 \<and> i_type (itable s ip) = T_FILE then itrunc ip s else Ret s) (\<lambda>s.
                   seq (iunlock ip s) (\<lambda>s. end_op_ret fd s))))"

definition sys_open :: "'a kstate_scheme \<Rightarrow> (int \<times> 'a kstate_scheme) res" where
  "sys_open s =
     seq (argint 1 s) (\<lambda>om. seq (argstr 0 MAXPATH s) (\<lambda>(n, path).
     if n < 0 then Ret (-1, s)
     else let omode = of_int om in
     seq (begin_op s) (\<lambda>s. seq (open_inode path omode s) (\<lambda>(found, s).
     case found of
       None \<Rightarrow> Ret (-1, s)
     | Some ip \<Rightarrow>
         if i_type (itable s ip) = T_DEVICE \<and> (sint (i_major (itable s ip)) < 0 \<or> sint (i_major (itable s ip)) \<ge> int NDEV)
         then open_bad ip s
         else open_file ip omode s))))"

definition sys_mkdir :: "'a kstate_scheme \<Rightarrow> (int \<times> 'a kstate_scheme) res" where
  "sys_mkdir s =
     seq (begin_op s) (\<lambda>s. seq (argstr 0 MAXPATH s) (\<lambda>(r, path).
     if r < 0 then end_op_ret (-1) s
     else seq (create path T_DIR 0 0 s) (\<lambda>(found, s).
     case found of
       None \<Rightarrow> end_op_ret (-1) s
     | Some ip \<Rightarrow> seq (iunlockput ip s) (\<lambda>s. end_op_ret 0 s))))"

definition sys_mknod :: "'a kstate_scheme \<Rightarrow> (int \<times> 'a kstate_scheme) res" where
  "sys_mknod s =
     seq (begin_op s) (\<lambda>s. seq (argint 1 s) (\<lambda>major. seq (argint 2 s) (\<lambda>minor.
     seq (argstr 0 MAXPATH s) (\<lambda>(r, path).
     if r < 0 then end_op_ret (-1) s
     else seq (create path T_DEVICE (of_int major) (of_int minor) s) (\<lambda>(found, s).
     case found of
       None \<Rightarrow> end_op_ret (-1) s
     | Some ip \<Rightarrow> seq (iunlockput ip s) (\<lambda>s. end_op_ret 0 s))))))"

definition sys_chdir :: "'a kstate_scheme \<Rightarrow> (int \<times> 'a kstate_scheme) res" where
  "sys_chdir s =
     seq (begin_op s) (\<lambda>s. seq (argstr 0 MAXPATH s) (\<lambda>(r, path).
     if r < 0 then end_op_ret (-1) s
     else seq (namei path s) (\<lambda>(found, s).
     case found of
       None \<Rightarrow> end_op_ret (-1) s
     | Some ip \<Rightarrow>
         seq (ilock ip s) (\<lambda>s.
         if i_type (itable s ip) \<noteq> T_DIR then seq (iunlockput ip s) (\<lambda>s. end_op_ret (-1) s)
         else seq (iunlock ip s) (\<lambda>s. seq (iput (cwd s) s) (\<lambda>s. seq (end_op s) (\<lambda>s.
              Ret (0, upd_proc (myproc s) (p_cwd_update (\<lambda>_. Some ip)) (s\<lparr>cwd := ip\<rparr>)))))))))"

section \<open>Exec and pipe\<close>

text \<open>
  The loop of \<open>sys_exec\<close> that fetches the arguments, each to a page of its own; \<open>pages\<close> are
  the pages so far and \<open>argv\<close> the strings they hold. On failure there is no list, but the pages are to
  be freed all the same. \<open>fuel\<close> is the number of entries of \<open>argv\<close> left.
\<close>

fun fetch_argv :: "nat \<Rightarrow> uint64 \<Rightarrow> uint64 list \<Rightarrow> uint8 list list \<Rightarrow> 'a kstate_scheme \<Rightarrow>
    (uint8 list list option \<times> uint64 list \<times> 'a kstate_scheme) res" where
  "fetch_argv 0 uargv pages argv s = Ret (None, pages, s)"
| "fetch_argv (Suc fuel) uargv pages argv s =
     seq (fetchaddr (uargv + 8 * of_nat (length argv)) s) (\<lambda>(r, uarg).
     if r < 0 then Ret (None, pages, s)
     else if uarg = 0 then Ret (Some argv, pages, s)
     else case kalloc (km s) of (pg, k) \<Rightarrow>
          let s = s\<lparr>km := k\<rparr> in
          if pg = 0 then Ret (None, pages, s)
          else seq (fetchstr uarg 4096 s) (\<lambda>(r, str).
               if r < 0 then Ret (None, pages @ [pg], s)
               else fetch_argv fuel uargv (pages @ [pg]) (argv @ [str]) s))"

definition free_pages :: "uint64 list \<Rightarrow> 'a kstate_scheme \<Rightarrow> 'a kstate_scheme res" where
  "free_pages pages s = seq (foldM kfree pages (km s)) (\<lambda>k. Ret (s\<lparr>km := k\<rparr>))"

definition sys_exec :: "uint64 \<Rightarrow> 'a kstate_scheme \<Rightarrow> (int \<times> 'a kstate_scheme) res" where
  "sys_exec trampoline s =
     seq (argaddr 1 s) (\<lambda>uargv. seq (argstr 0 MAXPATH s) (\<lambda>(r, path).
     if r < 0 then Ret (-1, s)
     else seq (fetch_argv MAXARG uargv [] [] s) (\<lambda>(got, pages, s).
     case got of
       None \<Rightarrow> seq (free_pages pages s) (\<lambda>s. Ret (-1, s))
     | Some argv \<Rightarrow>
         seq (exec trampoline path argv s) (\<lambda>(ret, s).
         seq (free_pages pages s) (\<lambda>s. Ret (ret, s))))))"

definition close_both :: "nat \<Rightarrow> nat \<Rightarrow> 'a kstate_scheme \<Rightarrow> (int \<times> 'a kstate_scheme) res" where
  "close_both rfile wfile s = seq (fileclose rfile s) (\<lambda>s. seq (fileclose wfile s) (\<lambda>s. Ret (-1, s)))"

definition sys_pipe :: "'a kstate_scheme \<Rightarrow> (int \<times> 'a kstate_scheme) res" where
  "sys_pipe s =
     seq (argaddr 0 s) (\<lambda>fdarray. seq (pipealloc s) (\<lambda>(got, s).
     case got of
       None \<Rightarrow> Ret (-1, s)
     | Some (rfile, wfile) \<Rightarrow>
         (case fdalloc rfile s of (fd0, s) \<Rightarrow>
          if fd0 < 0 then close_both rfile wfile s
          else case fdalloc wfile s of (fd1, s) \<Rightarrow>
            if fd1 < 0 then close_both rfile wfile (clear_fd (nat fd0) s)
            else seq (copyout (p_pagetable (me s)) fdarray (le32 (of_int fd0)) (km s)) (\<lambda>(r, k).
                 let s = s\<lparr>km := k\<rparr> in
                 seq (if r < 0 then Ret (r, k) else copyout (p_pagetable (me s)) (fdarray + 4) (le32 (of_int fd1)) k) (\<lambda>(r, k).
                 let s = s\<lparr>km := k\<rparr> in
                 if r < 0 then close_both rfile wfile (clear_fd (nat fd1) (clear_fd (nat fd0) s))
                 else Ret (0, s))))))"

end
