(* ===== verification/Printf.thy ===== *)
theory Printf
  imports Fs
begin

text \<open>
  \<^verbatim>\<open>kernel/printf.c\<close>: formatted output, as the bytes that go to the console. An argument is
  what \<open>va_arg\<close> takes; the result is \<open>None\<close> when the C code has no defined result: an
  argument is missing or of another type, or \<open>printint\<close> writes past its 16-byte buffer.
\<close>

section \<open>Numbers\<close>

definition digits :: "uint8 list" where
  "digits = bytes_of ''0123456789abcdef''"

text \<open>The loop that fills \<open>buf\<close>, least significant digit first.\<close>

function digit_loop :: "nat \<Rightarrow> nat \<Rightarrow> uint8 list" where
  "digit_loop base x =
     digits ! (x mod base) # (if x div base \<noteq> 0 \<and> 2 \<le> base then digit_loop base (x div base) else [])"
  by auto
termination by (relation "measure snd") (auto simp: dvd_div_eq_0_iff div_less_dividend intro!: div_less_dividend gr0I)

declare digit_loop.simps [simp del]

abbreviation MINUS :: uint8 where "MINUS \<equiv> 0x2D"
abbreviation PERCENT :: uint8 where "PERCENT \<equiv> 0x25"

definition printint :: "uint64 \<Rightarrow> nat \<Rightarrow> bool \<Rightarrow> uint8 list option" where
  "printint xx base sign =
     (let neg = (sign \<and> sint xx < 0);
          x = (if neg then - xx else xx);
          buf = digit_loop base (unat x);
          buf = (if neg then buf @ [MINUS] else buf)
      in if length buf > 16 then None else Some (rev buf))"

primrec printptr_loop :: "nat \<Rightarrow> uint64 \<Rightarrow> uint8 list" where
  "printptr_loop 0 x = []"
| "printptr_loop (Suc n) x = digits ! unat (drop_bit 60 x) # printptr_loop n (push_bit 4 x)"

definition printptr :: "uint64 \<Rightarrow> uint8 list" where
  "printptr x = bytes_of ''0x'' @ printptr_loop 16 x"

section \<open>Formats\<close>

datatype parg = ArgInt uint32 | ArgU64 uint64 | ArgStr "uint8 list option"

text \<open>
  What a conversion prints: a number, read as an \<open>int\<close> or as a \<open>uint64\<close>, in a base, signed or
  not, with the number of extra characters of the format it takes.
\<close>

datatype conv = ConvInt bool nat bool nat | ConvPtr | ConvStr | ConvPercent | ConvEnd | ConvUnknown

definition ch :: "char \<Rightarrow> uint8" where "ch c = of_nat (of_char c)"

definition printf_conv :: "uint8 \<Rightarrow> uint8 \<Rightarrow> uint8 \<Rightarrow> conv" where
  "printf_conv c0 c1 c2 =
     (if c0 = ch CHR ''d'' then ConvInt False 10 True 0
      else if c0 = ch CHR ''l'' \<and> c1 = ch CHR ''d'' then ConvInt True 10 True 1
      else if c0 = ch CHR ''l'' \<and> c1 = ch CHR ''l'' \<and> c2 = ch CHR ''d'' then ConvInt True 10 True 2
      else if c0 = ch CHR ''u'' then ConvInt False 10 False 0
      else if c0 = ch CHR ''l'' \<and> c1 = ch CHR ''u'' then ConvInt True 10 False 1
      else if c0 = ch CHR ''l'' \<and> c1 = ch CHR ''l'' \<and> c2 = ch CHR ''u'' then ConvInt True 10 False 2
      else if c0 = ch CHR ''x'' then ConvInt False 16 False 0
      else if c0 = ch CHR ''l'' \<and> c1 = ch CHR ''x'' then ConvInt True 16 False 1
      else if c0 = ch CHR ''l'' \<and> c1 = ch CHR ''l'' \<and> c2 = ch CHR ''x'' then ConvInt True 16 False 2
      else if c0 = ch CHR ''p'' then ConvPtr
      else if c0 = ch CHR ''s'' then ConvStr
      else if c0 = PERCENT then ConvPercent
      else if c0 = 0 then ConvEnd
      else ConvUnknown)"

text \<open>An \<open>int\<close> is sign-extended when it is passed on as a \<open>long long\<close>, also for \<open>%u\<close> and \<open>%x\<close>.\<close>

fun printf_arg :: "conv \<Rightarrow> uint8 \<Rightarrow> parg list \<Rightarrow> (uint8 list \<times> parg list) option" where
  "printf_arg (ConvInt False base sign _) c0 (ArgInt v # args) =
     map_option (\<lambda>b. (b, args)) (printint (scast v) base sign)"
| "printf_arg (ConvInt True base sign _) c0 (ArgU64 v # args) =
     map_option (\<lambda>b. (b, args)) (printint v base sign)"
| "printf_arg ConvPtr c0 (ArgU64 v # args) = Some (printptr v, args)"
| "printf_arg ConvStr c0 (ArgStr s # args) =
     Some (case s of None \<Rightarrow> bytes_of ''(null)'' | Some s \<Rightarrow> takeWhile (\<lambda>b. b \<noteq> 0) s, args)"
| "printf_arg ConvPercent c0 args = Some ([PERCENT], args)"
| "printf_arg ConvUnknown c0 args = Some ([PERCENT, c0], args)"
| "printf_arg _ c0 args = None"

fun conv_extra :: "conv \<Rightarrow> nat" where
  "conv_extra (ConvInt _ _ _ n) = n"
| "conv_extra _ = 0"

function printf_loop :: "uint8 list \<Rightarrow> parg list \<Rightarrow> uint8 list option" where
  "printf_loop [] args = Some []"
| "printf_loop (cx # fmt) args =
     (if cx = 0 then Some []
      else if cx \<noteq> PERCENT then map_option (\<lambda>b. cx # b) (printf_loop fmt args)
      else let c0 = hd0 fmt;
               c1 = (if c0 \<noteq> 0 then hd0 (tl fmt) else 0);
               c2 = (if c1 \<noteq> 0 then hd0 (tl (tl fmt)) else 0);
               cv = printf_conv c0 c1 c2
           in if cv = ConvEnd then Some []
              else case printf_arg cv c0 args of
                     None \<Rightarrow> None
                   | Some (b, args) \<Rightarrow> map_option (\<lambda>b'. b @ b') (printf_loop (drop (1 + conv_extra cv) fmt) args))"
  by pat_completeness auto
termination by (relation "measure (\<lambda>(fmt, args). length fmt)") auto

declare printf_loop.simps [simp del]

definition printf :: "string \<Rightarrow> parg list \<Rightarrow> uint8 list option" where
  "printf fmt args = printf_loop (bytes_of fmt) args"

text \<open>\<open>panic\<close> prints its message and stops.\<close>

definition panic :: "string \<Rightarrow> uint8 list option" where
  "panic s =
     (case printf ''panic: '' [] of None \<Rightarrow> None
      | Some a \<Rightarrow> (case printf (''%s'' @ [CHR 0x0A]) [ArgStr (Some (bytes_of s))] of None \<Rightarrow> None | Some b \<Rightarrow> Some (a @ b)))"

section \<open>What is printed reads back\<close>

definition digit_val :: "uint8 \<Rightarrow> nat" where
  "digit_val c = (if unat c < 58 then unat c - 48 else unat c - 87)"

definition digits_value :: "nat \<Rightarrow> uint8 list \<Rightarrow> nat" where
  "digits_value base ds = foldl (\<lambda>a c. a * base + digit_val c) 0 ds"

text \<open>Reading a numeral: an optional minus sign, then digits.\<close>

definition read_num :: "nat \<Rightarrow> uint8 list \<Rightarrow> int" where
  "read_num base ds = (if hd ds = MINUS then - int (digits_value base (tl ds)) else int (digits_value base ds))"

lemma digits_list:
  "digits = [0x30, 0x31, 0x32, 0x33, 0x34, 0x35, 0x36, 0x37, 0x38, 0x39, 0x61, 0x62, 0x63, 0x64, 0x65, 0x66]"
  by (simp add: digits_def bytes_of_def of_char_def)

lemma length_digits: "length digits = 16"
  by (simp add: digits_list)

lemma digit_val_nth: "i < 16 \<Longrightarrow> digit_val (digits ! i) = i"
proof -
  assume "i < 16"
  moreover have "map digit_val digits = [0..<16]" by (simp add: digits_list digit_val_def upt_rec)
  ultimately show ?thesis using nth_map [of i digits digit_val] by (simp add: length_digits)
qed

lemma digits_not_minus: "i < 16 \<Longrightarrow> digits ! i \<noteq> MINUS"
proof -
  assume "i < 16"
  then have "digits ! i \<in> set digits" by (simp add: length_digits)
  moreover have "MINUS \<notin> set digits" by (simp add: digits_list)
  ultimately show ?thesis by metis
qed

lemma unat_of_sint:
  fixes x :: uint64
  shows "sint x < 0 \<Longrightarrow> int (unat (- x)) = - sint x" "\<not> sint x < 0 \<Longrightarrow> int (unat x) = sint x"
proof -
  have u: "uint (of_int k :: uint64) = k" if "0 \<le> k" "k < 2 ^ 64" for k
    using that by (simp add: uint_word_of_int)
  have r: "- (2 ^ 63) \<le> sint x" "sint x < 2 ^ 63"
    using sint_greater_eq [of x] sint_less [of x] by simp_all
  show "int (unat (- x)) = - sint x" if "sint x < 0"
    using u [of "- sint x"] that r by simp
  show "int (unat x) = sint x" if "\<not> sint x < 0"
    using u [of "sint x"] that r by simp
qed

lemma mod_base_16: "2 \<le> base \<Longrightarrow> base \<le> 16 \<Longrightarrow> x mod base < (16 :: nat)"
  using mod_less_divisor [of base x] by linarith

lemma digit_loop_value: "2 \<le> base \<Longrightarrow> base \<le> 16 \<Longrightarrow> digits_value base (rev (digit_loop base x)) = x"
proof (induction base x rule: digit_loop.induct)
  case (1 base x)
  have d: "digit_val (digits ! (x mod base)) = x mod base"
    using 1(2,3) by (intro digit_val_nth mod_base_16)
  show ?case
  proof (cases "x div base = 0")
    case True
    then show ?thesis using d 1(2) by (simp add: digit_loop.simps [of base x] digits_value_def div_eq_0_iff)
  next
    case False
    then have "digits_value base (rev (digit_loop base (x div base))) = x div base" using 1 by simp
    then show ?thesis using False d 1(2) by (simp add: digit_loop.simps [of base x] digits_value_def mult.commute)
  qed
qed

lemma digit_loop_length:
  "2 \<le> base \<Longrightarrow> length (digit_loop base x) \<le> Suc n \<longleftrightarrow> x < base ^ Suc n"
proof (induction n arbitrary: x)
  case 0
  then show ?case by (auto simp: digit_loop.simps [of base x] digit_loop.simps [of base "x div base"] div_eq_0_iff)
next
  case (Suc n)
  have "x div base < base ^ Suc n \<longleftrightarrow> x < base ^ Suc (Suc n)"
    using Suc.prems by (subst div_less_iff_less_mult) (auto simp: mult.commute)
  moreover have "0 < base ^ n" using Suc.prems by simp
  ultimately show ?case using Suc
    by (cases "x div base = 0") (auto simp: digit_loop.simps [of base x])
qed

lemma digit_loop_last: "2 \<le> base \<Longrightarrow> base \<le> 16 \<Longrightarrow> digit_loop base x \<noteq> [] \<and> last (digit_loop base x) \<noteq> MINUS"
proof (induction base x rule: digit_loop.induct)
  case (1 base x)
  have "x mod base < 16" using 1(2,3) by (rule mod_base_16)
  then show ?case using 1 digits_not_minus
    by (subst digit_loop.simps, subst (2) digit_loop.simps) (auto split: if_splits)
qed

lemma printint_ok:
  assumes "base = 10 \<or> base = 16"
  shows "case printint xx base sign of
           None \<Rightarrow> (if sign \<and> sint xx < 0 then base ^ 15 \<le> unat (- xx) else base ^ 16 \<le> unat xx)
         | Some ds \<Rightarrow> read_num base ds = (if sign then sint xx else uint xx)
             \<and> (if sign \<and> sint xx < 0 then unat (- xx) < base ^ 15 else unat xx < base ^ 16)"
proof -
  have b: "2 \<le> base" "base \<le> 16" using assms by auto
  have len: "length (digit_loop base x) \<le> 15 \<longleftrightarrow> x < base ^ 15" "length (digit_loop base x) \<le> 16 \<longleftrightarrow> x < base ^ 16" for x
    using digit_loop_length [OF b(1), of x 14] digit_loop_length [OF b(1), of x 15] by simp_all
  have hd: "hd (rev (digit_loop base x)) \<noteq> MINUS" for x
    using digit_loop_last [OF b, of x] by (simp add: hd_rev)
  define n where "n = unat xx"
  define m where "m = unat (- xx)"
  have m: "sint xx < 0 \<Longrightarrow> sint xx = - int m" and n: "\<not> sint xx < 0 \<Longrightarrow> sint xx = int n" "uint xx = int n"
    using unat_of_sint [of xx] by (simp_all add: m_def n_def)
  show ?thesis
    using hd [of n] m n len [of n] len [of m]
    by (auto simp: printint_def Let_def read_num_def digit_loop_value [OF b] not_le simp flip: m_def n_def)
qed

text \<open>
  C30. \<open>printint\<close> in base 10 or 16 has a defined result exactly when the numeral, with its sign,
  has at most 16 characters, the size of its buffer; and then what it prints reads back as the
  value it was given, as a signed number when \<open>sign\<close> is set and as an unsigned one otherwise.
\<close>

theorem printint_reads_back:
  assumes "base = 10 \<or> base = 16"
  shows "case printint xx base sign of
           None \<Rightarrow> (if sign \<and> sint xx < 0 then base ^ 15 \<le> unat (- xx) else base ^ 16 \<le> unat xx)
         | Some ds \<Rightarrow> read_num base ds = (if sign then sint xx else uint xx)
             \<and> (if sign \<and> sint xx < 0 then unat (- xx) < base ^ 15 else unat xx < base ^ 16)"
  using assms by (rule printint_ok)

theorem printint_reads_back_witness:
  "printint (- 42) 10 True = Some [0x2D, 0x34, 0x32] \<and> read_num 10 [0x2D, 0x34, 0x32] = - 42"
proof -
  have "printint (- 42) 10 True = Some [0x2D, 0x34, 0x32]"
    by (simp add: printint_def digit_loop.simps digits_list)
  then show ?thesis using printint_reads_back [where base = 10 and xx = "- 42" and sign = True] by simp
qed

lemma unat_less_pow_iff: "unat w < numeral k ^ n \<longleftrightarrow> uint w < numeral k ^ n" for w :: "'a::len word"
proof -
  have "uint w < numeral k ^ n \<longleftrightarrow> int (unat w) < int (numeral k ^ n)" by simp
  then show ?thesis by (simp only: of_nat_less_iff)
qed

lemma uint_scast_u32:
  fixes v :: uint32
  shows "uint (scast v :: uint64) = (if unat v < 2 ^ 31 then uint v else uint v + 2 ^ 64 - 2 ^ 32)"
proof -
  have r: "uint v < 2 ^ 32" "0 \<le> uint v" using uint_lt2p [of v] by simp_all
  have n: "unat v < 2 ^ 31 \<longleftrightarrow> uint v < 2 ^ 31" by (simp only: unat_less_pow_iff)
  have s: "sint v = (if uint v < 2 ^ 31 then uint v else uint v - 2 ^ 32)"
  proof (cases "uint v < 2 ^ 31")
    case False
    have "(uint v + 2 ^ 31) mod 2 ^ 32 = (uint v - 2 ^ 31 + 2 ^ 32) mod 2 ^ 32" by (simp add: algebra_simps)
    also have "\<dots> = uint v - 2 ^ 31" using False r by (simp only: mod_add_self2) (intro mod_pos_pos_trivial; simp)
    finally show ?thesis using False by (simp add: sint_uint signed_take_bit_eq_take_bit_shift take_bit_eq_mod)
  qed (use r signed_take_bit_int_eq_self [OF order_trans [OF _ r(2)], of 31] in \<open>simp add: sint_uint\<close>)
  have "uint (scast v :: uint64) = sint v mod 2 ^ 64"
    unfolding scast_eq uint_word_of_int by simp
  also have "\<dots> = (if uint v < 2 ^ 31 then uint v else uint v + 2 ^ 64 - 2 ^ 32)"
  proof (cases "uint v < 2 ^ 31")
    case False
    then have "sint v mod 2 ^ 64 = (sint v + 2 ^ 64) mod 2 ^ 64" by simp
    also have "\<dots> = sint v + 2 ^ 64" using False r s by (intro mod_pos_pos_trivial) auto
    finally show ?thesis using False s by simp
  qed (use r s in simp)
  finally show ?thesis by (simp only: n)
qed

text \<open>
  C31. \<open>%u\<close> prints an \<open>int\<close> argument correctly below \<open>2 ^ 31\<close>. From there on the argument has been
  sign-extended to 64 bits, its numeral has twenty digits, and \<open>printint\<close> writes past its buffer.
\<close>

theorem printf_u_overruns:
  "case printf ''%u'' [ArgInt v] of
     None \<Rightarrow> 2 ^ 31 \<le> unat v
   | Some ds \<Rightarrow> unat v < 2 ^ 31 \<and> read_num 10 ds = uint v"
proof -
  have p: "printf ''%u'' [ArgInt v] = printint (scast v) 10 False"
    by (cases "printint (scast v) 10 False")
      (simp_all add: printf_def bytes_of_def of_char_def printf_loop.simps printf_conv_def ch_def hd0_def)
  have r: "uint v < 2 ^ 32" "0 \<le> uint v" using uint_lt2p [of v] by simp_all
  have n: "unat v < 2 ^ 31 \<longleftrightarrow> uint v < 2 ^ 31" by (simp only: unat_less_pow_iff)
  have x: "unat (scast v :: uint64) < 10 ^ 16 \<longleftrightarrow> unat v < 2 ^ 31"
  proof -
    have "unat (scast v :: uint64) < 10 ^ 16 \<longleftrightarrow> uint (scast v :: uint64) < 10 ^ 16"
      by (rule unat_less_pow_iff)
    then show ?thesis using r n by (simp only: uint_scast_u32) (simp split: if_splits)
  qed
  show ?thesis using printint_ok [where base = 10 and xx = "scast v" and sign = False] x uint_scast_u32 [of v]
    by (auto simp: p not_less split: option.splits)
qed

section \<open>A line with two numbers and a string\<close>

text \<open>Decimal numerals, from the most significant digit on.\<close>

fun dec_nat :: "nat \<Rightarrow> uint8 list" where
  "dec_nat n = (if n < 10 then [] else dec_nat (n div 10)) @ [of_nat (48 + n mod 10)]"

declare dec_nat.simps [simp del]

definition decimal :: "int \<Rightarrow> uint8 list" where
  "decimal i = (if i < 0 then MINUS # dec_nat (nat (- i)) else dec_nat (nat i))"

lemma digits_nth10: "i < 10 \<Longrightarrow> digits ! i = of_nat (48 + i)"
proof -
  assume "i < 10"
  moreover have "map (\<lambda>i. digits ! i) [0..<10] = map (\<lambda>i. of_nat (48 + i)) [0..<10]" by (simp add: digits_list upt_rec)
  ultimately show ?thesis by (metis (no_types, lifting) map_eq_conv atLeastLessThan_iff set_upt zero_le)
qed

lemma digit_loop_dec_nat: "rev (digit_loop 10 x) = dec_nat x"
proof (induction x rule: dec_nat.induct)
  case (1 n)
  then show ?case
    by (simp add: digit_loop.simps [of 10 n] dec_nat.simps [of n] digits_nth10 div_eq_0_iff)
qed

lemma printint_decimal: "printint (scast (v :: uint32)) 10 True = Some (decimal (sint v))"
proof -
  let ?x = "scast v :: uint64"
  have s: "sint ?x = sint v" by (rule sint_up_scast) (simp add: is_up)
  have r: "- (2 ^ 31) \<le> sint v" "sint v < 2 ^ 31" using sint_greater_eq [of v] sint_less [of v] by simp_all
  show ?thesis
  proof (cases "sint v < 0")
    case True
    then have "int (unat (- ?x)) = - sint v" using unat_of_sint(1) [of ?x] s by simp
    then have "unat (- ?x) = nat (- sint v)" by linarith
    moreover from this have "length (digit_loop 10 (unat (- ?x))) \<le> 15" using digit_loop_length [of 10 "unat (- ?x)" 14] r by simp
    ultimately show ?thesis using True s digit_loop_dec_nat by (simp add: printint_def Let_def decimal_def)
  next
    case False
    then have "int (unat ?x) = sint v" using unat_of_sint(2) [of ?x] s by simp
    then have "unat ?x = nat (sint v)" by linarith
    moreover from this have "length (digit_loop 10 (unat ?x)) \<le> 15" using digit_loop_length [of 10 "unat ?x" 14] r by simp
    ultimately show ?thesis using False s digit_loop_dec_nat by (simp add: printint_def Let_def decimal_def)
  qed
qed

text \<open>The characters of a format before a conversion are printed as they are; then the conversion.\<close>

lemma printf_loop_plain:
  "list_all (\<lambda>c. c \<noteq> 0 \<and> c \<noteq> PERCENT) pre \<Longrightarrow>
     printf_loop (pre @ fmt) args = map_option (\<lambda>b. pre @ b) (printf_loop fmt args)"
  by (cases "printf_loop fmt args"; induction pre) (auto simp: printf_loop.simps)

lemma printf_loop_d:
  "printf_loop (PERCENT # ch CHR ''d'' # fmt) (ArgInt v # args) =
     map_option (\<lambda>b. decimal (sint v) @ b) (printf_loop fmt args)"
  by (simp add: printf_loop.simps(2) [of PERCENT] printf_conv_def ch_def hd0_def of_char_def printint_decimal Let_def)

lemma printf_loop_s:
  "printf_loop (PERCENT # ch CHR ''s'' # fmt) (ArgStr (Some n) # args) =
     map_option (\<lambda>b. takeWhile (\<lambda>b. b \<noteq> 0) n @ b) (printf_loop fmt args)"
  by (simp add: printf_loop.simps(2) [of PERCENT] printf_conv_def ch_def hd0_def of_char_def Let_def)

lemma printf_d_s_d:
  "printf (''%d %s: unknown sys call %d'' @ [CHR 0x0A]) [ArgInt v, ArgStr (Some n), ArgInt w] =
     Some (decimal (sint v) @ bytes_of '' '' @ takeWhile (\<lambda>b. b \<noteq> 0) n @ bytes_of '': unknown sys call ''
       @ decimal (sint w) @ [0x0A])"
proof -
  have f: "bytes_of (''%d %s: unknown sys call %d'' @ [CHR 0x0A]) =
      PERCENT # ch CHR ''d'' # (bytes_of '' '' @ PERCENT # ch CHR ''s'' # (bytes_of '': unknown sys call '' @
        PERCENT # ch CHR ''d'' # ([0x0A] @ [])))"
    by (simp add: bytes_of_def ch_def of_char_def)
  have p: "list_all (\<lambda>c. c \<noteq> 0 \<and> c \<noteq> PERCENT) (bytes_of '' '')" "list_all (\<lambda>c. c \<noteq> 0 \<and> c \<noteq> PERCENT) (bytes_of '': unknown sys call '')"
    "list_all (\<lambda>c. c \<noteq> 0 \<and> c \<noteq> PERCENT) [0x0A :: uint8]"
    by (simp_all add: bytes_of_def of_char_def)
  show ?thesis unfolding printf_def f printf_loop_d printf_loop_s printf_loop_plain [OF p(1)] printf_loop_plain [OF p(2)] printf_loop_plain [OF p(3)]
    by (simp add: printf_loop.simps)
qed

end
