(* ===== verification/Console.thy ===== *)
theory Console
  imports Sysfile Printf
begin

text \<open>
  \<^verbatim>\<open>kernel/uart.c\<close> and \<^verbatim>\<open>kernel/console.c\<close>: the serial port with its output ring, and the
  console's line editing with its input ring. The bytes written to the transmit register are
  appended to \<open>cons_out\<close>. What the device does is an argument: \<open>idle\<close> is the number of bytes it
  takes before it reports that its register is full, \<open>rx\<close> the characters that have arrived. The loops in
  which \<open>uartputc\<close> and \<open>uartputc_sync\<close> hang once the kernel has panicked are not modelled: a panic
  ends the run.
\<close>

section \<open>State\<close>

definition INPUT_BUF_SIZE :: nat where "INPUT_BUF_SIZE = 128"
definition UART_TX_BUF_SIZE :: nat where "UART_TX_BUF_SIZE = 32"

record cons =
  cons_buf :: "uint8 list"
  cons_r :: uint32
  cons_w :: uint32
  cons_e :: uint32

record uart =
  uart_tx_buf :: "uint8 list"
  uart_tx_w :: uint64
  uart_tx_r :: uint64

record cstate = kstate +
  cns :: cons
  urt :: uart

definition emit :: "uint8 list \<Rightarrow> 'a kstate_scheme \<Rightarrow> 'a kstate_scheme" where
  "emit bs s = s\<lparr>cons_out := cons_out s @ bs\<rparr>"

section \<open>The serial port\<close>

text \<open>The registers \<open>uartinit\<close> writes, as pairs of register and value, in order.\<close>

definition uartinit :: "(nat \<times> uint8) list" where
  "uartinit = [(1, 0x00), (3, 0x80), (0, 0x03), (1, 0x00), (3, 0x03), (2, 0x07), (1, 0x03)]"

definition uart_put :: "uint8 \<Rightarrow> uart \<Rightarrow> uart option" where
  "uart_put c u =
     (if uart_tx_w u = uart_tx_r u + of_nat UART_TX_BUF_SIZE then None
      else Some (u\<lparr>uart_tx_buf := (uart_tx_buf u)[unat (uart_tx_w u) mod UART_TX_BUF_SIZE := c],
                   uart_tx_w := uart_tx_w u + 1\<rparr>))"

definition uart_get :: "uart \<Rightarrow> (uint8 \<times> uart) option" where
  "uart_get u =
     (if uart_tx_w u = uart_tx_r u then None
      else Some (uart_tx_buf u ! (unat (uart_tx_r u) mod UART_TX_BUF_SIZE), u\<lparr>uart_tx_r := uart_tx_r u + 1\<rparr>))"

primrec uartstart :: "nat \<Rightarrow> 'a cstate_scheme \<Rightarrow> 'a cstate_scheme" where
  "uartstart 0 s = s"
| "uartstart (Suc idle) s =
     (case uart_get (urt s) of
        None \<Rightarrow> s
      | Some (c, u) \<Rightarrow> uartstart idle (emit [c] (wakeup (Some ChUart_tx_r) (s\<lparr>urt := u\<rparr>))))"

text \<open>\<open>None\<close>: the buffer is full and the caller sleeps.\<close>

definition uartputc :: "nat \<Rightarrow> uint8 \<Rightarrow> 'a cstate_scheme \<Rightarrow> 'a cstate_scheme option" where
  "uartputc idle c s =
     (case uart_put c (urt s) of
        None \<Rightarrow> None
      | Some u \<Rightarrow> Some (uartstart idle (s\<lparr>urt := u\<rparr>)))"

definition uartputc_sync :: "uint8 \<Rightarrow> 'a kstate_scheme \<Rightarrow> 'a kstate_scheme" where
  "uartputc_sync c s = emit [c] s"

fun uartgetc :: "uint8 list \<Rightarrow> int \<times> uint8 list" where
  "uartgetc [] = (-1, [])"
| "uartgetc (c # rx) = (uint c, rx)"

section \<open>The console\<close>

abbreviation BACKSPACE :: int where "BACKSPACE \<equiv> 0x100"
abbreviation CTRL_D :: uint8 where "CTRL_D \<equiv> 4"
abbreviation CTRL_H :: uint8 where "CTRL_H \<equiv> 8"
abbreviation NEWLINE :: uint8 where "NEWLINE \<equiv> 10"
abbreviation CR :: uint8 where "CR \<equiv> 13"
abbreviation CTRL_P :: uint8 where "CTRL_P \<equiv> 16"
abbreviation CTRL_U :: uint8 where "CTRL_U \<equiv> 21"
abbreviation DEL :: uint8 where "DEL \<equiv> 127"

definition consputc :: "int \<Rightarrow> 'a kstate_scheme \<Rightarrow> 'a kstate_scheme" where
  "consputc c s =
     (if c = BACKSPACE then uartputc_sync CTRL_H (uartputc_sync 32 (uartputc_sync CTRL_H s))
      else uartputc_sync (of_int c) s)"

text \<open>\<open>i\<close> is the number of bytes written so far: 0 on entry, and where to go on after waiting.\<close>

function consolewrite_from :: "(nat \<Rightarrow> nat) \<Rightarrow> uint64 \<Rightarrow> nat \<Rightarrow> nat \<Rightarrow> 'a cstate_scheme \<Rightarrow> (fres \<times> 'a cstate_scheme) res" where
  "consolewrite_from idle src n i s =
     (if i < n
      then seq (copyin (upagetable s) (src + of_nat i) 1 (km s)) (\<lambda>(r, cs).
           if r = -1 then Ret (Returned (int i), s)
           else case uartputc (idle i) (hd cs) s of
                  None \<Rightarrow> Ret (Waiting i, sleep ChUart_tx_r s)
                | Some s \<Rightarrow> consolewrite_from idle src n (i + 1) s)
      else Ret (Returned (int i), s))"
  by auto
termination by (relation "measure (\<lambda>(idle, src, n, i, s). n - i)") auto

declare consolewrite_from.simps [simp del]

definition consolewrite :: "(nat \<Rightarrow> nat) \<Rightarrow> uint64 \<Rightarrow> int \<Rightarrow> 'a cstate_scheme \<Rightarrow> (fres \<times> 'a cstate_scheme) res" where
  "consolewrite idle src n s = consolewrite_from idle src (nat n) 0 s"

definition cons_get :: "cons \<Rightarrow> (uint8 \<times> cons) option" where
  "cons_get c =
     (if cons_r c = cons_w c then None
      else Some (cons_buf c ! (unat (cons_r c) mod INPUT_BUF_SIZE), c\<lparr>cons_r := cons_r c + 1\<rparr>))"

text \<open>\<open>i\<close> is \<open>target - n\<close>, the number of bytes delivered so far.\<close>

function consoleread_from :: "uint64 \<Rightarrow> nat \<Rightarrow> nat \<Rightarrow> 'a cstate_scheme \<Rightarrow> (fres \<times> 'a cstate_scheme) res" where
  "consoleread_from dst n i s =
     (if i < n
      then case cons_get (cns s) of
             None \<Rightarrow>
               if killed (myproc s) s then Ret (Returned (-1), s)
               else Ret (Waiting i, sleep ChCons_r s)
           | Some (c, cn) \<Rightarrow>
               let s' = s\<lparr>cns := cn\<rparr> in
               if c = CTRL_D then Ret (Returned (int i), if 0 < i then s else s')
               else seq (copyout (upagetable s') (dst + of_nat i) [c] (km s')) (\<lambda>(r, k).
                    let s = s'\<lparr>km := k\<rparr> in
                    if r = -1 then Ret (Returned (int i), s)
                    else if c = NEWLINE then Ret (Returned (int i + 1), s)
                    else consoleread_from dst n (i + 1) s)
      else Ret (Returned (int i), s))"
  by auto
termination by (relation "measure (\<lambda>(dst, n, i, s). n - i)") auto

declare consoleread_from.simps [simp del]

definition consoleread :: "uint64 \<Rightarrow> int \<Rightarrow> 'a cstate_scheme \<Rightarrow> (fres \<times> 'a cstate_scheme) res" where
  "consoleread dst n s = consoleread_from dst (nat n) 0 s"

lemma unat_minus_one_less: "a \<noteq> b \<Longrightarrow> unat (a - 1 - b) < unat (a - b)" for a b :: "'w::len word"
proof -
  assume "a \<noteq> b"
  then have "a - b \<noteq> 0" by simp
  moreover have "a - 1 - b = a - b - 1" by simp
  ultimately show ?thesis by (metis diff_less unat_gt_0 unat_minus_one zero_less_one)
qed

text \<open>The loop of Control-U: the number of characters it erases, and the edit index it ends with.\<close>

function kill_line :: "cons \<Rightarrow> nat \<times> cons" where
  "kill_line c =
     (if cons_e c \<noteq> cons_w c \<and> cons_buf c ! (unat (cons_e c - 1) mod INPUT_BUF_SIZE) \<noteq> NEWLINE
      then case kill_line (c\<lparr>cons_e := cons_e c - 1\<rparr>) of (k, c) \<Rightarrow> (Suc k, c)
      else (0, c))"
  by auto
termination by (relation "measure (\<lambda>c. unat (cons_e c - cons_w c))") (auto intro: unat_minus_one_less)

declare kill_line.simps [simp del]

definition out_dump :: "(int \<times> string \<times> uint8 list) list \<Rightarrow> uint8 list" where
  "out_dump ls =
     NEWLINE # concat (map (\<lambda>(pid, st, name).
       (case printf ''%d %s %s'' [ArgInt (of_int pid), ArgStr (Some (bytes_of st)), ArgStr (Some name)] of
          None \<Rightarrow> [] | Some b \<Rightarrow> b) @ [NEWLINE]) ls)"

definition consoleintr :: "uint8 \<Rightarrow> 'a cstate_scheme \<Rightarrow> 'a cstate_scheme" where
  "consoleintr c s =
     (if c = CTRL_P then emit (out_dump (procdump s)) s
      else if c = CTRL_U
      then case kill_line (cns s) of (k, cn) \<Rightarrow> (consputc BACKSPACE ^^ k) (s\<lparr>cns := cn\<rparr>)
      else if c = CTRL_H \<or> c = DEL
      then if cons_e (cns s) \<noteq> cons_w (cns s)
           then consputc BACKSPACE (s\<lparr>cns := (cns s)\<lparr>cons_e := cons_e (cns s) - 1\<rparr>\<rparr>)
           else s
      else if c \<noteq> 0 \<and> unat (cons_e (cns s) - cons_r (cns s)) < INPUT_BUF_SIZE
      then let c = (if c = CR then NEWLINE else c);
               s = consputc (uint c) s;
               cn = cns s;
               cn = cn\<lparr>cons_buf := (cons_buf cn)[unat (cons_e cn) mod INPUT_BUF_SIZE := c], cons_e := cons_e cn + 1\<rparr>
           in if c = NEWLINE \<or> c = CTRL_D \<or> unat (cons_e cn - cons_r cn) = INPUT_BUF_SIZE
              then wakeup (Some ChCons_r) (s\<lparr>cns := cn\<lparr>cons_w := cons_e cn\<rparr>\<rparr>)
              else s\<lparr>cns := cn\<rparr>
      else s)"

definition uartintr :: "uint8 list \<Rightarrow> nat \<Rightarrow> 'a cstate_scheme \<Rightarrow> 'a cstate_scheme" where
  "uartintr rx idle s = uartstart idle (fold consoleintr rx s)"

text \<open>The device switch after \<open>consoleinit\<close>.\<close>

definition devsw_read :: "nat \<Rightarrow> 'a cstate_scheme devfun option" where
  "devsw_read major = (if major = unat CONSOLE then Some consoleread else None)"

definition devsw_write :: "(nat \<Rightarrow> nat) \<Rightarrow> nat \<Rightarrow> 'a cstate_scheme devfun option" where
  "devsw_write idle major = (if major = unat CONSOLE then Some (consolewrite idle) else None)"

end
