(* ===== verification/Console_Rings.thy ===== *)
theory Console_Rings
  imports Console
begin

text \<open>
  Properties of the console: its input ring implements a line editor, and its output ring
  sends the bytes written to it once each and in order.
\<close>

section \<open>Segments of a ring\<close>

lemma ring_take:
  fixes r w e :: "'w::len word"
  assumes "unat (w - r) \<le> unat (e - r)"
  shows "ring_contents N buf r w = take (unat (w - r)) (ring_contents N buf r e)"
  using assms by (simp add: ring_contents_def take_map)

lemma ring_split_unat:
  fixes r w e :: "'w::len word"
  assumes "unat (w - r) \<le> unat (e - r)"
  shows "unat (e - w) = unat (e - r) - unat (w - r)"
proof -
  have "e - w = (e - r) - (w - r)" by simp
  then show ?thesis using assms by (metis unat_sub word_le_nat_alt)
qed

lemma ring_drop:
  fixes r w e :: "'w::len word"
  assumes N: "N dvd 2 ^ LENGTH('w)" and le: "unat (w - r) \<le> unat (e - r)"
  shows "ring_contents N buf w e = drop (unat (w - r)) (ring_contents N buf r e)"
proof (rule nth_equalityI)
  show "length (ring_contents N buf w e) = length (drop (unat (w - r)) (ring_contents N buf r e))"
    using ring_split_unat [OF le] by simp
next
  fix i assume "i < length (ring_contents N buf w e)"
  then have i: "i < unat (e - r) - unat (w - r)" using ring_split_unat [OF le] by simp
  have "unat w mod N = (unat r + unat (w - r)) mod N" using unat_add_mod [OF N, of r "unat (w - r)"] by simp
  then have "(unat w + i) mod N = (unat r + (unat (w - r) + i)) mod N" by (metis mod_add_left_eq add.assoc)
  moreover have "unat (w - r) + i < unat (e - r)" using i by simp
  ultimately show "ring_contents N buf w e ! i = drop (unat (w - r)) (ring_contents N buf r e) ! i"
    using i ring_split_unat [OF le] by (simp add: ring_contents_def)
qed

lemma ring_back:
  fixes r e :: "'w::len word"
  assumes "e \<noteq> r"
  shows "ring_contents N buf r (e - 1) = butlast (ring_contents N buf r e)" "unat (e - 1 - r) = unat (e - r) - 1"
proof -
  have d: "e - 1 - r = (e - r) - 1" "e - r \<noteq> 0" using assms by simp_all
  show u: "unat (e - 1 - r) = unat (e - r) - 1" unfolding d(1) using d(2) by (rule unat_minus_one)
  show "ring_contents N buf r (e - 1) = butlast (ring_contents N buf r e)"
    by (simp add: ring_contents_def u butlast_conv_take take_map)
qed

lemma ring_last:
  fixes r e :: "'w::len word"
  assumes N: "N dvd 2 ^ LENGTH('w)" and ne: "e \<noteq> r"
  shows "buf ! (unat (e - 1) mod N) = last (ring_contents N buf r e)"
proof -
  have e: "e - 1 = r + of_nat (unat (e - r) - 1)" unfolding ring_back(2) [OF ne, symmetric] by simp
  have "0 < unat (e - r)" using ne by (simp add: unat_gt_0)
  then show ?thesis unfolding e using unat_add_mod [OF N, of r "unat (e - r) - 1"]
    by (simp add: ring_contents_def last_conv_nth)
qed


section \<open>Output\<close>

definition uart_inv :: "uart \<Rightarrow> bool" where
  "uart_inv u \<longleftrightarrow> length (uart_tx_buf u) = UART_TX_BUF_SIZE \<and> unat (uart_tx_w u - uart_tx_r u) \<le> UART_TX_BUF_SIZE"

definition uart_bytes :: "uart \<Rightarrow> uint8 list" where
  "uart_bytes u = ring_contents UART_TX_BUF_SIZE (uart_tx_buf u) (uart_tx_r u) (uart_tx_w u)"

lemma UART_dvd: "UART_TX_BUF_SIZE dvd 2 ^ LENGTH(64)" "UART_TX_BUF_SIZE < 2 ^ LENGTH(64)"
  by (simp_all add: UART_TX_BUF_SIZE_def)

lemma uart_full_iff: "uart_tx_w u = uart_tx_r u + of_nat UART_TX_BUF_SIZE \<longleftrightarrow> unat (uart_tx_w u - uart_tx_r u) = UART_TX_BUF_SIZE"
proof
  assume "unat (uart_tx_w u - uart_tx_r u) = UART_TX_BUF_SIZE"
  then have "(of_nat (unat (uart_tx_w u - uart_tx_r u)) :: uint64) = of_nat UART_TX_BUF_SIZE" by simp
  then have "uart_tx_w u - uart_tx_r u = of_nat UART_TX_BUF_SIZE" by simp
  then show "uart_tx_w u = uart_tx_r u + of_nat UART_TX_BUF_SIZE" by (simp add: algebra_simps)
qed (simp add: UART_TX_BUF_SIZE_def)

interpretation uf: fifo uart_inv uart_bytes UART_TX_BUF_SIZE uart_put uart_get
proof
  fix s s' :: uart and x
  assume i: "uart_inv s"
  show "(uart_put x s = None) = (length (uart_bytes s) = UART_TX_BUF_SIZE)"
    by (simp add: uart_put_def uart_full_iff uart_bytes_def)
  show "(uart_get s = None) = (uart_bytes s = [])"
    by (auto simp: uart_get_def uart_bytes_def ring_contents_def unat_0_iff)
  show "length (uart_bytes s) \<le> UART_TX_BUF_SIZE" using i by (simp add: uart_inv_def uart_bytes_def)
  show "uart_inv s' \<and> uart_bytes s' = uart_bytes s @ [x]" if "uart_put x s = Some s'"
  proof -
    have lt: "unat (uart_tx_w s - uart_tx_r s) < UART_TX_BUF_SIZE"
      using that i by (auto simp: uart_put_def uart_full_iff uart_inv_def split: if_splits)
    have s': "s' = s\<lparr>uart_tx_buf := (uart_tx_buf s)[unat (uart_tx_w s) mod UART_TX_BUF_SIZE := x], uart_tx_w := uart_tx_w s + 1\<rparr>"
      using that by (auto simp: uart_put_def split: if_splits)
    have "uart_bytes s' = uart_bytes s @ [x]"
      using ring_enq [OF UART_dvd _ lt] i by (simp add: s' uart_bytes_def uart_inv_def)
    moreover from this have "unat (uart_tx_w s' - uart_tx_r s') = Suc (unat (uart_tx_w s - uart_tx_r s))"
      by (metis ring_length uart_bytes_def length_append_singleton)
    ultimately show ?thesis using i lt by (simp add: s' uart_inv_def)
  qed
  show "uart_inv s' \<and> uart_bytes s = x # uart_bytes s'" if "uart_get s = Some (x, s')"
  proof -
    have ne: "uart_tx_w s \<noteq> uart_tx_r s" and s': "x = uart_tx_buf s ! (unat (uart_tx_r s) mod UART_TX_BUF_SIZE)" "s' = s\<lparr>uart_tx_r := uart_tx_r s + 1\<rparr>"
      using that by (auto simp: uart_get_def split: if_splits)
    show ?thesis using ring_deq(1) [OF UART_dvd(1) ne, of "uart_tx_buf s"] ring_deq(2) [OF UART_dvd(1) ne] i by (auto simp: s' uart_bytes_def uart_inv_def)
  qed
qed

text \<open>What has been sent, followed by what waits to be sent.\<close>

definition written :: "'a cstate_scheme \<Rightarrow> uint8 list" where
  "written s = cons_out s @ uart_bytes (urt s)"

lemma wakeup_cstate [simp]:
  "urt (wakeup c s) = urt s" "cns (wakeup c s) = cns s" "km (wakeup c s) = km s" "upagetable (wakeup c s) = upagetable s"
  "cons_out (wakeup c s) = cons_out s"
  by (simp_all add: wakeup_eq)

lemma sleep_cstate [simp]:
  "urt (sleep c s) = urt s" "cns (sleep c s) = cns s" "km (sleep c s) = km s" "upagetable (sleep c s) = upagetable s"
  "cons_out (sleep c s) = cons_out s"
  by (simp_all add: sleep_def upd_proc_def)

lemma emit_cstate [simp]:
  "urt (emit b s) = urt s" "cns (emit b s) = cns s" "km (emit b s) = km s" "upagetable (emit b s) = upagetable s"
  "cons_out (emit b s) = cons_out s @ b" "procs (emit b s) = procs s" "myproc (emit b s) = myproc s"
  by (simp_all add: emit_def myproc_def)

lemma uartstart_ok:
  "uart_inv (urt s) \<Longrightarrow> uart_inv (urt (uartstart idle s)) \<and> written (uartstart idle s) = written s
     \<and> km (uartstart idle s) = km s \<and> upagetable (uartstart idle s) = upagetable s"
proof (induction idle arbitrary: s)
  case (Suc idle)
  show ?case
  proof (cases "uart_get (urt s)")
    case None
    then show ?thesis using Suc.prems by simp
  next
    case (Some cu)
    then obtain c u where g: "uart_get (urt s) = Some (c, u)" by (cases cu) auto
    note d = uf.deq_some [OF Suc.prems g]
    let ?t = "emit [c] (wakeup (Some ChUart_tx_r) (s\<lparr>urt := u\<rparr>))"
    have "written ?t = written s" using d by (simp add: written_def)
    then show ?thesis using Suc.IH [of ?t] d g by simp
  qed
qed simp

lemma uartputc_ok:
  assumes "uart_inv (urt s)"
  shows "case uartputc idle c s of
      None \<Rightarrow> length (uart_bytes (urt s)) = UART_TX_BUF_SIZE
    | Some t \<Rightarrow> uart_inv (urt t) \<and> written t = written s @ [c] \<and> km t = km s \<and> upagetable t = upagetable s"
proof (cases "uart_put c (urt s)")
  case None
  then show ?thesis using uf.enq_full [OF assms] by (simp add: uartputc_def)
next
  case (Some u)
  note e = uf.enq_some [OF assms Some]
  then show ?thesis using uartstart_ok [of "s\<lparr>urt := u\<rparr>" idle] Some by (simp add: uartputc_def written_def)
qed

lemma consolewrite_from_ok:
  assumes "uart_inv (urt s)" "user_bytes s src bs" "i \<le> length bs"
  shows "\<exists>r s' m. consolewrite_from idle src (length bs) i s = Ret (r, s') \<and> i \<le> m \<and> uart_inv (urt s') \<and>
      written s' = written s @ take (m - i) (drop i bs) \<and>
      (r = Returned (int (length bs)) \<and> m = length bs \<or>
       r = Waiting m \<and> m < length bs \<and> length (uart_bytes (urt s')) = UART_TX_BUF_SIZE)"
  using assms
proof (induction "length bs - i" arbitrary: i s)
  case 0
  then show ?case by (simp add: consolewrite_from.simps)
next
  case (Suc k)
  then have i: "i < length bs" by simp
  have cp: "copyin (upagetable s) (src + of_nat i) 1 (km s) = Ret (0, [bs ! i])"
    using Suc.prems(2) i by (simp add: user_bytes_def)
  show ?case
  proof (cases "uartputc (idle i) (bs ! i) s")
    case None
    then have "consolewrite_from idle src (length bs) i s = Ret (Waiting i, sleep ChUart_tx_r s)"
      using i cp by (simp add: consolewrite_from.simps [of idle src "length bs" i])
    moreover have "written (sleep ChUart_tx_r s) = written s" by (simp add: written_def)
    ultimately show ?thesis using i Suc.prems uartputc_ok [OF Suc.prems(1), of "bs ! i" "idle i"] None
      by (intro exI [of _ "Waiting i"] exI [of _ "sleep ChUart_tx_r s"] exI [of _ i]) simp
  next
    case (Some t)
    have t: "uart_inv (urt t)" "written t = written s @ [bs ! i]" "km t = km s" "upagetable t = upagetable s"
      using uartputc_ok [OF Suc.prems(1), of "bs ! i" "idle i"] Some by simp_all
    have u: "user_bytes t src bs" using Suc.prems(2) t by (simp add: user_bytes_def)
    have step: "consolewrite_from idle src (length bs) i s = consolewrite_from idle src (length bs) (i + 1) t"
      using i cp Some by (simp add: consolewrite_from.simps [of idle src "length bs" i])
    have k: "k = length bs - (i + 1)" "i + 1 \<le> length bs" using Suc.hyps(2) by simp_all
    from Suc.hyps(1) [OF k(1) t(1) u k(2)] obtain r s' m where
      w: "consolewrite_from idle src (length bs) (i + 1) t = Ret (r, s')" "i + 1 \<le> m" "uart_inv (urt s')"
        "written s' = written t @ take (m - (i + 1)) (drop (i + 1) bs)"
        "r = Returned (int (length bs)) \<and> m = length bs \<or>
         r = Waiting m \<and> m < length bs \<and> length (uart_bytes (urt s')) = UART_TX_BUF_SIZE" by blast
    have "take (m - i) (drop i bs) = bs ! i # take (m - (i + 1)) (drop (i + 1) bs)"
      using i w(2) by (simp add: Cons_nth_drop_Suc [symmetric] take_Cons')
    then show ?thesis unfolding step using w t(2) by (intro exI [of _ r] exI [of _ s'] exI [of _ m]) auto
  qed
qed

text \<open>
  C27. \<open>consolewrite\<close> of \<open>n\<close> readable user bytes: whatever the pace of the serial port, what
  has been sent to it, followed by what waits in the ring, grows by the first \<open>m\<close> bytes in
  order; \<open>m\<close> is all of them and the call returns \<open>n\<close>, or the ring is full and the call sleeps with
  that progress. Sending from the interrupt handler loses and reorders nothing.
\<close>

theorem consolewrite_in_order:
  assumes "uart_inv (urt s)" "user_bytes s src bs"
  shows "\<exists>r s' m. consolewrite idle src (int (length bs)) s = Ret (r, s') \<and>
      written s' = written s @ take m bs \<and> written (uartstart idle2 s') = written s' \<and>
      (r = Returned (int (length bs)) \<and> m = length bs \<or>
       r = Waiting m \<and> m < length bs \<and> length (uart_bytes (urt s')) = UART_TX_BUF_SIZE)"
proof -
  from consolewrite_from_ok [OF assms, of 0 idle] obtain r s' m where
    "consolewrite_from idle src (length bs) 0 s = Ret (r, s')" "uart_inv (urt s')" "written s' = written s @ take m bs"
    "r = Returned (int (length bs)) \<and> m = length bs \<or>
       r = Waiting m \<and> m < length bs \<and> length (uart_bytes (urt s')) = UART_TX_BUF_SIZE" by auto
  then show ?thesis using uartstart_ok [of s' idle2] by (auto simp: consolewrite_def)
qed

theorem consolewrite_in_order_witness:
  "\<exists>(s :: cstate) b r s' m. user_bytes s 0x1000 [b] \<and> consolewrite (\<lambda>_. 0) 0x1000 1 s = Ret (r, s') \<and>
     written s' = take m [b] \<and> written (uartstart 1 s') = written s'"
proof (rule one_page_user)
  fix k :: kmem and ps
  assume ok: "pt_ok k ps 0x80100000" "user_sep k ps 0x80100000" and w: "\<And>i. i < 4096 \<Longrightarrow> uwritable (kmem_mem k) 0x80100000 (0x1000 + of_nat i)"
  define s :: cstate where "s = undefined\<lparr>km := k, upagetable := 0x80100000, cons_out := [],
     urt := \<lparr>uart_tx_buf = replicate 32 0, uart_tx_w = 0, uart_tx_r = 0\<rparr>\<rparr>"
  have "uwritable (kmem_mem k) 0x80100000 0x1000" using w [of 0] by simp
  then obtain b where b: "ubyte (kmem_mem k) 0x80100000 0x1000 = Some b"
    using uwritable_page [OF _ ok(2)] by (auto simp: ubyte_def Let_def)
  have "copyin 0x80100000 0x1000 1 k = Ret (0, [b])"
    using copyin_usee [OF ok(1), of "0x1000" 1] b by (auto simp: usee_def)
  then have u: "user_bytes s 0x1000 [b]" by (simp add: user_bytes_def s_def)
  have inv: "uart_inv (urt s)" "written s = []"
    by (simp_all add: uart_inv_def written_def uart_bytes_def ring_contents_def s_def UART_TX_BUF_SIZE_def)
  have l: "int (length [b]) = 1" by simp
  from consolewrite_in_order [OF inv(1) u, of "\<lambda>_. 0" 1, unfolded l] obtain r s' m where
    "consolewrite (\<lambda>_. 0) 0x1000 1 s = Ret (r, s')" "written s' = written s @ take m [b]"
    "written (uartstart 1 s') = written s'" by blast
  then show ?thesis using u inv(2) by (metis append_Nil)
qed

section \<open>Input\<close>

text \<open>
  The specification of the line editing: the bytes ready to be read, and the line being
  edited. At most 128 bytes are kept; a full buffer is handed over like a finished line.
\<close>

definition line_edit :: "uint8 \<Rightarrow> uint8 list \<times> uint8 list \<Rightarrow> uint8 list \<times> uint8 list" where
  "line_edit c = (\<lambda>(ready, line).
     if c = CTRL_P \<or> c = 0 then (ready, line)
     else if c = CTRL_U then (ready, [])
     else if c = CTRL_H \<or> c = DEL then (ready, butlast line)
     else if length ready + length line \<ge> 128 then (ready, line)
     else let c = (if c = CR then NEWLINE else c); line = line @ [c] in
          if c = NEWLINE \<or> c = CTRL_D \<or> length ready + length line = 128 then (ready @ line, []) else (ready, line))"

definition cons_abs :: "cons \<Rightarrow> uint8 list \<times> uint8 list" where
  "cons_abs c = (ring_contents INPUT_BUF_SIZE (cons_buf c) (cons_r c) (cons_w c),
                 ring_contents INPUT_BUF_SIZE (cons_buf c) (cons_w c) (cons_e c))"

text \<open>The edited line never holds a newline: a newline ends it.\<close>

definition cons_inv :: "cons \<Rightarrow> bool" where
  "cons_inv c \<longleftrightarrow> length (cons_buf c) = INPUT_BUF_SIZE \<and> unat (cons_e c - cons_r c) \<le> INPUT_BUF_SIZE
     \<and> unat (cons_w c - cons_r c) \<le> unat (cons_e c - cons_r c) \<and> NEWLINE \<notin> set (snd (cons_abs c))"

lemma CONS_dvd: "INPUT_BUF_SIZE dvd 2 ^ LENGTH(32)" "INPUT_BUF_SIZE < 2 ^ LENGTH(32)"
  by (simp_all add: INPUT_BUF_SIZE_def)

abbreviation cons_all :: "cons \<Rightarrow> uint8 list" where
  "cons_all c \<equiv> ring_contents INPUT_BUF_SIZE (cons_buf c) (cons_r c) (cons_e c)"

lemma cons_abs_all:
  assumes "unat (cons_w c - cons_r c) \<le> unat (cons_e c - cons_r c)"
  shows "cons_abs c = (take (unat (cons_w c - cons_r c)) (cons_all c), drop (unat (cons_w c - cons_r c)) (cons_all c))"
  using ring_take [OF assms] ring_drop [OF CONS_dvd(1) assms] by (simp add: cons_abs_def)

lemma cons_abs_length:
  assumes "unat (cons_w c - cons_r c) \<le> unat (cons_e c - cons_r c)"
  shows "length (fst (cons_abs c)) + length (snd (cons_abs c)) = unat (cons_e c - cons_r c)"
  using assms by (simp add: cons_abs_all)

text \<open>The three ways the indices move: a step back, a character, and the end of a line.\<close>

lemma cons_back:
  assumes "cons_inv c" "cons_e c \<noteq> cons_w c"
  shows "cons_inv (c\<lparr>cons_e := cons_e c - 1\<rparr>)"
    "cons_abs (c\<lparr>cons_e := cons_e c - 1\<rparr>) = (fst (cons_abs c), butlast (snd (cons_abs c)))"
proof -
  have le: "unat (cons_w c - cons_r c) \<le> unat (cons_e c - cons_r c)" using assms(1) by (simp add: cons_inv_def)
  moreover have "unat (cons_e c - cons_w c) \<noteq> 0" using assms(2) by (simp add: unat_0_iff)
  ultimately have lt: "unat (cons_w c - cons_r c) < unat (cons_e c - cons_r c)" using ring_split_unat [OF le] by simp
  then have ne: "cons_e c \<noteq> cons_r c" by auto
  note b = ring_back [OF ne] and b2 = ring_back(1) [OF assms(2)]
  show a: "cons_abs (c\<lparr>cons_e := cons_e c - 1\<rparr>) = (fst (cons_abs c), butlast (snd (cons_abs c)))"
    by (simp add: cons_abs_def b2)
  then have "set (snd (cons_abs (c\<lparr>cons_e := cons_e c - 1\<rparr>))) \<subseteq> set (snd (cons_abs c))"
    by (auto dest: in_set_butlastD)
  then show "cons_inv (c\<lparr>cons_e := cons_e c - 1\<rparr>)"
    using assms(1) lt b(2) by (auto simp: cons_inv_def)
qed

lemma kill_line_ok: "cons_inv c \<Longrightarrow> cons_inv (snd (kill_line c)) \<and> cons_abs (snd (kill_line c)) = (fst (cons_abs c), [])"
proof (induction c rule: kill_line.induct)
  case (1 c)
  show ?case
  proof (cases "cons_e c = cons_w c")
    case True
    then show ?thesis using 1(2) by (simp add: kill_line.simps [of c] cons_abs_def ring_contents_def)
  next
    case False
    have "snd (cons_abs c) \<noteq> []" using False by (simp add: cons_abs_def ring_contents_def unat_0_iff)
    then have "last (snd (cons_abs c)) \<noteq> NEWLINE" using 1(2) by (metis cons_inv_def last_in_set)
    then have nl: "cons_buf c ! (unat (cons_e c - 1) mod INPUT_BUF_SIZE) \<noteq> NEWLINE"
      using ring_last [OF CONS_dvd(1) False, of "cons_buf c"] by (simp add: cons_abs_def)
    show ?thesis using 1(1) [OF conjI [OF False nl]] cons_back [OF 1(2) False] False nl
      by (auto simp: kill_line.simps [of c] split: prod.splits)
  qed
qed

lemma cons_store:
  fixes x :: uint8
  assumes inv: "cons_inv c" and room: "unat (cons_e c - cons_r c) < INPUT_BUF_SIZE"
  defines "d \<equiv> c\<lparr>cons_buf := (cons_buf c)[unat (cons_e c) mod INPUT_BUF_SIZE := x], cons_e := cons_e c + 1\<rparr>"
  shows "unat (cons_e d - cons_r d) = Suc (unat (cons_e c - cons_r c))" "cons_abs d = (fst (cons_abs c), snd (cons_abs c) @ [x])"
    "unat (cons_w d - cons_r d) \<le> unat (cons_e d - cons_r d)" "length (cons_buf d) = INPUT_BUF_SIZE"
proof -
  have i: "length (cons_buf c) = INPUT_BUF_SIZE" "unat (cons_w c - cons_r c) \<le> unat (cons_e c - cons_r c)"
    using inv by (simp_all add: cons_inv_def)
  have all: "cons_all d = cons_all c @ [x]" using ring_enq [OF CONS_dvd i(1) room] by (simp add: d_def)
  then show u: "unat (cons_e d - cons_r d) = Suc (unat (cons_e c - cons_r c))"
    by (metis ring_length length_append_singleton)
  then show le: "unat (cons_w d - cons_r d) \<le> unat (cons_e d - cons_r d)" using i by (simp add: d_def)
  have "unat (cons_w d - cons_r d) = unat (cons_w c - cons_r c)" by (simp add: d_def)
  then show "cons_abs d = (fst (cons_abs c), snd (cons_abs c) @ [x])"
    using i by (simp only: cons_abs_all [OF le] cons_abs_all [OF i(2)] all) simp
  show "length (cons_buf d) = INPUT_BUF_SIZE" using i by (simp add: d_def)
qed

lemma cons_finish:
  assumes "unat (cons_w c - cons_r c) \<le> unat (cons_e c - cons_r c)" "unat (cons_e c - cons_r c) \<le> INPUT_BUF_SIZE" "length (cons_buf c) = INPUT_BUF_SIZE"
  shows "cons_inv (c\<lparr>cons_w := cons_e c\<rparr>)" "cons_abs (c\<lparr>cons_w := cons_e c\<rparr>) = (fst (cons_abs c) @ snd (cons_abs c), [])"
proof -
  have "cons_abs (c\<lparr>cons_w := cons_e c\<rparr>) = (cons_all c, [])" by (simp add: cons_abs_def ring_contents_def)
  then show "cons_inv (c\<lparr>cons_w := cons_e c\<rparr>)" "cons_abs (c\<lparr>cons_w := cons_e c\<rparr>) = (fst (cons_abs c) @ snd (cons_abs c), [])"
    using assms by (simp_all add: cons_inv_def cons_abs_all [OF assms(1)])
qed

lemma consputc_cns [simp]: "cns (consputc c s) = cns s" "cns ((consputc c ^^ k) s) = cns s"
proof -
  show one: "cns (consputc c s) = cns s" for s :: "'a cstate_scheme" by (simp add: consputc_def uartputc_sync_def)
  show "cns ((consputc c ^^ k) s) = cns s" by (induction k) (simp_all add: one)
qed

lemma consoleintr_ok:
  assumes inv: "cons_inv (cns s)"
  shows "cons_inv (cns (consoleintr c s)) \<and> cons_abs (cns (consoleintr c s)) = line_edit c (cons_abs (cns s))"
proof -
  let ?k = "cns s"
  obtain ready line where a: "cons_abs ?k = (ready, line)" by (cases "cons_abs ?k")
  have le: "unat (cons_w ?k - cons_r ?k) \<le> unat (cons_e ?k - cons_r ?k)" using inv by (simp add: cons_inv_def)
  have len: "length ready + length line = unat (cons_e ?k - cons_r ?k)" using cons_abs_length [OF le] a by simp
  consider (same) "c = CTRL_P \<or> c = 0" | (kill) "c = CTRL_U" | (bs) "c = CTRL_H \<or> c = DEL"
    | (key) "c \<notin> {CTRL_P, 0, CTRL_U, CTRL_H, DEL}" by blast
  then show ?thesis
  proof cases
    case same
    then show ?thesis using inv a by (auto simp: consoleintr_def line_edit_def)
  next
    case kill
    then show ?thesis using kill_line_ok [OF inv] a by (auto simp: consoleintr_def line_edit_def split: prod.splits)
  next
    case bs
    show ?thesis
    proof (cases "cons_e ?k = cons_w ?k")
      case True
      then have "line = []" using a by (auto simp: cons_abs_def ring_contents_def)
      then show ?thesis using True bs inv a by (auto simp: consoleintr_def line_edit_def)
    next
      case False
      then show ?thesis using bs a cons_back [OF inv False] by (auto simp: consoleintr_def line_edit_def)
    qed
  next
    case key
    show ?thesis
    proof (cases "unat (cons_e ?k - cons_r ?k) < INPUT_BUF_SIZE")
      case False
      then show ?thesis using key inv a len by (auto simp: consoleintr_def line_edit_def INPUT_BUF_SIZE_def)
    next
      case True
      define x where "x = (if c = CR then NEWLINE else c)"
      define d where "d = ?k\<lparr>cons_buf := (cons_buf ?k)[unat (cons_e ?k) mod INPUT_BUF_SIZE := x], cons_e := cons_e ?k + 1\<rparr>"
      note st = cons_store [OF inv True, of x, folded d_def]
      let ?done = "x = NEWLINE \<or> x = CTRL_D \<or> unat (cons_e d - cons_r d) = INPUT_BUF_SIZE"
      have c: "cns (consoleintr c s) = (if ?done then d\<lparr>cons_w := cons_e d\<rparr> else d)"
        using key True by (simp add: consoleintr_def Let_def x_def [symmetric] d_def)
      have e: "line_edit c (ready, line) = (if ?done then (ready @ line @ [x], []) else (ready, line @ [x]))"
        using key True len st(1) by (simp add: line_edit_def Let_def x_def [symmetric] INPUT_BUF_SIZE_def)
      have "cons_inv d" if "\<not> ?done"
        using that st True inv a by (auto simp: cons_inv_def)
      then show ?thesis using cons_finish [OF st(3) _ st(4)] st(1,2) True a by (simp add: c e)
    qed
  qed
qed

text \<open>
  C12. The console's input handling implements the line editor: whatever is typed, the bytes
  ready for \<open>consoleread\<close> and the line being edited are what the specification gives, also when
  the 32-bit indices wrap around and the ring wraps in its buffer.
\<close>

theorem console_line_editor:
  assumes "cons_inv (cns s)"
  shows "cons_abs (cns (fold consoleintr keys s)) = fold line_edit keys (cons_abs (cns s)) \<and> cons_inv (cns (fold consoleintr keys s))"
  using assms by (induction keys arbitrary: s) (simp_all add: consoleintr_ok)

text \<open>Typing \<open>x\<close>, backspace, \<open>l\<close>, \<open>s\<close> and return makes the line \<open>ls\<close> ready, with indices about to wrap.\<close>

theorem console_line_editor_witness:
  "cons_abs (cns (fold consoleintr [0x78, 8, 0x6C, 0x73, 13]
     ((undefined :: cstate)\<lparr>cns := \<lparr>cons_buf = replicate 128 0, cons_r = -1, cons_w = -1, cons_e = -1\<rparr>\<rparr>))) = ([0x6C, 0x73, 10], [])"
proof -
  let ?s = "(undefined :: cstate)\<lparr>cns := \<lparr>cons_buf = replicate 128 0, cons_r = -1, cons_w = -1, cons_e = -1\<rparr>\<rparr>"
  have a: "cons_abs (cns ?s) = ([], [])" by (simp add: cons_abs_def ring_contents_def)
  have inv: "cons_inv (cns ?s)" unfolding cons_inv_def a by (simp add: INPUT_BUF_SIZE_def)
  show ?thesis using console_line_editor [OF inv, of "[0x78, 8, 0x6C, 0x73, 13]"] unfolding a by (simp add: line_edit_def)
qed

end
