(* ===== verification/Fs_Frame.thy ===== *)
theory Fs_Frame
  imports Fs
begin

text \<open>
  What the file system leaves alone: no operation on blocks, inodes, directories and paths
  changes the running process' number, page table and working directory, nor what an extension of
  the state adds (open files, pipes, processes); and none that moves no user data changes the
  physical memory. One lemma per operation, for every outcome \<open>Ret\<close>, in the collection \<open>fs_frame\<close>.
\<close>

named_theorems fs_frame \<open>what lies outside the file system is unchanged\<close>

section \<open>Buffers and the log\<close>

lemma bread_frame: "bread dev n s = Ret (b, s') \<Longrightarrow> mypid s' = mypid s \<and> bstate.more s' = bstate.more s"
  by (auto simp: bread_def bget_def lock_buf_def virtio_disk_rw_def seq_Ret_iff Let_def split: option.splits if_splits)

lemma bwrite_frame: "bwrite b s = Ret s' \<Longrightarrow> mypid s' = mypid s \<and> bstate.more s' = bstate.more s"
  by (auto simp: bwrite_def virtio_disk_rw_def Let_def split: if_splits)

lemma brelse_frame: "brelse b s = Ret s' \<Longrightarrow> mypid s' = mypid s \<and> bstate.more s' = bstate.more s"
  by (auto simp: brelse_def Let_def split: if_splits)

definition log_out :: "'a lstate_scheme \<Rightarrow> int \<times> 'a" where
  "log_out s = (mypid s, lstate.more s)"

lemma log_out_more: "mypid s' = mypid s \<Longrightarrow> bstate.more s' = bstate.more s \<Longrightarrow> log_out s' = log_out s"
  by (cases s, cases s') (simp add: log_out_def)

lemma log_out_buf [fs_frame]:
  "bread dev n s = Ret (b, s') \<Longrightarrow> log_out s' = log_out s"
  "bwrite b s = Ret s' \<Longrightarrow> log_out s' = log_out s"
  "brelse b s = Ret s' \<Longrightarrow> log_out s' = log_out s"
  by (auto dest!: bread_frame bwrite_frame brelse_frame intro: log_out_more)

lemma log_out_simps [simp]:
  "log_out (set_data b d s) = log_out s" "log_out (bpin b s) = log_out s" "log_out (bunpin b s) = log_out s"
  "log_out (s\<lparr>lh_n := n\<rparr>) = log_out s" "log_out (s\<lparr>lh_block := f\<rparr>) = log_out s"
  "log_out (s\<lparr>outstanding := n\<rparr>) = log_out s" "log_out (s\<lparr>committing := c\<rparr>) = log_out s"
  by (simp_all add: log_out_def set_data_def bpin_def bunpin_def upd_buf_def)

lemma log_out_ops [fs_frame]:
  "install_one recovering i s = Ret s' \<Longrightarrow> log_out s' = log_out s"
  "write_one i s = Ret s' \<Longrightarrow> log_out s' = log_out s"
  "write_head s = Ret s' \<Longrightarrow> log_out s' = log_out s"
  "log_write b s = Ret s' \<Longrightarrow> log_out s' = log_out s"
  "begin_op s = Ret s' \<Longrightarrow> log_out s' = log_out s"
  by (auto simp: install_one_def write_one_def write_head_def log_write_def begin_op_def seq_Ret_iff Let_def
      split: if_splits dest!: log_out_buf)

lemma log_out_foldM: "foldM f is s = Ret s' \<Longrightarrow> (\<And>i s s'. f i s = Ret s' \<Longrightarrow> log_out s' = log_out s) \<Longrightarrow> log_out s' = log_out s"
  using foldM_invariant [of f "is" s s' "\<lambda>t. log_out t = log_out s"] by auto

lemma log_out_commit [fs_frame]:
  "install_trans r s = Ret s' \<Longrightarrow> log_out s' = log_out s"
  "write_log s = Ret s' \<Longrightarrow> log_out s' = log_out s"
  unfolding install_trans_def write_log_def by (auto elim: log_out_foldM dest: log_out_ops)

lemma log_out_end_op [fs_frame]:
  "commit s = Ret s' \<Longrightarrow> log_out s' = log_out s"
  "end_op s = Ret s' \<Longrightarrow> log_out s' = log_out s"
proof -
  show c: "log_out s' = log_out s" if "commit s = Ret s'" for s s' :: "'a lstate_scheme"
    using that by (auto simp: commit_def seq_Ret_iff split: if_splits dest!: log_out_commit log_out_ops)
  show "end_op s = Ret s' \<Longrightarrow> log_out s' = log_out s"
    by (auto simp: end_op_def seq_Ret_iff Let_def split: if_splits dest!: c)
qed

section \<open>The file system\<close>

definition fs_out :: "'a fsstate_scheme \<Rightarrow> (int \<times> kmem \<times> uint64 \<times> nat) \<times> 'a" where
  "fs_out s = ((mypid s, km s, upagetable s, cwd s), fsstate.more s)"

lemma fs_out_buf [fs_frame]:
  "bread dev n s = Ret (b, s') \<Longrightarrow> fs_out s' = fs_out s \<and> itable s' = itable s \<and> sb s' = sb s"
  "bwrite b s = Ret s' \<Longrightarrow> fs_out s' = fs_out s \<and> itable s' = itable s \<and> sb s' = sb s"
  "brelse b s = Ret s' \<Longrightarrow> fs_out s' = fs_out s \<and> itable s' = itable s \<and> sb s' = sb s"
  by (cases s, cases s', auto simp: fs_out_def dest: bread_frame bwrite_frame brelse_frame)+

lemma fs_out_log_out: "log_out s' = log_out s \<Longrightarrow> fs_out s' = fs_out s \<and> itable s' = itable s \<and> sb s' = sb s"
  by (cases s, cases s') (auto simp: fs_out_def log_out_def)

lemma fs_out_log [fs_frame]:
  "log_write b s = Ret s' \<Longrightarrow> fs_out s' = fs_out s \<and> itable s' = itable s \<and> sb s' = sb s"
  "begin_op s = Ret s' \<Longrightarrow> fs_out s' = fs_out s \<and> itable s' = itable s \<and> sb s' = sb s"
  "end_op s = Ret s' \<Longrightarrow> fs_out s' = fs_out s \<and> itable s' = itable s \<and> sb s' = sb s"
  by (auto dest!: log_out_ops log_out_end_op intro!: fs_out_log_out)

lemma fs_out_simps [simp]:
  "fs_out (set_data b d s) = fs_out s" "fs_out (upd_ip ip f s) = fs_out s" "fs_out (s\<lparr>sb := x\<rparr>) = fs_out s"
  "itable (set_data b d s) = itable s" "sb (set_data b d s) = sb s"
  by (simp_all add: fs_out_def set_data_def upd_ip_def upd_buf_def)

section \<open>Frames through a function body\<close>

text \<open>\<open>kept v f m\<close>: if \<open>m\<close> returns, \<open>f\<close> of its result is \<open>v\<close>. The rules follow the shape of a function body.\<close>

definition kept :: "'o \<Rightarrow> ('x \<Rightarrow> 'o) \<Rightarrow> 'x res \<Rightarrow> bool" where
  "kept v f m \<longleftrightarrow> (\<forall>x. m = Ret x \<longrightarrow> f x = v)"

lemma kept_Ret: "f x = v \<Longrightarrow> kept v f (Ret x)"
  and kept_Panic: "kept v f (Panic msg)"
  and kept_Blocked: "kept v f Blocked"
  and kept_if: "(b \<Longrightarrow> kept v f m) \<Longrightarrow> (\<not> b \<Longrightarrow> kept v f m') \<Longrightarrow> kept v f (if b then m else m')"
  and kept_Let: "kept v f (h y) \<Longrightarrow> kept v f (Let y h)"
  and kept_prod: "(\<And>a b. p = (a, b) \<Longrightarrow> kept v f (h2 a b)) \<Longrightarrow> kept v f (case p of (a, b) \<Rightarrow> h2 a b)"
  and kept_option: "(opt = None \<Longrightarrow> kept v f m) \<Longrightarrow> (\<And>y. opt = Some y \<Longrightarrow> kept v f (h y)) \<Longrightarrow>
      kept v f (case opt of None \<Rightarrow> m | Some y \<Rightarrow> h y)"
  by (auto simp: kept_def seq_Ret_iff split: option.splits prod.splits)

lemmas kept_rules = kept_Ret kept_Panic kept_Blocked kept_if kept_Let kept_prod kept_option

lemma kept_foldM: "(\<And>i s. fs_out s = v \<Longrightarrow> kept v fs_out (f i s)) \<Longrightarrow> fs_out s = v \<Longrightarrow> kept v fs_out (foldM f is s)"
  using foldM_invariant [of f "is" s _ "\<lambda>t. fs_out t = v"] by (auto simp: kept_def)

text \<open>
  The operations that return a state, a value and a state, or two values and a state; the last
  rule is for functions that do not return a state.
\<close>

abbreviation "out1 \<equiv> fs_out"
abbreviation "out2 \<equiv> \<lambda>x. fs_out (snd x)"
abbreviation "out3 \<equiv> \<lambda>x. fs_out (snd (snd x))"

lemma kept_seq1: "kept v out1 m \<Longrightarrow> (\<And>x. out1 x = v \<Longrightarrow> kept v f (k x)) \<Longrightarrow> kept v f (seq m k)"
  by (auto simp: kept_def seq_Ret_iff)

lemma kept_seq2: "kept v out2 m \<Longrightarrow> (\<And>x. out2 x = v \<Longrightarrow> kept v f (k x)) \<Longrightarrow> kept v f (seq m k)"
  by (auto simp: kept_def seq_Ret_iff)

lemma kept_seq3: "kept v out3 m \<Longrightarrow> (\<And>x. out3 x = v \<Longrightarrow> kept v f (k x)) \<Longrightarrow> kept v f (seq m k)"
  by (auto simp: kept_def seq_Ret_iff)

lemma kept_seq0: "(\<And>x. kept v f (k x)) \<Longrightarrow> kept v f (seq m k)"
  by (auto simp: kept_def seq_Ret_iff)

lemmas kept_seq = kept_seq1 kept_seq2 kept_seq3 kept_seq0

lemma kept_buf:
  "fs_out s = v \<Longrightarrow> kept v out2 (bread dev n s)"
  "fs_out s = v \<Longrightarrow> kept v out1 (bwrite b s)"
  "fs_out s = v \<Longrightarrow> kept v out1 (brelse b s)"
  "fs_out s = v \<Longrightarrow> kept v out1 (log_write b s)"
  "fs_out s = v \<Longrightarrow> kept v out1 (begin_op s)"
  "fs_out s = v \<Longrightarrow> kept v out1 (end_op s)"
  by (auto simp: kept_def dest!: fs_out_buf fs_out_log)

lemma kept_blocks:
  "fs_out s = v \<Longrightarrow> kept v out1 (bzero dev n s)"
  "fs_out s = v \<Longrightarrow> kept v out1 (bfree dev n s)"
  "fs_out s = v \<Longrightarrow> kept v out1 (iupdate ip s)"
  unfolding bzero_def bfree_def iupdate_def
  by - ((rule kept_rules kept_seq kept_buf | simp)+)

lemma kept_balloc_from: "fs_out s = v \<Longrightarrow> kept v out2 (balloc_from sz dev b s)"
proof (induction "sz - b" arbitrary: b s rule: less_induct)
  case less
  show ?case unfolding balloc_from.simps [of sz dev b s]
    by ((rule kept_rules kept_seq kept_buf kept_blocks less.hyps | simp add: less.prems BPB_def BSIZE_def)+)
qed

lemma kept_balloc: "fs_out s = v \<Longrightarrow> kept v out2 (balloc dev s)"
  unfolding balloc_def by (rule kept_balloc_from)

lemmas kept_alloc = kept_buf kept_blocks kept_balloc

lemma kept_bmap: "fs_out s = v \<Longrightarrow> kept v out2 (bmap ip bn s)"
  unfolding bmap_def by ((rule kept_rules kept_seq kept_alloc | simp)+)

lemma kept_itrunc: "fs_out s = v \<Longrightarrow> kept v out1 (itrunc ip s)"
  unfolding itrunc_def by ((rule kept_rules kept_seq kept_alloc kept_foldM | simp)+)

lemma kept_inodes:
  "fs_out s = v \<Longrightarrow> kept v out2 (iget dev n s)"
  "fs_out s = v \<Longrightarrow> kept v out1 (ilock ip s)"
  "fs_out s = v \<Longrightarrow> kept v out1 (iunlock ip s)"
  "fs_out s = v \<Longrightarrow> kept v out1 (iput ip s)"
  unfolding iget_def ilock_def iunlock_def iput_def
  by - ((rule kept_rules kept_seq kept_alloc kept_itrunc | simp)+)

lemma kept_iunlockput: "fs_out s = v \<Longrightarrow> kept v out1 (iunlockput ip s)"
  unfolding iunlockput_def by ((rule kept_rules kept_seq kept_inodes | simp)+)

lemma kept_ialloc_from: "fs_out s = v \<Longrightarrow> kept v out2 (ialloc_from inums dev type s)"
proof (induction inums arbitrary: s)
  case (Cons i inums)
  show ?case unfolding ialloc_from.simps
    by ((rule kept_rules kept_seq kept_alloc kept_inodes Cons.IH | simp add: Cons.prems)+)
qed (simp add: kept_def)

lemma kept_ialloc: "fs_out s = v \<Longrightarrow> kept v out2 (ialloc dev type s)"
  unfolding ialloc_def by (rule kept_ialloc_from)

lemmas kept_inode_ops = kept_alloc kept_bmap kept_itrunc kept_inodes kept_iunlockput kept_ialloc

text \<open>Reading to and writing from a kernel buffer.\<close>

lemma kept_readi_loop: "fs_out s = v \<Longrightarrow> kept v out3 (readi_loop ip (ToKernel b) off n tot s)"
proof (induction "n - tot" arbitrary: off tot s b rule: less_induct)
  case less
  show ?case unfolding readi_loop.simps [of ip "ToKernel b" off n tot s] either_copyout.simps seq.simps
    by ((rule kept_rules kept_seq kept_inode_ops less.hyps | simp add: less.prems BSIZE_def)+)
qed

lemma kept_readi: "fs_out s = v \<Longrightarrow> kept v out3 (readi ip (ToKernel b) off n s)"
  unfolding readi_def by ((rule kept_rules kept_readi_loop | simp)+)

lemma kept_writei_loop: "fs_out s = v \<Longrightarrow> kept v out2 (writei_loop ip src off n tot s)"
proof (induction "n - tot" arbitrary: off tot s src rule: less_induct)
  case less
  show ?case unfolding writei_loop.simps [of ip src off n tot s]
    by ((rule kept_rules kept_seq kept_inode_ops less.hyps | simp add: less.prems BSIZE_def)+)
qed

lemma kept_writei: "fs_out s = v \<Longrightarrow> kept v out2 (writei ip src off n s)"
  unfolding writei_def by ((rule kept_rules kept_seq kept_inode_ops kept_writei_loop | simp)+)

section \<open>Directories and paths\<close>

lemma kept_read_dirent: "fs_out s = v \<Longrightarrow> kept v out2 (read_dirent dp off msg s)"
  unfolding read_dirent_def by ((rule kept_rules kept_seq kept_readi | simp)+)

lemma kept_dirlookup_from: "fs_out s = v \<Longrightarrow> kept v out2 (dirlookup_from sz off dp name s)"
proof (induction "sz - off" arbitrary: off s rule: less_induct)
  case less
  show ?case unfolding dirlookup_from.simps [of sz off dp name s]
    by ((rule kept_rules kept_seq kept_read_dirent kept_inode_ops less.hyps | simp add: less.prems)+)
qed

lemma kept_dirlink_slot: "fs_out s = v \<Longrightarrow> kept v out2 (dirlink_slot sz off dp s)"
proof (induction "sz - off" arbitrary: off s rule: less_induct)
  case less
  show ?case unfolding dirlink_slot.simps [of sz off dp s]
    by ((rule kept_rules kept_seq kept_read_dirent less.hyps | simp add: less.prems)+)
qed

lemma kept_dirs:
  "fs_out s = v \<Longrightarrow> kept v out2 (dirlookup dp name s)"
  unfolding dirlookup_def by ((rule kept_rules kept_dirlookup_from | simp)+)

lemma kept_dirlink: "fs_out s = v \<Longrightarrow> kept v out2 (dirlink dp name inum s)"
  unfolding dirlink_def by ((rule kept_rules kept_seq kept_dirs kept_dirlink_slot kept_writei kept_inode_ops | simp)+)

lemma kept_namex_loop: "fs_out s = v \<Longrightarrow> kept v out3 (namex_loop np ip path name s)"
proof (induction "length path" arbitrary: ip path name s rule: less_induct)
  case less
  show ?case unfolding namex_loop.simps [of np ip path name s]
    by ((rule kept_rules kept_seq kept_dirs kept_inode_ops less.hyps | simp add: less.prems skipelem_shorter)+)
qed

lemma idup_out [simp]: "fs_out (snd (idup ip s)) = fs_out s"
  by (simp add: idup_def)

lemma kept_paths:
  "fs_out s = v \<Longrightarrow> kept v out3 (namex path np s)"
  "fs_out s = v \<Longrightarrow> kept v out2 (namei path s)"
  "fs_out s = v \<Longrightarrow> kept v out3 (nameiparent path s)"
  unfolding namei_def nameiparent_def namex_def
  by - ((rule kept_rules kept_seq kept_namex_loop kept_inode_ops | simp)+)

lemmas kept_fs = kept_inode_ops kept_readi kept_writei kept_read_dirent kept_dirs kept_dirlink kept_paths

end
