(* ===== verification/Virtio.thy ===== *)
theory Virtio
  imports Console
begin

text \<open>
  \<^verbatim>\<open>kernel/virtio_disk.c\<close>: the disk driver. The descriptors, the two rings and the driver's
  book-keeping are the record \<open>disk\<close>; what a descriptor points to is named by the object. The
  writes to device registers are kept in order in \<open>mmio\<close>, as pairs of address and value; the
  values read from registers are arguments. The device is not modelled: what it does to the rings between
  two steps of the driver is an argument of the properties. \<open>virtio_disk_rw\<close> is in two
  halves, before and after it waits for the interrupt. Memory barriers are not modelled.
\<close>

section \<open>State\<close>

definition NUM :: nat where "NUM = 8"


text \<open>The addresses in descriptors: \<open>&disk.ops[i]\<close>, \<open>b->data\<close> and \<open>&disk.info[i].status\<close>.\<close>

datatype daddr = DNull | DOps nat | DData nat | DStatus nat

record virtq_desc =
  d_addr :: daddr
  d_len :: uint32
  d_flags :: uint16
  d_next :: uint16

record virtio_blk_req =
  rq_write :: bool
  rq_sector :: uint64

record disk =
  desc :: "nat \<Rightarrow> virtq_desc"
  avail_idx :: uint16
  avail_ring :: "nat \<Rightarrow> uint16"
  used_dev_idx :: uint16
  used_ring :: "nat \<Rightarrow> uint32"
  dfree :: "nat \<Rightarrow> bool"
  used_idx :: uint16
  info_b :: "nat \<Rightarrow> nat option"
  info_status :: "nat \<Rightarrow> uint8"
  ops :: "nat \<Rightarrow> virtio_blk_req"
  b_disk :: "nat \<Rightarrow> bool"

record vstate = cstate +
  dsk :: disk
  mmio :: "(uint64 \<times> uint32) list"

definition upd_disk :: "(disk \<Rightarrow> disk) \<Rightarrow> 'a vstate_scheme \<Rightarrow> 'a vstate_scheme" where
  "upd_disk f s = s\<lparr>dsk := f (dsk s)\<rparr>"

definition reg_write :: "uint64 \<Rightarrow> uint32 \<Rightarrow> 'a vstate_scheme \<Rightarrow> 'a vstate_scheme" where
  "reg_write a v s = s\<lparr>mmio := mmio s @ [(a, v)]\<rparr>"

definition virtio_R :: "uint64 \<Rightarrow> uint64" where
  "virtio_R r = VIRTIO0 + r"

section \<open>Initialisation\<close>

definition clear_feature :: "nat \<Rightarrow> uint64 \<Rightarrow> uint64" where
  "clear_feature n f = f AND NOT (push_bit n 1)"

text \<open>
  The device registers that are read: \<open>rd\<close> gives their values, \<open>status2\<close> the value of the status
  register when it is read again. The registers are written in the order of the two lists.
\<close>

definition virtio_disk_init :: "(uint64 \<Rightarrow> uint32) \<Rightarrow> uint32 \<Rightarrow> 'a vstate_scheme \<Rightarrow> 'a vstate_scheme res" where
  "virtio_disk_init rd status2 s =
     (if rd 0x000 \<noteq> 0x74726976 \<or> rd 0x004 \<noteq> 2 \<or> rd 0x008 \<noteq> 2 \<or> rd 0x00c \<noteq> 0x554d4551
      then Panic ''could not find virtio disk''
      else let features = fold clear_feature [5, 7, 11, 12, 27, 29, 28] (ucast (rd 0x010));
               w1 = [(0x070, 0), (0x070, 1), (0x070, 3), (0x020, ucast features), (0x070, 11), (0x030, 0)]
           in if status2 AND 8 = 0 then Panic ''virtio disk FEATURES_OK unset''
              else if rd 0x044 \<noteq> 0 then Panic ''virtio disk should not be ready''
              else if rd 0x034 = 0 then Panic ''virtio disk has no queue 0''
              else if unat (rd 0x034) < NUM then Panic ''virtio disk max queue too short''
              else case kalloc (km s) of (d, k) \<Rightarrow> case kalloc k of (a, k) \<Rightarrow> case kalloc k of (u, k) \<Rightarrow>
                if d = 0 \<or> a = 0 \<or> u = 0 then Panic ''virtio disk kalloc''
                else let k = fold (\<lambda>pg k. set_mem (memset (kmem_mem k) pg 0 (ucast PGSIZE)) k) [d, a, u] k;
                         w2 = [(0x038, of_nat NUM), (0x080, ucast d), (0x084, ucast (drop_bit 32 d)),
                               (0x090, ucast a), (0x094, ucast (drop_bit 32 a)), (0x0a0, ucast u), (0x0a4, ucast (drop_bit 32 u)),
                               (0x044, 1), (0x070, status2 OR 4)]
                     in Ret (upd_disk (\<lambda>x. x\<lparr>desc := \<lambda>_. \<lparr>d_addr = DNull, d_len = 0, d_flags = 0, d_next = 0\<rparr>,
                          avail_idx := 0, avail_ring := \<lambda>_. 0, used_dev_idx := 0, used_ring := \<lambda>_. 0,
                          dfree := \<lambda>i. i < NUM \<or> dfree x i\<rparr>)
                          (fold (\<lambda>(r, v). reg_write (virtio_R r) v) (w1 @ w2) (s\<lparr>km := k\<rparr>))))"

section \<open>Descriptors\<close>




lemma wakeup_dsk [simp]: "dsk (wakeup c s) = dsk s" "mmio (wakeup c s) = mmio s"
  by (simp_all add: wakeup_eq)

lemma upd_disk_dsk [simp]: "dsk (upd_disk f s) = f (dsk s)" "mmio (upd_disk f s) = mmio s"
  by (simp_all add: upd_disk_def)

lemma reg_write_fields [simp]:
  "dsk (reg_write a v s) = dsk s" "mmio (reg_write a v s) = mmio s @ [(a, v)]" "procs (reg_write a v s) = procs s"
  "myproc (reg_write a v s) = myproc s"
  by (simp_all add: reg_write_def myproc_def)





section \<open>Requests\<close>




lemma unat_minus_Suc_less: "b \<noteq> a \<Longrightarrow> unat (a - (b + 1)) < unat (a - b)" for a b :: "'w::len word"
  using unat_minus_one_less [of a b] by (metis diff_diff_eq add.commute)

text \<open>A completion without a buffer would write through a null pointer.\<close>

function virtio_disk_intr_loop :: "'a vstate_scheme \<Rightarrow> 'a vstate_scheme res" where
  "virtio_disk_intr_loop s =
     (let x = dsk s in
      if used_idx x \<noteq> used_dev_idx x
      then let i = unat (used_ring x (unat (used_idx x) mod NUM)) in
           if info_status x i \<noteq> 0 then Panic ''virtio_disk_intr status''
           else case info_b x i of
                  None \<Rightarrow> Panic ''kerneltrap''
                | Some b \<Rightarrow>
                    virtio_disk_intr_loop (upd_disk (\<lambda>x. x\<lparr>used_idx := used_idx x + 1\<rparr>)
                      (wakeup (Some (ChBuf b)) (upd_disk (\<lambda>x. x\<lparr>b_disk := (b_disk x)(b := False)\<rparr>) s)))
      else Ret s)"
  by auto
termination
  by (relation "measure (\<lambda>s. unat (used_dev_idx (dsk s) - used_idx (dsk s)))") (auto intro: unat_minus_Suc_less)

declare virtio_disk_intr_loop.simps [simp del]

text \<open>The interrupt is acknowledged, with the status the device shows, before the used ring is read.\<close>

definition virtio_disk_intr :: "uint32 \<Rightarrow> 'a vstate_scheme \<Rightarrow> 'a vstate_scheme res" where
  "virtio_disk_intr istat s = virtio_disk_intr_loop (reg_write (virtio_R 0x064) (istat AND 0x3) s)"

section \<open>A request from start to end\<close>

definition free_set :: "disk \<Rightarrow> nat set" where
  "free_set x = {i. i < NUM \<and> dfree x i}"

lemma finite_free_set [simp]: "finite (free_set x)"
  by (simp add: free_set_def)















end
