(* ===== verification/Sysproc.thy ===== *)
theory Sysproc
  imports Console Sha256
begin

text \<open>
  \<^verbatim>\<open>kernel/sysproc.c\<close> and the dispatch of \<^verbatim>\<open>kernel/syscall.c\<close>. What the calls take from
  outside the model is the record \<open>env\<close>: link-time addresses, the time register, the bytes a stack
  variable happens to hold, and the pace of the serial port. The calls print to \<open>cons_out\<close>.
\<close>

record env =
  env_trampoline :: uint64
  env_forkret :: uint64
  env_time :: uint64
  env_pad :: "uint8 list"
  env_ctx :: SHA256_CTX
  env_idle :: "nat \<Rightarrow> nat"

section \<open>Calls on processes\<close>

definition sys_exit :: "'a kstate_scheme \<Rightarrow> 'a kstate_scheme res" where
  "sys_exit s = seq (argint 0 s) (\<lambda>n. exit n s)"

definition sys_getpid :: "'a kstate_scheme \<Rightarrow> int" where
  "sys_getpid s = p_pid (me s)"

definition sys_fork :: "uint64 \<Rightarrow> uint64 \<Rightarrow> 'a kstate_scheme \<Rightarrow> (int \<times> 'a kstate_scheme) res" where
  "sys_fork trampoline forkret_addr s = fork trampoline forkret_addr s"

definition sys_wait :: "'a kstate_scheme \<Rightarrow> (fres \<times> 'a kstate_scheme) res" where
  "sys_wait s = seq (argaddr 0 s) (\<lambda>p. wait p s)"

definition sys_sbrk :: "'a kstate_scheme \<Rightarrow> (int \<times> 'a kstate_scheme) res" where
  "sys_sbrk s =
     seq (argint 0 s) (\<lambda>n.
     let addr = p_sz (me s) in
     seq (growproc n s) (\<lambda>(r, s). Ret (if r < 0 then -1 else uint addr, s)))"

text \<open>The loop of \<open>sys_sleep\<close> from the test on: it is entered again after each tick.\<close>

definition sys_sleep_loop :: "int \<Rightarrow> uint32 \<Rightarrow> 'a kstate_scheme \<Rightarrow> fres \<times> 'a kstate_scheme" where
  "sys_sleep_loop n ticks0 s =
     (if ticks s - ticks0 < of_int n
      then if killed (myproc s) s then (Returned (-1), s)
           else (Waiting 0, sleep ChTicks s)
      else (Returned 0, s))"

definition sys_sleep :: "'a kstate_scheme \<Rightarrow> (fres \<times> 'a kstate_scheme) res" where
  "sys_sleep s = seq (argint 0 s) (\<lambda>n. Ret (sys_sleep_loop (if n < 0 then 0 else n) (ticks s) s))"

definition sys_kill :: "'a kstate_scheme \<Rightarrow> (int \<times> 'a kstate_scheme) res" where
  "sys_kill s = seq (argint 0 s) (\<lambda>pid. Ret (kill pid s))"

definition sys_uptime :: "'a kstate_scheme \<Rightarrow> int" where
  "sys_uptime s = uint (ticks s)"

definition sys_time :: "env \<Rightarrow> int" where
  "sys_time e = uint (env_time e)"

text \<open>\<open>countpages\<close> walks the free list; on a list that does not end there is no result.\<close>

definition sys_getmem :: "'a kstate_scheme \<Rightarrow> int option" where
  "sys_getmem s = map_option (\<lambda>page_count. int page_count * 4096 div (1024 * 1024)) (countpages (km s))"

definition sys_get_sha256 :: "env \<Rightarrow> 'a kstate_scheme \<Rightarrow> (int \<times> 'a kstate_scheme) res" where
  "sys_get_sha256 e s =
     seq (argstr 0 100 s) (\<lambda>(r, input).
     if r < 0 then Ret (-1, emit (bytes_of ''Failed to retrieve input'' @ [NEWLINE]) s)
     else let hash = sha256_final (sha256_update (sha256_init (env_ctx e)) input)
          in Ret (0, emit (bytes_of ''SHA-256 hash: '' @ bytes_of (hex_output hash) @ [NEWLINE]) s))"

section \<open>Dispatch\<close>

text \<open>How a system call ends: it returns a value, the process sleeps in it, or the process has exited.\<close>

datatype sysres = SysRet uint64 | SysWait nat | SysExited

definition ret_int :: "(int \<times> 's) res \<Rightarrow> (sysres \<times> 's) res" where
  "ret_int m = seq m (\<lambda>(r, s). Ret (SysRet (of_int r), s))"

definition ret_fres :: "(fres \<times> 's) res \<Rightarrow> (sysres \<times> 's) res" where
  "ret_fres m = seq m (\<lambda>(r, s). Ret (case r of Returned i \<Rightarrow> SysRet (of_int i) | Waiting i \<Rightarrow> SysWait i, s))"

text \<open>The table \<open>syscalls\<close>, by the numbers of \<^verbatim>\<open>kernel/syscall.h\<close>; its entries are not null from 1 to 24.\<close>

definition syscalls :: "env \<Rightarrow> ('a cstate_scheme \<Rightarrow> (sysres \<times> 'a cstate_scheme) res) list" where
  "syscalls e =
    [\<lambda>s. ret_int (sys_fork (env_trampoline e) (env_forkret e) s),
     \<lambda>s. seq (sys_exit s) (\<lambda>s. Ret (SysExited, s)),
     \<lambda>s. ret_fres (sys_wait s),
     \<lambda>s. ret_int (sys_pipe s),
     \<lambda>s. ret_fres (sys_read devsw_read s),
     \<lambda>s. ret_int (sys_kill s),
     \<lambda>s. ret_int (sys_exec (env_trampoline e) s),
     \<lambda>s. ret_int (sys_fstat (env_pad e) s),
     \<lambda>s. ret_int (sys_chdir s),
     \<lambda>s. ret_int (sys_dup s),
     \<lambda>s. Ret (SysRet (of_int (sys_getpid s)), s),
     \<lambda>s. ret_int (sys_sbrk s),
     \<lambda>s. ret_fres (sys_sleep s),
     \<lambda>s. Ret (SysRet (of_int (sys_uptime s)), s),
     \<lambda>s. ret_int (sys_open s),
     \<lambda>s. ret_fres (sys_write (devsw_write (env_idle e)) s),
     \<lambda>s. ret_int (sys_mknod s),
     \<lambda>s. ret_int (sys_unlink s),
     \<lambda>s. ret_int (sys_link s),
     \<lambda>s. ret_int (sys_mkdir s),
     \<lambda>s. ret_int (sys_close s),
     \<lambda>s. Ret (SysRet (of_int (sys_time e)), s),
     \<lambda>s. (case sys_getmem s of None \<Rightarrow> Blocked | Some mb \<Rightarrow> Ret (SysRet (of_int mb), s)),
     \<lambda>s. ret_int (sys_get_sha256 e s)]"

definition unknown_call :: "int \<Rightarrow> 'a kstate_scheme \<Rightarrow> uint8 list" where
  "unknown_call num s =
     (case printf (''%d %s: unknown sys call %d'' @ [CHR 0x0A])
         [ArgInt (of_int (p_pid (me s))), ArgStr (Some (p_name (me s))), ArgInt (of_int num)] of
        None \<Rightarrow> [] | Some b \<Rightarrow> b)"

definition syscall :: "env \<Rightarrow> 'a cstate_scheme \<Rightarrow> (sysres \<times> 'a cstate_scheme) res" where
  "syscall e s =
     (let p = myproc s; num = sint (ucast (tf_get p TF_A7 s) :: uint32) in
      if num > 0 \<and> num < int (length (syscalls e :: ('a cstate_scheme \<Rightarrow> (sysres \<times> 'a cstate_scheme) res) list)) + 1
      then seq ((syscalls e ! (nat num - 1)) s) (\<lambda>(r, s).
           Ret (r, case r of SysRet v \<Rightarrow> tf_set p TF_A0 v s | _ \<Rightarrow> s))
      else Ret (SysRet (-1), tf_set p TF_A0 (-1) (emit (unknown_call num s) s)))"

end
