(* ===== verification/Trap.thy ===== *)
theory Trap
  imports Virtio Sysproc
begin

text \<open>
  \<^verbatim>\<open>kernel/trap.c\<close> and \<^verbatim>\<open>kernel/plic.c\<close>: traps from user mode and from the kernel, and the
  dispatch of device interrupts. The record \<open>hw\<close> holds what the handlers read from the hardware:
  control registers, the interrupt the controller reports, the interrupt status of the disk, and the
  serial port. The assembly of \<^verbatim>\<open>trampoline.S\<close> and \<^verbatim>\<open>kernelvec.S\<close> is not modelled, nor is
  what \<open>kerneltrap\<close> prints just before it panics: a panic ends the run and keeps no state.
\<close>

section \<open>Hardware\<close>

definition UART0_IRQ :: uint32 where "UART0_IRQ = 10"
definition VIRTIO0_IRQ :: uint32 where "VIRTIO0_IRQ = 1"
definition PLIC_SENABLE :: "uint64 \<Rightarrow> uint64" where "PLIC_SENABLE hart = PLIC + 0x2080 + hart * 0x100"
definition PLIC_SPRIORITY :: "uint64 \<Rightarrow> uint64" where "PLIC_SPRIORITY hart = PLIC + 0x201000 + hart * 0x2000"
definition PLIC_SCLAIM :: "uint64 \<Rightarrow> uint64" where "PLIC_SCLAIM hart = PLIC + 0x201004 + hart * 0x2000"
definition SSTATUS_SPP :: uint64 where "SSTATUS_SPP = push_bit 8 1"
definition SSTATUS_SPIE :: uint64 where "SSTATUS_SPIE = push_bit 5 1"
definition SSTATUS_SIE :: uint64 where "SSTATUS_SIE = push_bit 1 1"
definition SATP_SV39 :: uint64 where "SATP_SV39 = push_bit 60 8"
definition MAKE_SATP :: "uint64 \<Rightarrow> uint64" where "MAKE_SATP pagetable = SATP_SV39 OR drop_bit 12 pagetable"

record hw =
  h_scause :: uint64
  h_sepc :: uint64
  h_stval :: uint64
  h_sstatus :: uint64
  h_satp :: uint64
  h_tp :: uint64
  h_irq :: uint32
  h_istat :: uint32
  h_rx :: "uint8 list"
  h_idle :: nat

definition intr_get :: "hw \<Rightarrow> bool" where
  "intr_get h \<longleftrightarrow> h_sstatus h AND SSTATUS_SIE \<noteq> 0"

text \<open>The interrupt controller. Its registers are written like those of the disk.\<close>

definition plicinit :: "'a vstate_scheme \<Rightarrow> 'a vstate_scheme" where
  "plicinit s = reg_write (PLIC + ucast VIRTIO0_IRQ * 4) 1 (reg_write (PLIC + ucast UART0_IRQ * 4) 1 s)"

definition plicinithart :: "uint64 \<Rightarrow> 'a vstate_scheme \<Rightarrow> 'a vstate_scheme" where
  "plicinithart hart s =
     reg_write (PLIC_SPRIORITY hart) 0
       (reg_write (PLIC_SENABLE hart) (push_bit (unat UART0_IRQ) 1 OR push_bit (unat VIRTIO0_IRQ) 1) s)"

definition plic_claim :: "hw \<Rightarrow> uint32" where
  "plic_claim h = h_irq h"

definition plic_complete :: "uint32 \<Rightarrow> hw \<Rightarrow> 'a vstate_scheme \<Rightarrow> 'a vstate_scheme" where
  "plic_complete irq h s = reg_write (PLIC_SCLAIM (h_tp h)) irq s"

section \<open>The clock\<close>

definition trapinit :: "'a kstate_scheme \<Rightarrow> 'a kstate_scheme" where
  "trapinit s = s\<lparr>ticks := ticks s + 1\<rparr>"

text \<open>One round of the loop of \<open>clockintr\<close>, and the loop, which has no exit.\<close>

definition clock_tick :: "'a kstate_scheme \<Rightarrow> 'a kstate_scheme" where
  "clock_tick s = wakeup (Some ChTicks) (s\<lparr>ticks := ticks s + 1\<rparr>)"

partial_function (option) clockintr :: "'a kstate_scheme \<Rightarrow> 'a kstate_scheme option" where
  "clockintr s = clockintr (clock_tick s)"

section \<open>Device interrupts\<close>

definition EXTERNAL :: uint64 where "EXTERNAL = 0x8000000000000009"
definition TIMER :: uint64 where "TIMER = 0x8000000000000005"

text \<open>\<open>None\<close>: the function does not return.\<close>

definition devintr :: "hw \<Rightarrow> 'a vstate_scheme \<Rightarrow> (int \<times> 'a vstate_scheme) res option" where
  "devintr h s =
     (if h_scause h = EXTERNAL
      then let irq = plic_claim h in
           Some (seq (if irq = UART0_IRQ then Ret (uartintr (h_rx h) (h_idle h) s)
                      else if irq = VIRTIO0_IRQ then virtio_disk_intr (h_istat h) s
                      else if irq \<noteq> 0
                      then Ret (emit (case printf (''unexpected interrupt irq=%d'' @ [CHR 0x0A]) [ArgInt irq] of
                                        None \<Rightarrow> [] | Some b \<Rightarrow> b) s)
                      else Ret s) (\<lambda>s. Ret (1, if irq \<noteq> 0 then plic_complete irq h s else s)))
      else if h_scause h = TIMER
      then (case clockintr s of None \<Rightarrow> None | Some s \<Rightarrow> Some (Ret (2, s)))
      else Some (Ret (0, s)))"

section \<open>Traps from user mode\<close>

text \<open>The registers \<open>usertrapret\<close> leaves for the return to user mode.\<close>

record uregs =
  u_stvec :: uint64
  u_sstatus :: uint64
  u_sepc :: uint64
  u_satp :: uint64
  u_jump :: uint64

text \<open>The offsets of \<open>uservec\<close> and \<open>userret\<close> in the trampoline, and the address of \<open>usertrap\<close>, come from the linker.\<close>

record syms =
  sym_uservec :: uint64
  sym_userret :: uint64
  sym_usertrap :: uint64

definition usertrapret :: "syms \<Rightarrow> hw \<Rightarrow> 'a kstate_scheme \<Rightarrow> uregs \<times> 'a kstate_scheme" where
  "usertrapret y h s =
     (let p = myproc s;
          s = tf_set p 0 (h_satp h) s;
          s = tf_set p 8 (p_kstack (procs s p) + PGSIZE) s;
          s = tf_set p 16 (sym_usertrap y) s;
          s = tf_set p 32 (h_tp h) s
      in (\<lparr>u_stvec = TRAMPOLINE + sym_uservec y,
           u_sstatus = (h_sstatus h AND NOT SSTATUS_SPP) OR SSTATUS_SPIE,
           u_sepc = tf_get p TF_EPC s,
           u_satp = MAKE_SATP (p_pagetable (procs s p)),
           u_jump = TRAMPOLINE + sym_userret y\<rparr>, s))"

text \<open>How a trap ends: back in user mode, asleep in a system call, the process gone, or the processor given up.\<close>

datatype trapres = BackToUser uregs | Asleep | Exited | Yielded

definition do_exit :: "'a kstate_scheme \<Rightarrow> (trapres \<times> 'a kstate_scheme) res option" where
  "do_exit s = Some (seq (exit (-1) s) (\<lambda>s. Ret (Exited, s)))"

text \<open>The end of \<open>usertrap\<close>, from the second test for \<open>killed\<close> on.\<close>

definition usertrap_end :: "syms \<Rightarrow> hw \<Rightarrow> int \<Rightarrow> 'a kstate_scheme \<Rightarrow> (trapres \<times> 'a kstate_scheme) res option" where
  "usertrap_end y h which_dev s =
     (if killed (myproc s) s then do_exit s
      else if which_dev = 2 then Some (Ret (Yielded, yield s))
      else case usertrapret y h s of (u, s) \<Rightarrow> Some (Ret (BackToUser u, s)))"

definition unexpected :: "hw \<Rightarrow> int \<Rightarrow> uint8 list" where
  "unexpected h pid =
     (case printf (''usertrap(): unexpected scause 0x%lx pid=%d'' @ [CHR 0x0A]) [ArgU64 (h_scause h), ArgInt (of_int pid)] of
        None \<Rightarrow> [] | Some a \<Rightarrow> a) @
     (case printf (''            sepc=0x%lx stval=0x%lx'' @ [CHR 0x0A]) [ArgU64 (h_sepc h), ArgU64 (h_stval h)] of
        None \<Rightarrow> [] | Some a \<Rightarrow> a)"

definition usertrap :: "env \<Rightarrow> syms \<Rightarrow> hw \<Rightarrow> 'a vstate_scheme \<Rightarrow> (trapres \<times> 'a vstate_scheme) res option" where
  "usertrap e y h s =
     (if h_sstatus h AND SSTATUS_SPP \<noteq> 0 then Some (Panic ''usertrap: not from user mode'')
      else let p = myproc s; s = tf_set p TF_EPC (h_sepc h) s in
      if h_scause h = 8
      then if killed p s then do_exit s
           else (case syscall e (tf_set p TF_EPC (tf_get p TF_EPC s + 4) s) of
                   Ret (SysRet v, s) \<Rightarrow> usertrap_end y h 0 s
                 | Ret (SysWait i, s) \<Rightarrow> Some (Ret (Asleep, s))
                 | Ret (SysExited, s) \<Rightarrow> Some (Ret (Exited, s))
                 | Panic m \<Rightarrow> Some (Panic m)
                 | Blocked \<Rightarrow> Some Blocked)
      else case devintr h s of
             None \<Rightarrow> None
           | Some Blocked \<Rightarrow> Some Blocked
           | Some (Panic m) \<Rightarrow> Some (Panic m)
           | Some (Ret (which_dev, s)) \<Rightarrow>
               if which_dev \<noteq> 0 then usertrap_end y h which_dev s
               else usertrap_end y h 0 (setkilled p (emit (unexpected h (p_pid (procs s p))) s)))"

section \<open>Traps from the kernel\<close>

text \<open>The result: whether the processor was given up, and the \<open>sepc\<close> and \<open>sstatus\<close> to go back with.\<close>

definition kerneltrap :: "hw \<Rightarrow> 'a vstate_scheme \<Rightarrow> (bool \<times> uint64 \<times> uint64 \<times> 'a vstate_scheme) res option" where
  "kerneltrap h s =
     (if h_sstatus h AND SSTATUS_SPP = 0 then Some (Panic ''kerneltrap: not from supervisor mode'')
      else if intr_get h then Some (Panic ''kerneltrap: interrupts enabled'')
      else case devintr h s of
             None \<Rightarrow> None
           | Some Blocked \<Rightarrow> Some Blocked
           | Some (Panic m) \<Rightarrow> Some (Panic m)
           | Some (Ret (which_dev, s)) \<Rightarrow>
               if which_dev = 0 then Some (Panic ''kerneltrap'')
               else let y = (which_dev = 2 \<and> cur s \<noteq> None)
                    in Some (Ret (y, h_sepc h, h_sstatus h, if y then yield s else s)))"

section \<open>The trapframe as registers\<close>

lemma tf_get_set [simp]: "tf_get p off (tf_set p off v s) = v"
  by (simp add: tf_get_def tf_set_def set_mem_def)

lemma tf_get_set_other:
  assumes "8 \<le> unat (off - off')" "8 \<le> unat (off' - off)"
  shows "tf_get p off (tf_set p off' v s) = tf_get p off s"
proof -
  define d where "d = off - off'"
  have d: "8 \<le> unat d" "8 \<le> unat (- d)" using assms by (simp_all add: d_def)
  then have "d \<noteq> 0" by auto
  then have ud: "unat (- d) = 2 ^ 64 - unat d" using unat_sub_if' [of 0 d] by (simp add: unat_0_iff)
  have far: "8 \<le> unat (d + of_nat i)" if "i < 8" for i
  proof -
    have "unat d + i < 2 ^ 64" using d ud that by simp
    then have "unat (d + of_nat i) = unat d + i" using that by (simp add: unat_word_ariths)
    then show ?thesis using d by simp
  qed
  have "ld64 (st64 m (a + off') v) (a + off) = ld64 m (a + off)" for m a
  proof (rule ld64_cong)
    fix i :: nat assume "i < 8"
    have e: "a + off + of_nat i - (a + off') = d + of_nat i" by (simp add: d_def)
    show "st64 m (a + off') v (a + off + of_nat i) = m (a + off + of_nat i)"
      by (rule st64_other) (simp only: e far [OF \<open>i < 8\<close>])
  qed
  then show ?thesis by (simp add: tf_get_def tf_set_def set_mem_def)
qed

lemma tf_set_simps [simp]:
  "procs (tf_set p off v s) = procs s" "myproc (tf_set p off v s) = myproc s" "killed q (tf_set p off v s) = killed q s"
  by (simp_all add: tf_set_def myproc_def killed_def)

lemma tf_set_cons [simp]: "cons_out (tf_set p off v s) = cons_out s"
  by (simp add: tf_set_def)

lemma emit_Nil: "emit [] s = s"
  by (simp add: emit_def)

lemma emit_tf [simp]: "tf_get p off (emit b s) = tf_get p off s" "procs (emit b s) = procs s" "myproc (emit b s) = myproc s"
  by (simp_all add: tf_get_def emit_def myproc_def)

section \<open>Properties\<close>

lemma clockintr_None: "clockintr s = None"
proof (cases "clockintr s")
  case (Some t)
  have "False" by (rule clockintr.raw_induct [OF _ Some, where P = "\<lambda>_ _. False"])
  then show ?thesis ..
qed simp

text \<open>
  C22. The handler of the timer interrupt never returns: \<open>clockintr\<close> counts ticks and wakes sleepers
  for ever, so a trap from user mode for a timer interrupt neither returns to the process nor
  gives up the processor.
\<close>

theorem timer_interrupt_never_returns:
  assumes "h_scause h = TIMER" "h_sstatus h AND SSTATUS_SPP = 0"
  shows "clockintr s = None \<and> devintr h s = None \<and> usertrap e y h s = None"
proof -
  have d: "devintr h t = None" for t :: "'a vstate_scheme"
    using assms(1) by (simp add: devintr_def EXTERNAL_def TIMER_def clockintr_None)
  then show ?thesis using assms by (simp add: clockintr_None usertrap_def TIMER_def Let_def)
qed

theorem timer_interrupt_never_returns_witness:
  "devintr ((undefined :: hw)\<lparr>h_scause := TIMER, h_sstatus := 0\<rparr>) (undefined :: vstate) = None"
  using timer_interrupt_never_returns [of "(undefined :: hw)\<lparr>h_scause := TIMER, h_sstatus := 0\<rparr>" "undefined :: vstate"] by simp

text \<open>Trapframe offsets, all below the size of the trapframe, that are at least a register apart.\<close>

definition apart :: "uint64 \<Rightarrow> uint64 \<Rightarrow> bool" where
  "apart a b \<longleftrightarrow> unat a < 288 \<and> unat b < 288 \<and> (unat a + 8 \<le> unat b \<or> unat b + 8 \<le> unat a)"

lemma tf_get_apart [simp]: "apart off off' \<Longrightarrow> tf_get p off (tf_set p off' v s) = tf_get p off s"
  by (rule tf_get_set_other) (auto simp: apart_def unat_sub_if')

lemma unat_user_reg: "i < 31 \<Longrightarrow> unat (40 + 8 * of_nat i :: uint64) = 40 + 8 * i"
  by (simp add: unat_word_ariths)

lemma apart_user_reg [simp]:
  assumes "i < 31"
  shows "apart (40 + 8 * of_nat i) 0" "apart (40 + 8 * of_nat i) 8" "apart (40 + 8 * of_nat i) 16"
    "apart (40 + 8 * of_nat i) 24" "apart (40 + 8 * of_nat i) 32" "i \<noteq> 9 \<Longrightarrow> apart (40 + 8 * of_nat i) 112"
  using assms by (auto simp: apart_def unat_user_reg)

lemma apart_consts [simp]: "apart 24 0" "apart 24 8" "apart 24 16" "apart 24 32" "apart 24 112" "apart 168 24"
    "apart 112 0" "apart 112 8" "apart 112 16" "apart 112 32"
  by (simp_all add: apart_def)

lemma length_syscalls [simp]: "length (syscalls e) = 24"
  by (simp add: syscalls_def)

text \<open>The part of a trap around a system call that only leaves a value in \<open>a0\<close>.\<close>

lemma usertrap_simple_call:
  assumes h: "h_sstatus h AND SSTATUS_SPP = 0" "h_scause h = 8" and k: "\<not> killed (myproc s) s"
    and call: "syscall e (tf_set (myproc s) TF_EPC (h_sepc h + 4) (tf_set (myproc s) TF_EPC (h_sepc h) s)) =
      Ret (SysRet v, tf_set (myproc s) TF_A0 v (emit b (tf_set (myproc s) TF_EPC (h_sepc h + 4) (tf_set (myproc s) TF_EPC (h_sepc h) s))))"
  shows "\<exists>u s'. usertrap e y h s = Some (Ret (BackToUser u, s')) \<and> u_sepc u = h_sepc h + 4
     \<and> tf_get (myproc s) TF_A0 s' = v \<and> procs s' = procs s \<and> cons_out s' = cons_out s @ b
     \<and> (\<forall>i<31. i \<noteq> 9 \<longrightarrow> tf_get (myproc s) (40 + 8 * of_nat i) s' = tf_get (myproc s) (40 + 8 * of_nat i) s)"
  using h k
  by (simp add: usertrap_def call Let_def usertrap_end_def usertrapret_def killed_def) (simp add: emit_def)

text \<open>
  C21. A system call through the trap handler: \<open>getpid\<close>, and any number outside the table. The
  process goes on at the instruction after the \<open>ecall\<close>, with its process number, respectively -1, in
  \<open>a0\<close>; its other registers and the process table are unchanged. \<open>getpid\<close> prints nothing; an
  unknown number is reported on the console, with the process number, the name of the process up
  to its terminating zero and the number of the call, in decimal.
\<close>

theorem trap_getpid_or_unknown:
  assumes "h_sstatus h AND SSTATUS_SPP = 0" "h_scause h = 8" "\<not> killed (myproc s) s"
    and num: "num = sint (ucast (tf_get (myproc s) TF_A7 s) :: uint32)" "num = 11 \<or> num \<le> 0 \<or> 24 < num"
  shows "\<exists>u s'. usertrap e y h s = Some (Ret (BackToUser u, s')) \<and> u_sepc u = h_sepc h + 4
     \<and> tf_get (myproc s) TF_A0 s' = (if num = 11 then of_int (p_pid (me s)) else -1) \<and> procs s' = procs s
     \<and> cons_out s' = cons_out s @ (if num = 11 then []
         else decimal (sint (of_int (p_pid (me s)) :: uint32)) @ bytes_of '' '' @ takeWhile (\<lambda>b. b \<noteq> 0) (p_name (me s))
           @ bytes_of '': unknown sys call '' @ decimal num @ [0x0A])
     \<and> (\<forall>i<31. i \<noteq> 9 \<longrightarrow> tf_get (myproc s) (40 + 8 * of_nat i) s' = tf_get (myproc s) (40 + 8 * of_nat i) s)"
proof -
  let ?s = "tf_set (myproc s) TF_EPC (h_sepc h + 4) (tf_set (myproc s) TF_EPC (h_sepc h) s)"
  let ?b = "if num = 11 then [] else unknown_call num ?s"
  have "syscall e ?s = Ret (SysRet (if num = 11 then of_int (p_pid (me s)) else -1),
      tf_set (myproc s) TF_A0 (if num = 11 then of_int (p_pid (me s)) else -1) (emit ?b ?s))"
  proof (cases "num = 11")
    case True
    have "syscalls e ! 10 = (\<lambda>s :: 'a vstate_scheme. Ret (SysRet (of_int (sys_getpid s)), s))" by (simp add: syscalls_def)
    then show ?thesis using True num(1) by (simp add: syscall_def Let_def sys_getpid_def emit_Nil)
  next
    case False
    then have "\<not> (0 < num \<and> num < 25)" using num(2) by auto
    then show ?thesis using False by (auto simp: syscall_def Let_def simp flip: num(1))
  qed
  moreover have "?b = (if num = 11 then []
         else decimal (sint (of_int (p_pid (me s)) :: uint32)) @ bytes_of '' '' @ takeWhile (\<lambda>b. b \<noteq> 0) (p_name (me s))
           @ bytes_of '': unknown sys call '' @ decimal num @ [0x0A])"
    unfolding unknown_call_def printf_d_s_d by (simp add: num(1))
  ultimately show ?thesis using usertrap_simple_call [OF assms(1-3)] by simp
qed

theorem trap_getpid_or_unknown_witness:
  "\<exists>(s :: vstate) u s'. usertrap (undefined :: env) (undefined :: syms) ((undefined :: hw)\<lparr>h_scause := 8, h_sstatus := 0, h_sepc := 0x1000\<rparr>) s
       = Some (Ret (BackToUser u, s')) \<and> u_sepc u = 0x1004 \<and> tf_get 0 TF_A0 s' = -1
     \<and> cons_out s' = cons_out s @ bytes_of (''7 sh: unknown sys call 30'' @ [CHR 0x0A])"
proof -
  define q :: proc where "q = (undefined :: proc)\<lparr>p_pid := 7, p_killed := False, p_trapframe := 0x87000000, p_name := [0x73, 0x68, 0]\<rparr>"
  define s0 :: vstate where "s0 = (undefined :: vstate)\<lparr>cur := Some 0, procs := \<lambda>_. q\<rparr>"
  define s where "s = tf_set 0 TF_A7 30 s0"
  let ?h = "(undefined :: hw)\<lparr>h_scause := 8, h_sstatus := 0, h_sepc := 0x1000\<rparr>"
  have m: "myproc s = 0" "\<not> killed (myproc s) s" "p_pid (me s) = 7" "p_name (me s) = [0x73, 0x68, 0]"
    by (simp_all add: s_def s0_def q_def killed_def) (simp_all add: myproc_def)
  have "tf_get 0 TF_A7 s = 30" by (simp add: s_def)
  then have n: "30 = sint (ucast (tf_get (myproc s) TF_A7 s) :: uint32)" by (simp add: m)
  have d: "decimal (sint (of_int 7 :: uint32)) @ bytes_of '' '' @ takeWhile (\<lambda>b. b \<noteq> 0) [0x73, 0x68, 0]
      @ bytes_of '': unknown sys call '' @ decimal 30 @ [0x0A] = bytes_of (''7 sh: unknown sys call 30'' @ [CHR 0x0A])"
    by (simp add: decimal_def dec_nat.simps bytes_of_def of_char_def)
  show ?thesis using trap_getpid_or_unknown [OF _ _ m(2) n, of ?h undefined undefined] m d by auto
qed

end
