(* ===== verification/Kernel_Frame.thy ===== *)
theory Kernel_Frame
  imports Fs_Frame Trap
begin

text \<open>
  What system calls leave alone above the file system. The locale \<open>kernel_frame\<close> is about a property of the
  kernel's state that survives the elementary changes most calls are made of: user memory, pipes, the
  console, the file system, fields of a process other than its state and its descriptors, going to sleep,
  waking up, and freeing a dead process. Every call that opens and closes no file and creates
  and ends no process keeps such a property; \<open>console_frame\<close> adds the console's own state.
\<close>

section \<open>Preparations\<close>

definition dead :: "'a kstate_scheme \<Rightarrow> nat \<Rightarrow> bool" where
  "dead s p \<longleftrightarrow> p_state (procs s p) = UNUSED \<or> p_state (procs s p) = ZOMBIE"

lemma fs_out_kstate: "fs_out s' = fs_out s \<Longrightarrow> ftable s' = ftable s \<and> procs s' = procs s \<and> cur s' = cur s \<and> pipes s' = pipes s
    \<and> km s' = km s \<and> cwd s' = cwd s \<and> initproc s' = initproc s \<and> myproc s' = myproc s \<and> upagetable s' = upagetable s"
  by (cases s, cases s') (simp add: fs_out_def myproc_def)

text \<open>\<open>create\<close> stays within the file system.\<close>

lemma kept_create: "fs_out s = v \<Longrightarrow> kept v out2 (create path type major minor s)"
  unfolding create_def create_new_def create_fail_def add_nlink_def by ((rule kept_rules kept_seq kept_fs | simp)+)

lemma kept_open_inode: "fs_out s = v \<Longrightarrow> kept v out2 (open_inode path omode s)"
  unfolding open_inode_def by ((rule kept_rules kept_seq kept_fs kept_create | simp)+)

lemma kept_fres: "(\<And>i. r = Returned i \<Longrightarrow> kept v f (h1 i)) \<Longrightarrow> (\<And>i. r = Waiting i \<Longrightarrow> kept v f (h2 i)) \<Longrightarrow>
    kept v f (case r of Returned i \<Rightarrow> h1 i | Waiting i \<Rightarrow> h2 i)"
  by (auto split: fres.splits)

lemma kept_ftype:
  "kept v f m1 \<Longrightarrow> kept v f m2 \<Longrightarrow> kept v f m3 \<Longrightarrow> kept v f m4 \<Longrightarrow>
   kept v f (case t of FD_NONE \<Rightarrow> m1 | FD_PIPE \<Rightarrow> m2 | FD_INODE \<Rightarrow> m3 | FD_DEVICE \<Rightarrow> m4)"
  by (auto split: ftype.splits)

lemma dead_simps [simp]: "dead (s\<lparr>km := kk\<rparr>) = dead s"
  by (simp add: dead_def fun_eq_iff)

lemma wait_scan_dead: "wait_scan p s = (Some pp, b) \<Longrightarrow> dead s pp"
  by (auto simp: wait_scan_def dead_def Let_def find_Some_iff)

text \<open>The contract of a device function, for a property of the state.\<close>

definition dev_keeps :: "('a kstate_scheme \<Rightarrow> bool) \<Rightarrow> (nat \<Rightarrow> 'a kstate_scheme devfun option) \<Rightarrow> bool" where
  "dev_keeps P devsw \<longleftrightarrow> (\<forall>major h addr n s. devsw major = Some h \<longrightarrow> P s \<longrightarrow> kept True (\<lambda>x. P (snd x)) (h addr n s))"

text \<open>A system call is one of the table, or its number is unknown.\<close>

lemma syscall_step:
  assumes r: "syscall e s = Ret (r, s')"
  obtains h s1 where "h \<in> set (syscalls e)" "h s = Ret (r, s1)" "s' = (case r of SysRet v \<Rightarrow> tf_set (myproc s) TF_A0 v s1 | _ \<Rightarrow> s1)"
  | b where "r = SysRet (-1)" "s' = tf_set (myproc s) TF_A0 (-1) (emit b s)"
proof (cases "let num = sint (ucast (tf_get (myproc s) TF_A7 s) :: uint32) in
    num > 0 \<and> num < int (length (syscalls e :: ('a cstate_scheme \<Rightarrow> (sysres \<times> 'a cstate_scheme) res) list)) + 1")
  case True
  let ?n = "nat (sint (ucast (tf_get (myproc s) TF_A7 s) :: uint32)) - 1"
  have "syscalls e ! ?n \<in> set (syscalls e :: ('a cstate_scheme \<Rightarrow> (sysres \<times> 'a cstate_scheme) res) list)"
    using True by (auto simp: Let_def intro!: nth_mem)
  moreover obtain r1 s1 where "(syscalls e ! ?n) s = Ret (r1, s1)" "(r1, case r1 of SysRet v \<Rightarrow> tf_set (myproc s) TF_A0 v s1 | _ \<Rightarrow> s1) = (r, s')"
    using r True by (auto simp: syscall_def Let_def seq_Ret_iff)
  ultimately show thesis using that(1) by (metis prod.inject)
next
  case False
  then show thesis using r that(2) by (auto simp: syscall_def Let_def)
qed

section \<open>The interface\<close>

locale kernel_frame =
  fixes P :: "'a kstate_scheme \<Rightarrow> bool"
  assumes P_fs: "P s \<Longrightarrow> fs_out s' = fs_out s \<Longrightarrow> P s'"
    and P_km: "P s \<Longrightarrow> P (s\<lparr>km := kk\<rparr>)"
    and P_upagetable: "P s \<Longrightarrow> P (s\<lparr>upagetable := pt\<rparr>)"
    and P_cwd: "P s \<Longrightarrow> P (s\<lparr>cwd := c\<rparr>)"
    and P_pipe: "P s \<Longrightarrow> P (upd_pipe a pi s)"
    and P_emit: "P s \<Longrightarrow> P (emit b s)"
    and P_file: "(\<And>x. f_ref (g x) = f_ref x) \<Longrightarrow> P s \<Longrightarrow> P (upd_file f g s)"
    and P_proc: "(\<And>x. p_ofile (h x) = p_ofile x \<and> p_state (h x) = p_state x) \<Longrightarrow> P s \<Longrightarrow> P (upd_proc p h s)"
    and P_wake: "p_state (procs s p) = SLEEPING \<Longrightarrow> P s \<Longrightarrow> P (upd_proc p (p_state_update (\<lambda>_. RUNNABLE)) s)"
    and P_sleep: "P s \<Longrightarrow> P (sleep cc s)"
    and P_free: "(\<And>x. p_ofile (h x) = p_ofile x \<and> p_state (h x) = UNUSED) \<Longrightarrow> dead s p \<Longrightarrow> P s \<Longrightarrow> P (upd_proc p h s)"
begin

lemmas P_base = P_km P_upagetable P_cwd P_pipe P_emit P_file P_proc P_sleep

lemma P_tf_set: "P s \<Longrightarrow> P (tf_set p off x s)"
  by (simp add: tf_set_def P_km)

lemma P_upd_ip: "P s \<Longrightarrow> P (upd_ip ip h s)"
  by (erule P_fs) simp

lemma P_wakeup: "P s \<Longrightarrow> P (wakeup c s)"
proof -
  have "P s \<Longrightarrow> P (fold (wake_one c) ps s)" for ps
    by (induction ps arbitrary: s) (simp_all add: wake_one_def P_wake)
  then show "P s \<Longrightarrow> P (wakeup c s)" by (simp add: wakeup_def)
qed

lemmas P_simps = P_base P_tf_set P_upd_ip P_wakeup

abbreviation (input) "P2 \<equiv> \<lambda>x. P (snd x)"
abbreviation (input) "P3 \<equiv> \<lambda>x. P (snd (snd x))"

lemma k_seq1: "kept True P m \<Longrightarrow> (\<And>x. P x \<Longrightarrow> kept True f (kk x)) \<Longrightarrow> kept True f (seq m kk)"
  by (auto simp: kept_def seq_Ret_iff)

lemma k_seq2: "kept True P2 m \<Longrightarrow> (\<And>x. P (snd x) \<Longrightarrow> kept True f (kk x)) \<Longrightarrow> kept True f (seq m kk)"
  by (auto simp: kept_def seq_Ret_iff)

lemma k_seq3: "kept True P3 m \<Longrightarrow> (\<And>x. P (snd (snd x)) \<Longrightarrow> kept True f (kk x)) \<Longrightarrow> kept True f (seq m kk)"
  by (auto simp: kept_def seq_Ret_iff)

lemmas k_seq = k_seq1 k_seq2 k_seq3 kept_seq0

lemma k_fs1: "kept (fs_out s) out1 m \<Longrightarrow> P s \<Longrightarrow> kept True P m"
  by (auto simp: kept_def elim: P_fs)

lemma k_fs2: "kept (fs_out s) out2 m \<Longrightarrow> P s \<Longrightarrow> kept True P2 m"
  by (auto simp: kept_def elim: P_fs)

lemma k_fs3: "kept (fs_out s) out3 m \<Longrightarrow> P s \<Longrightarrow> kept True P3 m"
  by (auto simp: kept_def elim: P_fs)

lemmas k_fs = k_fs1 k_fs2 k_fs3

subsection \<open>The file system\<close>

lemma k_end_op_ret: "P s \<Longrightarrow> kept True P2 (end_op_ret r s)"
  unfolding end_op_ret_def by ((rule kept_rules k_seq | (rule k_fs, rule kept_fs, rule refl) | simp add: P_simps)+)

lemma k_sys_link: "P s \<Longrightarrow> kept True P2 (sys_link s)"
  unfolding sys_link_def sys_link_bad_def add_nlink_def
  by ((rule kept_rules k_seq k_end_op_ret | (rule k_fs, rule kept_fs, rule refl) | simp add: P_simps)+)

lemma k_isdirempty_from: "P s \<Longrightarrow> kept True P2 (isdirempty_from sz off dp s)"
proof (induction "sz - off" arbitrary: off s rule: less_induct)
  case less
  show ?case unfolding isdirempty_from.simps [of sz off dp s]
    by ((rule kept_rules k_seq less.hyps | (rule k_fs, rule kept_fs, rule refl) | simp add: P_simps less.prems)+)
qed

lemma k_sys_unlink: "P s \<Longrightarrow> kept True P2 (sys_unlink s)"
  unfolding sys_unlink_def sys_unlink_bad_def unlink_entry_def isdirempty_def add_nlink_def
  by ((rule kept_rules k_seq k_end_op_ret k_isdirempty_from | (rule k_fs, rule kept_fs, rule refl) | simp add: P_simps)+)

lemma k_sys_mk:
  "P s \<Longrightarrow> kept True P2 (sys_mkdir s)"
  "P s \<Longrightarrow> kept True P2 (sys_mknod s)"
  "P s \<Longrightarrow> kept True P2 (sys_chdir s)"
  unfolding sys_mkdir_def sys_mknod_def sys_chdir_def
  by - ((rule kept_rules k_seq k_end_op_ret | (rule k_fs, rule kept_fs kept_create, rule refl) | simp add: P_simps)+)

lemma k_sys_fstat: "P s \<Longrightarrow> kept True P2 (sys_fstat pd s)"
  unfolding sys_fstat_def filestat_def by ((rule kept_rules k_seq | (rule k_fs, rule kept_fs, rule refl) | simp add: P_simps)+)

subsection \<open>Memory and exec\<close>

lemma k_sys_sbrk: "P s \<Longrightarrow> kept True P2 (sys_sbrk s)"
  unfolding sys_sbrk_def growproc_def by ((rule kept_rules k_seq | simp add: P_simps)+)

lemma k_loadseg_loop: "P s \<Longrightarrow> kept True P2 (loadseg_loop pt va ip off sz i s)"
proof (induction "sz - i" arbitrary: i s rule: less_induct)
  case less
  show ?case unfolding loadseg_loop.simps [of pt va ip off sz i s]
    by ((rule kept_rules k_seq less.hyps | (rule k_fs, rule kept_fs, rule refl) | simp add: P_simps less.prems PGSIZE_def)+)
qed

lemma k_exec_load: "P s \<Longrightarrow> kept True P3 (exec_load n ip pt off sz s)"
proof (induction n arbitrary: off sz s)
  case (Suc n)
  show ?case unfolding exec_load.simps loadseg_def
    by ((rule kept_rules k_seq k_loadseg_loop Suc.IH | (rule k_fs, rule kept_fs, rule refl) | simp add: P_simps Suc.prems)+)
qed (simp add: kept_def)

lemma k_exec: "P s \<Longrightarrow> kept True P2 (exec tr path argv s)"
  unfolding exec_def exec_bad_def exec_stack_def exec_commit_def
  by ((rule kept_rules k_seq k_exec_load | (rule k_fs, rule kept_fs, rule refl) | simp add: P_simps)+)

lemma k_fetch_argv: "P s \<Longrightarrow> kept True P3 (fetch_argv n uargv pages argv s)"
proof (induction n arbitrary: pages argv s)
  case (Suc n)
  show ?case unfolding fetch_argv.simps by ((rule kept_rules k_seq Suc.IH | simp add: P_simps Suc.prems)+)
qed (simp add: kept_def)

lemma k_sys_exec: "P s \<Longrightarrow> kept True P2 (sys_exec tr s)"
  unfolding sys_exec_def free_pages_def by ((rule kept_rules k_seq k_fetch_argv k_exec | simp add: P_simps)+)

subsection \<open>Reading and writing\<close>

lemma k_either_copyout: "P s \<Longrightarrow> kept True P3 (either_copyout dst src s)"
proof (cases dst)
  case (ToUser va)
  assume "P s"
  then show ?thesis unfolding ToUser either_copyout.simps by - ((rule kept_rules k_seq | simp add: P_simps)+)
qed (simp add: kept_def)

lemma k_readi_loop: "P s \<Longrightarrow> kept True P3 (readi_loop ip dst off n tot s)"
proof (induction "n - tot" arbitrary: off tot s dst rule: less_induct)
  case less
  show ?case unfolding readi_loop.simps [of ip dst off n tot s]
    by ((rule kept_rules k_seq k_either_copyout less.hyps | (rule k_fs, rule kept_fs, rule refl) | simp add: P_simps less.prems BSIZE_def)+)
qed

lemma k_readi: "P s \<Longrightarrow> kept True P3 (readi ip dst off n s)"
  unfolding readi_def by ((rule kept_rules k_readi_loop | simp add: P_simps)+)

lemma k_piperead_loop: "P s \<Longrightarrow> kept True P3 (piperead_loop addr n i pi s)"
proof (induction "n - i" arbitrary: i pi s rule: less_induct)
  case less
  show ?case unfolding piperead_loop.simps [of addr n i pi s]
    by ((rule kept_rules k_seq less.hyps | simp add: P_simps less.prems)+)
qed

lemma k_piperead: "P s \<Longrightarrow> kept True P3 (piperead kl addr n pi s)"
  unfolding piperead_def by ((rule kept_rules k_seq k_piperead_loop | simp add: P_simps)+)

lemma k_wake_or_sleep:
  "P s \<Longrightarrow> P (case r of Waiting i \<Rightarrow> sleep c1 s | Returned i \<Rightarrow> if i = -1 then s else wakeup c2 s)"
  "P s \<Longrightarrow> P (case r of Waiting i \<Rightarrow> sleep c1 (wakeup c2 s) | Returned i \<Rightarrow> if i = -1 then s else wakeup c2 s)"
  by (auto simp: P_simps split: fres.splits)

lemma k_dev_call:
  assumes "dev_keeps P devsw" "P s" "devfun devsw major = Some h"
  shows "kept True P2 (h addr n s)"
  using assms by (auto simp: dev_keeps_def devfun_def split: if_splits)

lemma k_fileread:
  assumes d: "dev_keeps P devsw" and s: "P s"
  shows "kept True P2 (fileread devsw f addr n s)"
  unfolding fileread_def
  by ((rule kept_rules kept_ftype k_seq k_readi k_piperead k_dev_call [OF d] | (rule k_fs, rule kept_fs, rule refl)
      | simp add: P_simps s k_wake_or_sleep)+)

lemma k_filewrite_loop: "P s \<Longrightarrow> kept True P2 (filewrite_loop f addr n i s)"
proof (induction "n - i" arbitrary: i s rule: less_induct)
  case less
  show ?case unfolding filewrite_loop.simps [of f addr n i s]
    by ((rule kept_rules k_seq less.hyps | (rule k_fs, rule kept_fs, rule refl) | simp add: P_simps less.prems write_max_eq)+)
qed

lemma k_filewrite:
  assumes d: "dev_keeps P devsw" and s: "P s"
  shows "kept True P2 (filewrite devsw f addr n s)"
  unfolding filewrite_def
  by ((rule kept_rules kept_ftype k_seq k_filewrite_loop k_dev_call [OF d]
      | simp add: P_simps s k_wake_or_sleep)+)

lemma k_sys_rw:
  assumes d: "dev_keeps P devsw" and s: "P s"
  shows "kept True P2 (sys_read devsw s)" "kept True P2 (sys_write devsw s)"
  unfolding sys_read_def sys_write_def
  by - ((rule kept_rules k_seq k_fileread [OF d] k_filewrite [OF d] | simp add: P_simps s)+)

subsection \<open>Processes\<close>

lemma k_sys_small:
  "P s \<Longrightarrow> kept True P2 (sys_kill s)"
  "P s \<Longrightarrow> kept True P2 (sys_sleep s)"
  "P s \<Longrightarrow> kept True P2 (sys_get_sha256 e s)"
proof -
  have k: "P s \<Longrightarrow> P (snd (kill pid s))" for pid
    by (auto simp: kill_def Let_def P_wake P_simps split: option.splits)
  show "P s \<Longrightarrow> kept True P2 (sys_kill s)" unfolding sys_kill_def by ((rule kept_rules k_seq | simp add: P_simps k)+)
  show "P s \<Longrightarrow> kept True P2 (sys_sleep s)"
    unfolding sys_sleep_def sys_sleep_loop_def by ((rule kept_rules k_seq | simp add: P_simps)+)
  show "P s \<Longrightarrow> kept True P2 (sys_get_sha256 e s)"
    unfolding sys_get_sha256_def by ((rule kept_rules k_seq | simp add: P_simps)+)
qed

text \<open>Freeing a dead process leaves it dead.\<close>

lemma k_freeproc:
  assumes "P s" "dead s p"
  shows "kept True P (freeproc p s)"
  unfolding freeproc_def by ((rule kept_rules k_seq P_free | simp add: P_simps assms)+)

lemma k_wait:
  assumes s: "P s"
  shows "kept True P2 (wait addr s)"
proof (cases "wait_scan (myproc s) s")
  case (Pair z b)
  show ?thesis
  proof (cases z)
    case None
    then show ?thesis using Pair s by (simp add: wait_def kept_def Let_def P_simps split: if_splits)
  next
    case (Some pp)
    then have d: "dead s pp" using Pair wait_scan_dead by blast
    show ?thesis unfolding wait_def Pair Some Let_def prod.case option.case
      by ((rule kept_rules k_seq k_freeproc | simp add: P_simps s d)+)
  qed
qed

lemma k_sys_wait: "P s \<Longrightarrow> kept True P2 (sys_wait s)"
  unfolding sys_wait_def by ((rule kept_rules k_seq k_wait | simp add: P_simps)+)

end

section \<open>The console as a device\<close>

locale console_frame = kernel_frame P for P :: "'a cstate_scheme \<Rightarrow> bool" +
  assumes P_cns: "P s \<Longrightarrow> P (s\<lparr>cns := c1\<rparr>)"
    and P_urt: "P s \<Longrightarrow> P (s\<lparr>urt := c2\<rparr>)"
begin

lemma k_uartstart: "P s \<Longrightarrow> P (uartstart idle s)"
proof (induction idle arbitrary: s)
  case (Suc idle)
  then show ?case by (cases "uart_get (urt s)") (auto simp: Suc P_urt P_simps)
qed simp

lemma k_uartputc: "P s \<Longrightarrow> uartputc idle c s = Some s' \<Longrightarrow> P s'"
  by (auto simp: uartputc_def k_uartstart P_urt P_simps split: option.splits)

lemma k_consolewrite_from: "P s \<Longrightarrow> kept True P2 (consolewrite_from idle src n i s)"
proof (induction "n - i" arbitrary: i s rule: less_induct)
  case less
  show ?case unfolding consolewrite_from.simps [of idle src n i s]
    by ((rule kept_rules k_seq less.hyps | simp add: P_simps less.prems | (erule k_uartputc [rotated], simp add: less.prems))+)
qed

lemma k_consoleread_from: "P s \<Longrightarrow> kept True P2 (consoleread_from dst n i s)"
proof (induction "n - i" arbitrary: i s rule: less_induct)
  case less
  show ?case unfolding consoleread_from.simps [of dst n i s]
    by ((rule kept_rules k_seq less.hyps | simp add: P_simps less.prems P_cns)+)
qed

lemma k_console: "dev_keeps P devsw_read" "dev_keeps P (devsw_write idle)"
  by (auto simp: dev_keeps_def devsw_read_def devsw_write_def consoleread_def consolewrite_def
      k_consoleread_from k_consolewrite_from)

end

end
