(* ===== verification/File_Refs.thy ===== *)
theory File_Refs
  imports Kernel_Frame "HOL-Library.Multiset"
begin

text \<open>
  The reference counts of open files: the count of every entry of the file table is the number of
  descriptors that point to it, over all processes, and a process that is unused or a zombie has no
  descriptor. Every system call keeps this. The calls that change no descriptor are
  handled by the rules of theory \<open>Fs_Frame\<close>, for the projection \<open>fd_out\<close>.
\<close>

section \<open>The invariant\<close>

definition fd_count :: "(nat \<Rightarrow> nat option list) \<Rightarrow> nat \<Rightarrow> nat" where
  "fd_count ofile f = (\<Sum>p<NPROC. count (mset (ofile p)) (Some f))"

text \<open>What the invariant depends on.\<close>

definition fd_out :: "'a kstate_scheme \<Rightarrow> (nat \<Rightarrow> int) \<times> (nat \<Rightarrow> nat option list) \<times> (nat \<Rightarrow> bool) \<times> nat option" where
  "fd_out s = ((\<lambda>f. f_ref (ftable s f)), (\<lambda>p. p_ofile (procs s p)), dead s, cur s)"

text \<open>
  \<open>refs_bal ex\<close>: the count of every file is the number of its descriptors and \<open>ex\<close>, the references
  that a call holds for a while; a descriptor names an entry of the table, and a dead process has none.
\<close>

definition refs_bal :: "(nat \<Rightarrow> int) \<Rightarrow> (nat \<Rightarrow> int) \<times> (nat \<Rightarrow> nat option list) \<times> (nat \<Rightarrow> bool) \<times> nat option \<Rightarrow> bool" where
  "refs_bal ex = (\<lambda>(ref, ofile, dd, c).
     (\<forall>p<NPROC. length (ofile p) = NOFILE \<and> (\<forall>i<NOFILE. \<forall>f. ofile p ! i = Some f \<longrightarrow> f < NFILE \<and> \<not> dd p)) \<and>
     (\<forall>f<NFILE. ref f = int (fd_count ofile f) + ex f))"

definition refs_ok :: "'a kstate_scheme \<Rightarrow> bool" where
  "refs_ok s \<longleftrightarrow> refs_bal (\<lambda>_. 0) (fd_out s)"

text \<open>The process that runs is in the table and not dead.\<close>

definition cur_live :: "'a kstate_scheme \<Rightarrow> bool" where
  "cur_live s \<longleftrightarrow> (\<exists>p<NPROC. cur s = Some p \<and> \<not> dead s p)"

lemma refs_ok_fd_out: "fd_out s' = fd_out s \<Longrightarrow> refs_ok s' = refs_ok s \<and> cur_live s' = cur_live s"
  by (auto simp: refs_ok_def fd_out_def cur_live_def)

lemma fd_out_fs: "fs_out s' = fs_out s \<Longrightarrow> fd_out s' = fd_out s"
  by (auto simp: fd_out_def dead_def fun_eq_iff dest!: fs_out_kstate)

section \<open>Steps that change no descriptor\<close>

lemma fd_out_simps [simp]:
  "fd_out (s\<lparr>km := kk\<rparr>) = fd_out s" "fd_out (upd_pipe a pi s) = fd_out s" "fd_out (tf_set p off x s) = fd_out s"
  "fd_out (emit b s) = fd_out s" "fd_out (s\<lparr>upagetable := pt\<rparr>) = fd_out s" "fd_out (s\<lparr>cwd := c\<rparr>) = fd_out s"
  by (simp_all add: fd_out_def dead_def upd_pipe_def tf_set_def emit_def fun_eq_iff)

lemma fd_out_cstate [simp]: "fd_out (s\<lparr>cns := c1\<rparr>) = fd_out s" "fd_out (s\<lparr>urt := c2\<rparr>) = fd_out s"
  by (simp_all add: fd_out_def dead_def fun_eq_iff)

lemma fd_out_upd_ip [simp]: "fd_out (upd_ip ip h s) = fd_out s"
  by (rule fd_out_fs) simp

lemma fd_out_upd_file [simp]: "(\<And>x. f_ref (g x) = f_ref x) \<Longrightarrow> fd_out (upd_file f g s) = fd_out s"
  by (auto simp: fd_out_def upd_file_def dead_def fun_eq_iff)

lemma fd_out_upd_proc [simp]:
  "(\<And>x. p_ofile (g x) = p_ofile x \<and> p_state (g x) = p_state x) \<Longrightarrow> fd_out (upd_proc p g s) = fd_out s"
  by (auto simp: fd_out_def upd_proc_def dead_def fun_eq_iff)

lemma fd_out_wakeup [simp]: "fd_out (wakeup c s) = fd_out s"
  by (auto simp: fd_out_def wakeup_eq dead_def fun_eq_iff)

lemma fd_out_sleep: "\<not> dead s (myproc s) \<Longrightarrow> fd_out (sleep c s) = fd_out s"
  by (auto simp: fd_out_def sleep_def upd_proc_def dead_def fun_eq_iff)

text \<open>The current process is not dead; a property of \<open>fd_out\<close>.\<close>

definition live :: "(nat \<Rightarrow> int) \<times> (nat \<Rightarrow> nat option list) \<times> (nat \<Rightarrow> bool) \<times> nat option \<Rightarrow> bool" where
  "live v \<longleftrightarrow> (case v of (_, _, dd, c) \<Rightarrow> \<not> dd (case c of Some p \<Rightarrow> p | None \<Rightarrow> NPROC))"

lemma fd_out_sleep_live: "live v \<Longrightarrow> fd_out s = v \<Longrightarrow> fd_out (sleep c s) = v"
  using fd_out_sleep [of s c] by (auto simp: live_def fd_out_def myproc_def)

abbreviation "fd1 \<equiv> fd_out"
abbreviation "fd2 \<equiv> \<lambda>x. fd_out (snd x)"
abbreviation "fd3 \<equiv> \<lambda>x. fd_out (snd (snd x))"

lemma fd_seq1: "kept v fd1 m \<Longrightarrow> (\<And>x. fd1 x = v \<Longrightarrow> kept v f (kk x)) \<Longrightarrow> kept v f (seq m kk)"
  by (auto simp: kept_def seq_Ret_iff)

lemma fd_seq2: "kept v fd2 m \<Longrightarrow> (\<And>x. fd2 x = v \<Longrightarrow> kept v f (kk x)) \<Longrightarrow> kept v f (seq m kk)"
  by (auto simp: kept_def seq_Ret_iff)

lemma fd_seq3: "kept v fd3 m \<Longrightarrow> (\<And>x. fd3 x = v \<Longrightarrow> kept v f (kk x)) \<Longrightarrow> kept v f (seq m kk)"
  by (auto simp: kept_def seq_Ret_iff)

lemmas fd_seq = fd_seq1 fd_seq2 fd_seq3 kept_seq0

lemma fd_fs1: "kept (fs_out s) out1 m \<Longrightarrow> fd_out s = v \<Longrightarrow> kept v fd1 m"
  by (auto simp: kept_def dest!: fd_out_fs)

lemma fd_fs2: "kept (fs_out s) out2 m \<Longrightarrow> fd_out s = v \<Longrightarrow> kept v fd2 m"
  by (auto simp: kept_def dest!: fd_out_fs)

lemma fd_fs3: "kept (fs_out s) out3 m \<Longrightarrow> fd_out s = v \<Longrightarrow> kept v fd3 m"
  by (auto simp: kept_def dest!: fd_out_fs)

lemmas fd_fs = fd_fs1 fd_fs2 fd_fs3

lemma fd_end_op_ret: "fd_out s = v \<Longrightarrow> kept v fd2 (end_op_ret r s)"
  unfolding end_op_ret_def by ((rule kept_rules fd_seq | (rule fd_fs, rule kept_fs, rule refl) | simp)+)

text \<open>The frame of the calls that change no descriptor.\<close>

interpretation fdk: console_frame "\<lambda>s :: 'a cstate_scheme. fd_out s = v \<and> live v" for v
proof
  fix s :: "'a cstate_scheme" and p
  assume "p_state (procs s p) = SLEEPING" "fd_out s = v \<and> live v"
  then show "fd_out (upd_proc p (p_state_update (\<lambda>_. RUNNABLE)) s) = v \<and> live v"
    by (auto simp: fd_out_def dead_def upd_proc_def fun_eq_iff)
next
  fix s :: "'a cstate_scheme" and p and h :: "proc \<Rightarrow> proc"
  assume "\<And>x. p_ofile (h x) = p_ofile x \<and> p_state (h x) = UNUSED" "dead s p" "fd_out s = v \<and> live v"
  then show "fd_out (upd_proc p h s) = v \<and> live v"
    by (auto simp: fd_out_def dead_def upd_proc_def fun_eq_iff)
qed (auto simp: fd_out_sleep_live dest: fd_out_fs)

section \<open>Steps that change descriptors\<close>

type_synonym fdv = "(nat \<Rightarrow> int) \<times> (nat \<Rightarrow> nat option list) \<times> (nat \<Rightarrow> bool) \<times> nat option"

definition ref_add :: "nat \<Rightarrow> int \<Rightarrow> fdv \<Rightarrow> fdv" where
  "ref_add f d = (\<lambda>(ref, ofile, dd, c). (ref(f := ref f + d), ofile, dd, c))"

definition fd_put :: "nat \<Rightarrow> nat \<Rightarrow> nat option \<Rightarrow> fdv \<Rightarrow> fdv" where
  "fd_put p i x = (\<lambda>(ref, ofile, dd, c). (ref, ofile(p := (ofile p)[i := x]), dd, c))"

definition set_dead :: "nat \<Rightarrow> bool \<Rightarrow> fdv \<Rightarrow> fdv" where
  "set_dead p b = (\<lambda>(ref, ofile, dd, c). (ref, ofile, dd(p := b), c))"

definition fd_at :: "fdv \<Rightarrow> nat \<Rightarrow> nat \<Rightarrow> nat option" where
  "fd_at = (\<lambda>(ref, ofile, dd, c) p i. ofile p ! i)"

definition is_dead :: "fdv \<Rightarrow> nat \<Rightarrow> bool" where
  "is_dead = (\<lambda>(ref, ofile, dd, c). dd)"

lemmas fdv_defs = ref_add_def fd_put_def set_dead_def fd_at_def is_dead_def

subsection \<open>What they do to the balance\<close>

lemma refs_bal_cong: "refs_bal ex v \<Longrightarrow> (\<And>f. f < NFILE \<Longrightarrow> ex f = ex' f) \<Longrightarrow> refs_bal ex' v"
  by (auto simp: refs_bal_def)

lemma refs_bal_ref_add: "refs_bal ex v \<Longrightarrow> refs_bal (\<lambda>g. ex g + (if g = f then d else 0)) (ref_add f d v)"
  by (auto simp: refs_bal_def fdv_defs)

lemma fd_count_put:
  assumes p: "p < NPROC" and i: "i < length (ofile p)"
  shows "int (fd_count (ofile(p := (ofile p)[i := x])) f)
    = int (fd_count ofile f) + (if x = Some f then 1 else 0) - (if ofile p ! i = Some f then 1 else 0)"
proof -
  have fin: "finite {..<NPROC}" "p \<in> {..<NPROC}" using p by auto
  have m: "ofile p ! i = Some f \<Longrightarrow> 0 < count (mset (ofile p)) (Some f)"
    using i by (metis count_greater_zero_iff nth_mem set_mset_mset)
  have c: "int (count (mset ((ofile p)[i := x])) (Some f))
      = int (count (mset (ofile p)) (Some f)) + (if x = Some f then 1 else 0) - (if ofile p ! i = Some f then 1 else 0)"
    using i m by (auto simp: mset_update of_nat_diff Suc_le_eq simp del: count_mset_gt_0 count_greater_zero_iff)
  let ?n = "\<lambda>o2. \<Sum>q\<in>{..<NPROC} - {p}. count (mset (o2 q)) (Some f)"
  have r: "fd_count o2 f = count (mset (o2 p)) (Some f) + ?n o2" for o2
    unfolding fd_count_def by (rule sum.remove [OF fin])
  have "?n (ofile(p := (ofile p)[i := x])) = ?n ofile" by (rule sum.cong) auto
  then show ?thesis using c by (simp add: r)
qed

lemma refs_bal_put:
  assumes b: "refs_bal ex v" and p: "p < NPROC" and i: "i < NOFILE" and x: "\<And>f. x = Some f \<Longrightarrow> f < NFILE \<and> \<not> is_dead v p"
  shows "refs_bal (\<lambda>g. ex g - (if x = Some g then 1 else 0) + (if fd_at v p i = Some g then 1 else 0)) (fd_put p i x v)"
proof -
  obtain ref ofile dd c where v: "v = (ref, ofile, dd, c)" by (cases v)
  have l: "length (ofile p) = NOFILE" using b p by (simp add: v refs_bal_def)
  show ?thesis using b p i l x
    by (auto simp: v refs_bal_def fdv_defs fd_count_put nth_list_update)
qed

lemma refs_bal_set_dead:
  "refs_bal ex v \<Longrightarrow> (b \<Longrightarrow> p < NPROC \<Longrightarrow> \<forall>i<NOFILE. fd_at v p i = None) \<Longrightarrow> refs_bal ex (set_dead p b v)"
  by (auto simp: refs_bal_def fdv_defs split: if_splits)

lemma refs_bal_fd_at: "refs_bal ex v \<Longrightarrow> p < NPROC \<Longrightarrow> i < NOFILE \<Longrightarrow> fd_at v p i = Some f \<Longrightarrow> f < NFILE \<and> \<not> is_dead v p"
  by (auto simp: refs_bal_def fdv_defs)

lemma refs_bal_dead: "refs_bal ex v \<Longrightarrow> p < NPROC \<Longrightarrow> i < NOFILE \<Longrightarrow> is_dead v p \<Longrightarrow> fd_at v p i = None"
  using refs_bal_fd_at [of ex v p i] by (cases "fd_at v p i") auto

subsection \<open>The functions\<close>

lemma filealloc_cases:
  assumes "filealloc s = (r, s')"
  shows "r = None \<and> s' = s \<or> (\<exists>f<NFILE. r = Some f \<and> fd_out s' = ref_add f 1 (fd_out s))"
  using assms
  by (auto simp: filealloc_def fd_out_def fdv_defs upd_file_def dead_def fun_eq_iff find_Some_iff split: option.splits)

lemma fdalloc_cases:
  assumes "fdalloc f s = (fd, s')"
  shows "fd = -1 \<and> s' = s \<or> (\<exists>i<NOFILE. fd = int i \<and> fd_at (fd_out s) (myproc s) i = None
    \<and> fd_out s' = fd_put (myproc s) i (Some f) (fd_out s))"
  using assms
  by (auto simp: fdalloc_def fd_out_def fdv_defs dead_def fun_eq_iff find_Some_iff split: option.splits)

lemma fd_clear_fd: "fd_out (clear_fd i s) = fd_put (myproc s) i None (fd_out s)"
  by (auto simp: clear_fd_def fd_out_def fdv_defs dead_def fun_eq_iff)

lemma fd_filedup: "kept (ref_add f 1 (fd_out s)) fd2 (filedup f s)"
  by (auto simp: kept_def filedup_def fd_out_def fdv_defs upd_file_def dead_def fun_eq_iff)

lemma fd_pipeclose_page: "fd_out s = v \<Longrightarrow> kept v fd1 (pipeclose_page pi w s)"
  unfolding pipeclose_page_def by ((rule kept_rules fd_seq | simp)+)

lemma fd_fileclose: "kept (ref_add f (-1) (fd_out s)) fd1 (fileclose f s)"
proof -
  let ?v = "ref_add f (-1) (fd_out s)"
  have 1: "fd_out (upd_file f (f_ref_update (\<lambda>r. r - 1)) s) = ?v"
    by (simp add: fd_out_def fdv_defs upd_file_def dead_def fun_eq_iff)
  have 2: "fd_out (upd_file f (\<lambda>x. x\<lparr>f_ref := 0, f_type := FD_NONE\<rparr>) (upd_file f (f_ref_update (\<lambda>r. r - 1)) s)) = ?v"
    if "\<not> f_ref (ftable s f) < 1" "\<not> 0 < f_ref (ftable (upd_file f (f_ref_update (\<lambda>r. r - 1)) s) f)"
    using that by (auto simp: fd_out_def fdv_defs upd_file_def dead_def fun_eq_iff)
  show ?thesis unfolding fileclose_def
    by ((rule kept_rules fd_seq fd_pipeclose_page | (rule fd_fs, rule kept_fs, rule refl) | simp add: 1 2)+)
qed

section \<open>System calls that change descriptors\<close>

text \<open>Process \<open>p\<close> runs, is not dead, and the counts are balanced.\<close>

definition fd_inv :: "nat \<Rightarrow> fdv \<Rightarrow> bool" where
  "fd_inv p v \<longleftrightarrow> refs_bal (\<lambda>_. 0) v \<and> p < NPROC \<and> \<not> is_dead v p \<and> snd (snd (snd v)) = Some p"

lemma fd_inv_iff: "refs_ok s \<and> cur_live s \<longleftrightarrow> (\<exists>p. fd_inv p (fd_out s))"
  by (auto simp: fd_inv_def refs_ok_def cur_live_def is_dead_def fd_out_def)

definition fd_cur :: "fdv \<Rightarrow> nat" where
  "fd_cur v = (case snd (snd (snd v)) of Some p \<Rightarrow> p | None \<Rightarrow> NPROC)"

lemma myproc_fd_out: "myproc s = fd_cur (fd_out s)"
  by (simp add: fd_cur_def fd_out_def myproc_def)

lemma fd_inv_cur: "fd_inv p v \<Longrightarrow> fd_cur v = p"
  by (simp add: fd_inv_def fd_cur_def)

lemma fd_inv_myproc: "fd_inv p (fd_out s) \<Longrightarrow> myproc s = p"
  by (simp add: myproc_fd_out fd_inv_cur)

lemma fd_cur_simps [simp]:
  "fd_cur (ref_add f d v) = fd_cur v" "fd_cur (fd_put p i x v) = fd_cur v" "fd_cur (set_dead p b v) = fd_cur v"
  by (cases v, simp add: fdv_defs fd_cur_def)+

lemma fd_inv_live: "fd_inv p v \<Longrightarrow> live v"
  by (auto simp: fd_inv_def live_def is_dead_def split: prod.splits option.splits)

lemma fdv_cancel:
  "ref_add f (-1) (ref_add f 1 v) = v"
  "ref_add g (-1) (ref_add f (-1) (ref_add g 1 (ref_add f 1 v))) = v"
  "fd_at v p i = None \<Longrightarrow> fd_put p i None (fd_put p i x v) = v"
  "set_dead p a (set_dead p b v) = set_dead p a v" "is_dead v p = a \<Longrightarrow> set_dead p a v = v"
  by (cases v, auto simp: fdv_defs fun_eq_iff list_update_same_conv; metis list_update_id)+

lemma fdv_comm:
  "ref_add f d (fd_put p i x v) = fd_put p i x (ref_add f d v)"
  "i \<noteq> j \<Longrightarrow> fd_put p i x (fd_put p j y v) = fd_put p j y (fd_put p i x v)"
  by (cases v, auto simp: fdv_defs fun_eq_iff list_update_swap)+

lemma fdv_at [simp]:
  "fd_at (ref_add f d v) = fd_at v" "is_dead (ref_add f d v) = is_dead v" "is_dead (fd_put p i x v) = is_dead v"
  "fd_at (set_dead q b v) = fd_at v" "is_dead (set_dead q b v) = (is_dead v)(q := b)"
  by (cases v, simp add: fdv_defs)+

lemma fd_inv_open:
  assumes v: "fd_inv p v" and n: "fd_at v q i = None" and i: "i < NOFILE" and f: "f < NFILE" and q: "q < NPROC" "\<not> is_dead v q"
  shows "fd_inv p (fd_put q i (Some f) (ref_add f 1 v))"
proof -
  have "refs_bal (\<lambda>g. 0 + (if g = f then 1 else 0)) (ref_add f 1 v)"
    by (rule refs_bal_ref_add) (use v in \<open>simp add: fd_inv_def\<close>)
  then have "refs_bal (\<lambda>_. 0) (fd_put q i (Some f) (ref_add f 1 v))"
    by (rule refs_bal_cong [OF refs_bal_put [OF _ q(1) i, where x = "Some f"]]) (use n f q in auto)
  then show ?thesis using v by (cases v) (simp add: fd_inv_def fdv_defs)
qed

lemma fd_inv_close:
  assumes v: "fd_inv p v" and n: "fd_at v p i = Some f" and i: "i < NOFILE"
  shows "fd_inv p (fd_put p i None (ref_add f (-1) v))"
proof -
  have p: "p < NPROC" using v by (simp add: fd_inv_def)
  have "refs_bal (\<lambda>g. 0 + (if g = f then -1 else 0)) (ref_add f (-1) v)"
    by (rule refs_bal_ref_add) (use v in \<open>simp add: fd_inv_def\<close>)
  then have "refs_bal (\<lambda>_. 0) (fd_put p i None (ref_add f (-1) v))"
    by (rule refs_bal_cong [OF refs_bal_put [OF _ p i, where x = None]]) (use n in auto)
  then show ?thesis using v by (cases v) (simp add: fd_inv_def fdv_defs)
qed

lemmas fileclose_fd = fd_fileclose [unfolded kept_def, rule_format]
lemmas filedup_fd = fd_filedup [unfolded kept_def, rule_format]

lemma argfd_at:
  assumes "argfd n s = Ret (Some (fd, f))"
  shows "fd < NOFILE \<and> fd_at (fd_out s) (myproc s) fd = Some f"
  using assms by (auto simp: argfd_def seq_Ret_iff fd_out_def fd_at_def split: if_splits option.splits)

lemma refs_sys_dup:
  assumes v: "fd_inv p (fd_out s)" and r: "sys_dup s = Ret (x, s')"
  shows "fd_inv p (fd_out s')"
proof -
  obtain q where q: "argfd 0 s = Ret q" using r by (auto simp: sys_dup_def seq_Ret_iff)
  show ?thesis
  proof (cases q)
    case None
    then show ?thesis using v r q by (simp add: sys_dup_def)
  next
    case (Some a)
    obtain fd f where a: "a = (fd, f)" by (cases a)
    then have at: "fd < NOFILE" "fd_at (fd_out s) p fd = Some f" using argfd_at q Some fd_inv_myproc [OF v] by blast+
    have f: "f < NFILE" "p < NPROC" "\<not> is_dead (fd_out s) p" using v at refs_bal_fd_at unfolding fd_inv_def by blast+
    obtain n s1 where n: "fdalloc f s = (n, s1)" by (cases "fdalloc f s")
    from fdalloc_cases [OF n] show ?thesis
    proof (elim disjE exE conjE)
      assume "n = -1" "s1 = s"
      then show ?thesis using v r q Some a n by (simp add: sys_dup_def)
    next
      fix i assume i: "i < NOFILE" "n = int i" "fd_at (fd_out s) (myproc s) i = None"
        "fd_out s1 = fd_put (myproc s) i (Some f) (fd_out s)"
      then obtain y where "filedup f s1 = Ret (y, s')" using r q Some a n by (auto simp: sys_dup_def seq_Ret_iff)
      then have "fd_out s' = ref_add f 1 (fd_put p i (Some f) (fd_out s))" using filedup_fd i fd_inv_myproc [OF v] by fastforce
      then show ?thesis using fd_inv_open v i f fd_inv_myproc [OF v] by (simp add: fdv_comm)
    qed
  qed
qed

lemma refs_sys_close:
  assumes v: "fd_inv p (fd_out s)" and r: "sys_close s = Ret (x, s')"
  shows "fd_inv p (fd_out s')"
proof -
  obtain q where q: "argfd 0 s = Ret q" using r by (auto simp: sys_close_def seq_Ret_iff)
  show ?thesis
  proof (cases q)
    case None
    then show ?thesis using v r q by (simp add: sys_close_def)
  next
    case (Some a)
    obtain fd f where a: "a = (fd, f)" by (cases a)
    then have at: "fd < NOFILE" "fd_at (fd_out s) p fd = Some f" using argfd_at q Some fd_inv_myproc [OF v] by blast+
    have "fileclose f (clear_fd fd s) = Ret s'" using r q Some a by (auto simp: sys_close_def seq_Ret_iff)
    from fileclose_fd [OF this] show ?thesis
      using fd_inv_close [OF v at(2,1)] by (simp add: fd_clear_fd fdv_comm fd_inv_myproc [OF v])
  qed
qed

subsection \<open>open\<close>

lemma fd_open_bad: "fd_out s = v \<Longrightarrow> kept v fd2 (open_bad ip s)"
  unfolding open_bad_def by ((rule kept_rules fd_seq fd_end_op_ret | (rule fd_fs, rule kept_fs, rule refl) | simp)+)

lemmas keptD = kept_def [THEN iffD1, rule_format]

lemma refs_open_file:
  assumes v: "fd_inv p (fd_out s)" and r: "open_file ip om s = Ret (x, s')"
  shows "fd_inv p (fd_out s')"
proof -
  obtain q s1 where q: "filealloc s = (q, s1)" by (cases "filealloc s")
  from filealloc_cases [OF this] show ?thesis
  proof (elim disjE exE conjE)
    assume "q = None" "s1 = s"
    then have "open_bad ip s = Ret (x, s')" using r q by (simp add: open_file_def)
    from keptD [OF fd_open_bad [OF refl] this] show ?thesis using v by simp
  next
    fix f assume f: "f < NFILE" "q = Some f" "fd_out s1 = ref_add f 1 (fd_out s)"
    then have my: "myproc s1 = p" using v by (simp add: myproc_fd_out fd_inv_cur)
    obtain fd s2 where d: "fdalloc f s1 = (fd, s2)" by (cases "fdalloc f s1")
    from fdalloc_cases [OF this] show ?thesis
    proof (elim disjE exE conjE)
      assume fd: "fd = -1" "s2 = s1"
      then have c: "seq (fileclose f s1) (open_bad ip) = Ret (x, s')" using r q f d by (simp add: open_file_def)
      then obtain s3 where "fileclose f s1 = Ret s3" "open_bad ip s3 = Ret (x, s')" by (auto simp: seq_Ret_iff)
      from fileclose_fd [OF this(1)] keptD [OF fd_open_bad [OF refl] this(2)]
      show ?thesis using v f by (simp add: fdv_cancel)
    next
      fix i assume i: "i < NOFILE" "fd = int i" "fd_at (fd_out s1) (myproc s1) i = None"
        "fd_out s2 = fd_put (myproc s1) i (Some f) (fd_out s1)"
      have "kept (fd_out s2) fd2 (open_file ip om s)"
        unfolding open_file_def q f(2) d i(2) prod.case option.case
        by ((rule kept_rules fd_seq fd_end_op_ret | (rule fd_fs, rule kept_fs, rule refl) | simp)+)
      then have o: "fd_out s' = fd_out s2" using keptD r by fastforce
      have "fd_inv p (fd_put p i (Some f) (ref_add f 1 (fd_out s)))"
        by (rule fd_inv_open) (use v i f my in \<open>auto simp: fd_inv_def\<close>)
      then show ?thesis using i f o my by simp
    qed
  qed
qed

lemma refs_sys_open:
  assumes v: "fd_inv p (fd_out s)" and r: "sys_open s = Ret (x, s')"
  shows "fd_inv p (fd_out s')"
proof -
  have bad: "fd_inv p (fd_out s')" if "open_bad ip s2 = Ret (x, s')" "fd_out s2 = fd_out s" for ip s2
    using keptD [OF fd_open_bad [OF refl] that(1)] that v by simp
  have fil: "fd_inv p (fd_out s')" if "open_file ip om s2 = Ret (x, s')" "fd_out s2 = fd_out s" for ip om s2
    using refs_open_file [OF _ that(1)] that v by simp
  have op: "fd_out s1 = fd_out s" if "begin_op s = Ret s1" for s1
    using fs_out_log(2) [OF that] fd_out_fs by blast
  have ino: "fd_out s2 = fd_out s" if "begin_op s = Ret s1" "open_inode path om s1 = Ret (y, s2)" for s1 s2 path om y
    using keptD [OF fd_fs2 [OF kept_open_inode [OF refl] refl] that(2)] op [OF that(1)] by simp
  show ?thesis using r v
    by (auto simp: sys_open_def seq_Ret_iff Let_def split: if_splits option.splits dest: ino intro: bad fil)
qed

subsection \<open>pipe\<close>

lemma pipealloc_bad_fd:
  "pipealloc_bad None None s = Ret (x, s') \<Longrightarrow> x = None \<and> fd_out s' = fd_out s"
  "pipealloc_bad (Some f0) None s = Ret (x, s') \<Longrightarrow> x = None \<and> fd_out s' = ref_add f0 (-1) (fd_out s)"
  "pipealloc_bad (Some f0) (Some f1) s = Ret (x, s') \<Longrightarrow> x = None \<and> fd_out s' = ref_add f1 (-1) (ref_add f0 (-1) (fd_out s))"
  by (auto simp: pipealloc_bad_def seq_Ret_iff dest!: fileclose_fd)

lemma pipealloc_fd:
  assumes r: "pipealloc s = Ret (got, s')"
  shows "got = None \<and> fd_out s' = fd_out s \<or>
    (\<exists>f0<NFILE. \<exists>f1<NFILE. got = Some (f0, f1) \<and> fd_out s' = ref_add f1 1 (ref_add f0 1 (fd_out s)))"
proof -
  obtain q0 s0 where a0: "filealloc s = (q0, s0)" by (cases "filealloc s")
  obtain q1 s1 where a1: "filealloc s0 = (q1, s1)" by (cases "filealloc s0")
  obtain pi kk where k: "kalloc (km s1) = (pi, kk)" by (cases "kalloc (km s1)")
  show ?thesis using filealloc_cases [OF a0]
  proof (elim disjE exE conjE)
    assume "q0 = None" "s0 = s"
    then show ?thesis using r a0 pipealloc_bad_fd(1) by (auto simp: pipealloc_def)
  next
    fix f0 assume f0: "f0 < NFILE" "q0 = Some f0" "fd_out s0 = ref_add f0 1 (fd_out s)"
    show ?thesis using filealloc_cases [OF a1]
    proof (elim disjE exE conjE)
      assume "q1 = None" "s1 = s0"
      then have "pipealloc_bad (Some f0) None s0 = Ret (got, s')" using r a0 f0 a1 by (simp add: pipealloc_def)
      from pipealloc_bad_fd(2) [OF this] show ?thesis using f0 by (simp add: fdv_cancel)
    next
      fix f1 assume f1: "f1 < NFILE" "q1 = Some f1" "fd_out s1 = ref_add f1 1 (fd_out s0)"
      show ?thesis
      proof (cases "pi = 0")
        case True
        then have "pipealloc_bad (Some f0) (Some f1) (s1\<lparr>km := kk\<rparr>) = Ret (got, s')"
          using r a0 f0 a1 f1 k by (simp add: pipealloc_def)
        from pipealloc_bad_fd(3) [OF this] show ?thesis using f0 f1 by (simp add: fdv_cancel)
      next
        case False
        then show ?thesis using r a0 f0 a1 f1 k by (auto simp: pipealloc_def Let_def)
      qed
    qed
  qed
qed

lemma close_both_fd: "close_both f0 f1 s = Ret (x, s') \<Longrightarrow> fd_out s' = ref_add f1 (-1) (ref_add f0 (-1) (fd_out s))"
  by (auto simp: close_both_def seq_Ret_iff dest!: fileclose_fd)

lemma close_both_restores:
  assumes "close_both f0 f1 s = Ret (x, s')" "fd_out s = ref_add f1 1 (ref_add f0 1 v)"
  shows "fd_out s' = v"
  using close_both_fd [OF assms(1)] assms(2) by (simp add: fdv_cancel)

lemma clear_both_fd:
  assumes s: "fd_out s = fd_put p j (Some f1) (fd_put p i (Some f0) v)"
    and ij: "fd_at v p i = None" "fd_at v p j = None" "i \<noteq> j" and p: "fd_cur v = p"
  shows "fd_out (clear_fd j (clear_fd i s)) = v"
  using ij p by (simp add: fd_clear_fd myproc_fd_out s fdv_cancel fdv_comm(2) [of i j])

lemma fd_inv_pipe:
  assumes v: "fd_inv p v" and i: "i < NOFILE" "j < NOFILE" "i \<noteq> j" and n: "fd_at v p i = None" "fd_at v p j = None"
    and f: "f0 < NFILE" "f1 < NFILE"
  shows "fd_inv p (fd_put p j (Some f1) (fd_put p i (Some f0) (ref_add f1 1 (ref_add f0 1 v))))"
proof -
  have p: "p < NPROC" "\<not> is_dead v p" using v by (simp_all add: fd_inv_def)
  have "fd_inv p (fd_put p i (Some f0) (ref_add f0 1 v))" by (rule fd_inv_open) (use v p i n f in auto)
  then have "fd_inv p (fd_put p j (Some f1) (ref_add f1 1 (fd_put p i (Some f0) (ref_add f0 1 v))))"
    by (rule fd_inv_open) (use v p i n f in \<open>auto simp: fdv_defs split: prod.splits\<close>)
  then show ?thesis by (simp add: fdv_comm(1))
qed

lemma fd_at_put: "fd_at (fd_put p i (Some f) v) p j = None \<Longrightarrow> i < NOFILE \<Longrightarrow> refs_bal ex v \<Longrightarrow> p < NPROC \<Longrightarrow>
    i \<noteq> j \<and> fd_at v p j = None"
  by (cases v) (auto simp: fdv_defs nth_list_update refs_bal_def split: if_splits)

lemma refs_sys_pipe:
  assumes v: "fd_inv p (fd_out s)" and r: "sys_pipe s = Ret (x, s')"
  shows "fd_inv p (fd_out s')"
proof -
  have p: "p < NPROC" "refs_bal (\<lambda>_. 0) (fd_out s)" using v by (simp_all add: fd_inv_def)
  obtain a got s1 where a: "argaddr 0 s = Ret a" and g: "pipealloc s = Ret (got, s1)"
    using r by (auto simp: sys_pipe_def seq_Ret_iff)
  show ?thesis using pipealloc_fd [OF g]
  proof (elim disjE exE conjE)
    assume "got = None" "fd_out s1 = fd_out s"
    then show ?thesis using r v a g by (simp add: sys_pipe_def)
  next
    fix f0 f1 assume f: "f0 < NFILE" "f1 < NFILE" "got = Some (f0, f1)" "fd_out s1 = ref_add f1 1 (ref_add f0 1 (fd_out s))"
    then have my: "myproc s1 = p" using v by (simp add: myproc_fd_out fd_inv_cur)
    have bal: "refs_bal (\<lambda>g. 0 + (if g = f0 then 1 else 0) + (if g = f1 then 1 else 0)) (fd_out s1)"
      unfolding f(4) by (intro refs_bal_ref_add p(2))
    obtain fd0 s2 where d0: "fdalloc f0 s1 = (fd0, s2)" by (cases "fdalloc f0 s1")
    show ?thesis using fdalloc_cases [OF d0]
    proof (elim disjE exE conjE)
      assume "fd0 = -1" "s2 = s1"
      then have "close_both f0 f1 s1 = Ret (x, s')" using r a g f d0 by (simp add: sys_pipe_def)
      from close_both_restores [OF this f(4)] show ?thesis using v by simp
    next
      fix i assume i: "i < NOFILE" "fd0 = int i" "fd_at (fd_out s1) (myproc s1) i = None"
        "fd_out s2 = fd_put (myproc s1) i (Some f0) (fd_out s1)"
      then have n: "fd_at (fd_out s) p i = None" and my2: "myproc s2 = p" using f my by (simp_all add: myproc_fd_out)
      obtain fd1 s3 where d1: "fdalloc f1 s2 = (fd1, s3)" by (cases "fdalloc f1 s2")
      show ?thesis using fdalloc_cases [OF d1]
      proof (elim disjE exE conjE)
        assume "fd1 = -1" "s3 = s2"
        then have c: "close_both f0 f1 (clear_fd i s2) = Ret (x, s')" using r a g f d0 i d1 by (simp add: sys_pipe_def)
        have "fd_out (clear_fd i s2) = fd_out s1" using i n my my2 f by (simp add: fd_clear_fd fdv_cancel)
        with close_both_restores [OF c] show ?thesis using v f by simp
      next
        fix j assume j: "j < NOFILE" "fd1 = int j" "fd_at (fd_out s2) (myproc s2) j = None"
          "fd_out s3 = fd_put (myproc s2) j (Some f1) (fd_out s2)"
        then have nj: "i \<noteq> j \<and> fd_at (fd_out s1) p j = None"
          using fd_at_put [OF _ i(1) bal p(1), of f0 j] i my my2 by simp
        have s3: "fd_out s3 = fd_put p j (Some f1) (fd_put p i (Some f0) (ref_add f1 1 (ref_add f0 1 (fd_out s))))"
          using i j f my my2 by simp
        have c: "fd_out (clear_fd j (clear_fd i (s3\<lparr>km := kk\<rparr>))) = ref_add f1 1 (ref_add f0 1 (fd_out s))" for kk
          by (rule clear_both_fd [where p = p and ?f0.0 = f0 and ?f1.0 = f1]) (use s3 n nj my f in \<open>simp_all add: myproc_fd_out\<close>)
        have "fd_out s' = fd_out s \<or> fd_out s' = fd_out s3"
          using r a g f d0 i d1 j by (auto simp: sys_pipe_def seq_Ret_iff Let_def split: if_splits dest: close_both_restores [OF _ c])
        then show ?thesis using v fd_inv_pipe [OF v i(1) j(1)] nj n f s3 by auto
      qed
    qed
  qed
qed

subsection \<open>fork\<close>

lemma fd_freeproc_dead: "kept (set_dead p True (fd_out s)) fd1 (freeproc p s)"
proof -
  have "fd_out (upd_proc p (\<lambda>x. x\<lparr>p_trapframe := 0, p_pagetable := 0, p_sz := 0, p_pid := 0, p_parent := None,
            p_name := (p_name x)[0 := 0], p_chan := None, p_killed := False, p_xstate := 0, p_state := UNUSED\<rparr>)
          (s\<lparr>km := kk\<rparr>)) = set_dead p True (fd_out s)" for kk
    by (auto simp: fd_out_def dead_def upd_proc_def set_dead_def fun_eq_iff)
  then show ?thesis unfolding freeproc_def by - ((rule kept_rules kept_seq0 | simp)+)
qed

lemma allocproc_fd:
  assumes "allocproc tr fr s = Ret (q, s')"
  shows "q = None \<and> fd_out s' = fd_out s \<or>
    (\<exists>np<NPROC. q = Some np \<and> is_dead (fd_out s) np \<and> fd_out s' = set_dead np False (fd_out s))"
proof (cases "find (\<lambda>p. p_state (procs s p) = UNUSED) [0..<NPROC]")
  case None
  then show ?thesis using assms by (simp add: allocproc_def)
next
  case (Some np)
  then have np: "np < NPROC" "is_dead (fd_out s) np" by (auto simp: find_Some_iff is_dead_def fd_out_def dead_def)
  have u: "fd_out (upd_proc np (\<lambda>x. x\<lparr>p_pid := pid, p_state := USED\<rparr>) (s\<lparr>nextpid := n\<rparr>)) = set_dead np False (fd_out s)" for pid n
    by (auto simp: fd_out_def dead_def upd_proc_def set_dead_def fun_eq_iff)
  have fr: "fd_out s2 = fd_out s" if "freeproc np s1 = Ret s2" "fd_out s1 = set_dead np False (fd_out s)" for s1 s2
    using keptD [OF fd_freeproc_dead that(1)] that(2) np by (simp add: fdv_cancel)
  show ?thesis using assms np
    by (auto simp: allocproc_def Some allocpid_def Let_def seq_Ret_iff u split: prod.splits if_splits dest!: fr)
qed

lemma refs_dup_files:
  assumes "foldM (\<lambda>i s. case p_ofile (me s) ! i of None \<Rightarrow> Ret s
       | Some f \<Rightarrow> seq (filedup f s) (\<lambda>(f, s). Ret (upd_proc np (\<lambda>x. x\<lparr>p_ofile := (p_ofile x)[i := Some f]\<rparr>) s))) ks s = Ret s'"
    and "fd_inv p (fd_out s)" "np < NPROC" "np \<noteq> p" "\<not> is_dead (fd_out s) np"
    and "distinct ks" "\<forall>i\<in>set ks. i < NOFILE \<and> fd_at (fd_out s) np i = None"
  shows "fd_inv p (fd_out s') \<and> is_dead (fd_out s') = is_dead (fd_out s)"
  using assms
proof (induction ks arbitrary: s)
  case (Cons i ks)
  have me: "p_ofile (me s) ! i = fd_at (fd_out s) p i"
    using fd_inv_myproc [OF Cons.prems(2)] by (simp add: fd_at_def fd_out_def)
  show ?case
  proof (cases "fd_at (fd_out s) p i")
    case None
    then show ?thesis using Cons me by simp
  next
    case (Some f)
    have f: "f < NFILE" using Some Cons.prems(2,7) refs_bal_fd_at [of _ "fd_out s" p i f] by (auto simp: fd_inv_def)
    obtain g s1 where d: "filedup f s = Ret (g, s1)" using Cons.prems(1) me Some by (auto simp: seq_Ret_iff)
    then have g: "g = f" by (auto simp: filedup_def split: if_splits)
    let ?s = "upd_proc np (\<lambda>x. x\<lparr>p_ofile := (p_ofile x)[i := Some f]\<rparr>) s1"
    have o: "fd_out ?s = fd_put np i (Some f) (ref_add f 1 (fd_out s))"
      using filedup_fd [OF d] by (auto simp: fd_out_def fd_put_def ref_add_def dead_def fun_eq_iff)
    have v: "fd_inv p (fd_out ?s)" unfolding o by (rule fd_inv_open) (use Cons.prems f in auto)
    have at: "\<forall>j\<in>set ks. j < NOFILE \<and> fd_at (fd_out ?s) np j = None"
      using Cons.prems(6,7) unfolding o by (auto simp: fdv_defs split: prod.splits) (metis nth_list_update_neq)
    show ?thesis using Cons.IH [OF _ v _ _ _ _ at] Cons.prems me Some d g by (simp add: o)
  qed
qed simp

lemma fd_inv_set_dead:
  "fd_inv p v \<Longrightarrow> q \<noteq> p \<Longrightarrow> fd_inv p (set_dead q False v)"
  "fd_inv p v \<Longrightarrow> q \<noteq> p \<Longrightarrow> \<forall>i<NOFILE. fd_at v q i = None \<Longrightarrow> fd_inv p (set_dead q True v)"
  by (auto simp: fd_inv_def intro!: refs_bal_set_dead) (auto simp: set_dead_def split: prod.splits)

lemma refs_fork:
  assumes v: "fd_inv p (fd_out s)" and r: "fork tr fr s = Ret (x, s')"
  shows "fd_inv p (fd_out s')"
proof -
  obtain q s1 where a: "allocproc tr fr s = Ret (q, s1)" using r by (auto simp: fork_def seq_Ret_iff)
  show ?thesis using allocproc_fd [OF a]
  proof (elim disjE exE conjE)
    assume "q = None" "fd_out s1 = fd_out s"
    then show ?thesis using r v a by (simp add: fork_def)
  next
    fix np assume np: "np < NPROC" "q = Some np" "is_dead (fd_out s) np" "fd_out s1 = set_dead np False (fd_out s)"
    have ne: "np \<noteq> p" using v np by (auto simp: fd_inv_def)
    have none: "\<forall>i<NOFILE. fd_at (fd_out s) np i = None" using v np by (auto simp: fd_inv_def intro: refs_bal_dead)
    have v1: "fd_inv p (fd_out s1)" unfolding np(4) by (rule fd_inv_set_dead [OF v ne])
    have free: "fd_inv p (fd_out s3)" if "freeproc np s2 = Ret s3" "fd_out s2 = fd_out s1" for s2 s3
      using keptD [OF fd_freeproc_dead that(1)] that(2) np v by (simp add: fdv_cancel)
    have dup: "fd_inv p (fd_out s3) \<and> \<not> is_dead (fd_out s3) np" if "dup_files np s2 = Ret s3" "fd_out s2 = fd_out s1" for s2 s3
      using refs_dup_files [OF that(1) [unfolded dup_files_def], of p] that(2) v1 np ne none by simp
    have lst: "fd_out (upd_proc np (p_state_update (\<lambda>_. RUNNABLE)) s3) = fd_out s3" if "\<not> is_dead (fd_out s3) np"
      for s3 :: "'a kstate_scheme"
      using that by (auto simp: fd_out_def is_dead_def dead_def fun_eq_iff)
    show ?thesis using r a np(2) ne
      by (auto simp: fork_def seq_Ret_iff Let_def idup_def fd_inv_myproc [OF v1] lst split: if_splits dest!: free dup)
  qed
qed

subsection \<open>exit\<close>

lemma refs_close_files:
  assumes "foldM (\<lambda>fd s. case p_ofile (procs s p) ! fd of None \<Rightarrow> Ret s
       | Some f \<Rightarrow> seq (fileclose f s) (\<lambda>s. Ret (upd_proc p (\<lambda>x. x\<lparr>p_ofile := (p_ofile x)[fd := None]\<rparr>) s))) ks s = Ret s'"
    and "fd_inv p (fd_out s)" "\<forall>i\<in>set ks. i < NOFILE"
  shows "fd_inv p (fd_out s') \<and> (\<forall>i<NOFILE. i \<in> set ks \<or> fd_at (fd_out s) p i = None \<longrightarrow> fd_at (fd_out s') p i = None)"
  using assms
proof (induction ks arbitrary: s)
  case (Cons i ks)
  have me: "p_ofile (procs s p) ! i = fd_at (fd_out s) p i" by (simp add: fd_at_def fd_out_def)
  show ?case
  proof (cases "fd_at (fd_out s) p i")
    case None
    then show ?thesis using Cons me by simp
  next
    case (Some f)
    obtain s1 where d: "fileclose f s = Ret s1" using Cons.prems(1) me Some by (auto simp: seq_Ret_iff)
    let ?s = "upd_proc p (\<lambda>x. x\<lparr>p_ofile := (p_ofile x)[i := None]\<rparr>) s1"
    have o: "fd_out ?s = fd_put p i None (ref_add f (-1) (fd_out s))"
      using fileclose_fd [OF d] by (auto simp: fd_out_def fd_put_def ref_add_def dead_def fun_eq_iff)
    have v: "fd_inv p (fd_out ?s)" unfolding o by (rule fd_inv_close) (use Cons.prems Some in auto)
    have l: "length (fst (snd (fd_out s)) p) = NOFILE" using Cons.prems(2) by (auto simp: fd_inv_def refs_bal_def split: prod.splits)
    have at: "\<forall>j<NOFILE. j = i \<or> fd_at (fd_out s) p j = None \<longrightarrow> fd_at (fd_out ?s) p j = None"
      using l Cons.prems(3) unfolding o by (auto simp: fdv_defs nth_list_update split: prod.splits)
    have "fd_inv p (fd_out s') \<and> (\<forall>j<NOFILE. j \<in> set ks \<or> fd_at (fd_out ?s) p j = None \<longrightarrow> fd_at (fd_out s') p j = None)"
      by (rule Cons.IH [OF _ v]) (use Cons.prems me Some d in auto)
    then show ?thesis using at by auto
  qed
qed simp

lemma fd_exit_zombie: "fd_out (exit_zombie st s) = set_dead (myproc s) True (fd_out s)"
proof -
  have f: "fd_out (fold (reparent_one p) ks s) = fd_out s" for p ks and s :: "'x kstate_scheme"
    by (induction ks arbitrary: s) (simp_all add: reparent_one_def)
  have z: "fd_out (upd_proc p (\<lambda>x. x\<lparr>p_xstate := st, p_state := ZOMBIE\<rparr>) s) = set_dead p True (fd_out s)" for p and s :: "'x kstate_scheme"
    by (auto simp: fd_out_def set_dead_def dead_def fun_eq_iff)
  show ?thesis by (simp add: exit_zombie_def reparent_def Let_def z f myproc_fd_out)
qed

lemma fd_bind: "kept u fd1 m \<Longrightarrow> (\<And>x. fd1 x = u \<Longrightarrow> kept v f (kk x)) \<Longrightarrow> kept v f (seq m kk)"
  by (auto simp: kept_def seq_Ret_iff)

lemma refs_exit:
  assumes v: "fd_inv p (fd_out s)" and r: "exit st s = Ret s'"
  shows "refs_bal (\<lambda>_. 0) (fd_out s') \<and> is_dead (fd_out s') p \<and> fd_cur (fd_out s') = p"
proof -
  have my: "myproc s = p" by (rule fd_inv_myproc [OF v])
  obtain s1 where s1: "close_files p s = Ret s1"
    and r2: "seq (begin_op s1) (\<lambda>s. seq (iput (cwd s) s) (\<lambda>s. seq (end_op s) (\<lambda>s.
           Ret (exit_zombie st (upd_proc p (p_cwd_update (\<lambda>_. None)) s))))) = Ret s'"
    using r my by (auto simp: exit_def seq_Ret_iff Let_def split: if_splits)
  have c: "fd_inv p (fd_out s1) \<and> (\<forall>i<NOFILE. fd_at (fd_out s1) p i = None)"
    using refs_close_files [OF s1 [unfolded close_files_def] v] by auto
  have m: "fd_cur (fd_out s1) = p" using c fd_inv_cur by auto
  have z: "fd_out (exit_zombie st (upd_proc p (p_cwd_update (\<lambda>_. None)) s2)) = set_dead p True (fd_out s1)"
    if "fd_out s2 = fd_out s1" for s2 :: "'a kstate_scheme"
    using that m by (simp add: fd_exit_zombie myproc_fd_out)
  have "kept (set_dead p True (fd_out s1)) fd1 (seq (begin_op s1) (\<lambda>s. seq (iput (cwd s) s) (\<lambda>s. seq (end_op s) (\<lambda>s.
           Ret (exit_zombie st (upd_proc p (p_cwd_update (\<lambda>_. None)) s))))))"
    by ((rule fd_bind [where u = "fd_out s1"] kept_rules | (rule fd_fs, rule kept_fs, rule refl) | simp add: z)+)
  from keptD [OF this r2] show ?thesis
    using c m by (auto simp: fd_inv_def intro: refs_bal_set_dead)
qed

section \<open>Every system call\<close>

text \<open>What a system call promises: process \<open>p\<close> keeps running in balance, or has exited in balance.\<close>

definition call_ok :: "nat \<Rightarrow> fdv \<Rightarrow> (sysres \<times> 'a kstate_scheme) res \<Rightarrow> bool" where
  "call_ok p v m \<longleftrightarrow> (\<forall>r s'. m = Ret (r, s') \<longrightarrow> fd_inv p v \<longrightarrow>
     (if r = SysExited then refs_bal (\<lambda>_. 0) (fd_out s') \<and> is_dead (fd_out s') p \<and> fd_cur (fd_out s') = p else fd_inv p (fd_out s')))"

lemma call_ok_int: "(\<And>x s'. fd_inv p v \<Longrightarrow> m = Ret (x, s') \<Longrightarrow> fd_inv p (fd_out s')) \<Longrightarrow> call_ok p v (ret_int m)"
  by (auto simp: call_ok_def ret_int_def seq_Ret_iff)

lemma call_ok_fres: "(\<And>x s'. fd_inv p v \<Longrightarrow> m = Ret (x, s') \<Longrightarrow> fd_inv p (fd_out s')) \<Longrightarrow> call_ok p v (ret_fres m)"
  by (auto simp: call_ok_def ret_fres_def seq_Ret_iff split: fres.split_asm)

lemma call_ok_kept:
  "(live v \<Longrightarrow> kept True (\<lambda>x. fd_out (snd x) = v \<and> live v) m) \<Longrightarrow> call_ok p v (ret_int m)"
  "(live v \<Longrightarrow> kept True (\<lambda>x. fd_out (snd x) = v \<and> live v) m') \<Longrightarrow> call_ok p v (ret_fres m')"
  by (rule call_ok_int call_ok_fres, frule fd_inv_live, simp add: kept_def)+

lemma call_ok_same: "call_ok p (fd_out s) (Ret (SysRet x, s))"
  by (simp add: call_ok_def)

lemma call_ok_exit: "call_ok p (fd_out s) (seq (sys_exit s) (\<lambda>s. Ret (SysExited, s)))"
  by (auto simp: call_ok_def seq_Ret_iff sys_exit_def dest: refs_exit)

lemma syscalls_ok: "\<forall>h\<in>set (syscalls e). call_ok p (fd_out s) (h s)"
proof -
  note framed = fdk.k_sys_small fdk.k_sys_exec fdk.k_sys_fstat fdk.k_sys_mk fdk.k_sys_sbrk fdk.k_sys_link fdk.k_sys_unlink
    fdk.k_sys_wait fdk.k_sys_rw(1) [OF fdk.k_console(1)] fdk.k_sys_rw(2) [OF fdk.k_console(2)]
  have special: "call_ok p (fd_out s) (ret_int (sys_fork tr fr s))" "call_ok p (fd_out s) (ret_int (sys_pipe s))"
    "call_ok p (fd_out s) (ret_int (sys_dup s))" "call_ok p (fd_out s) (ret_int (sys_open s))"
    "call_ok p (fd_out s) (ret_int (sys_close s))" for tr fr
    by (auto intro!: call_ok_int simp: sys_fork_def dest: refs_fork refs_sys_pipe refs_sys_dup refs_sys_open refs_sys_close)
  have mem: "call_ok p (fd_out s) (case sys_getmem s of None \<Rightarrow> Blocked | Some mb \<Rightarrow> Ret (SysRet (of_int mb), s))"
    by (simp add: call_ok_def split: option.splits)
  show ?thesis unfolding syscalls_def list.set ball_simps
    by (intro conjI TrueI; (rule special mem call_ok_same call_ok_exit | (rule call_ok_kept, rule framed, simp)))
qed

lemma syscall_ok: "call_ok p (fd_out s) (syscall e s)"
  unfolding call_ok_def
proof (intro allI impI)
  fix r s' assume r: "syscall e s = Ret (r, s')" and v: "fd_inv p (fd_out s)"
  show "if r = SysExited then refs_bal (\<lambda>_. 0) (fd_out s') \<and> is_dead (fd_out s') p \<and> fd_cur (fd_out s') = p else fd_inv p (fd_out s')"
    using r
  proof (cases rule: syscall_step)
    case (1 h s1)
    then have "fd_out s' = fd_out s1" by (cases r) simp_all
    then show ?thesis using syscalls_ok [of e p s] 1(1,2) v by (auto simp: call_ok_def)
  qed (use v in simp)
qed

section \<open>The property\<close>

text \<open>
  C2. File reference counts are exact: a system call that starts with every entry of the file table counting
  exactly the descriptors that name it, over all processes, and with no descriptor in an unused or zombie
  process, ends so, whichever call it is (\<open>fork\<close>, \<open>exit\<close>, \<open>open\<close>, \<open>close\<close>, \<open>dup\<close>,
  \<open>pipe\<close> and the rest, a call that fails half way or goes to sleep included), and the process that made it is
  alive unless the call was \<open>exit\<close>, in which case it is a zombie without descriptors.
\<close>

theorem syscall_keeps_refs:
  assumes s: "refs_ok s" "cur_live s" and r: "syscall e s = Ret (r, s')"
  shows "refs_ok s' \<and> (if r = SysExited then dead s' (myproc s') else cur_live s') \<and> myproc s' = myproc s"
proof -
  obtain p where p: "fd_inv p (fd_out s)" using s fd_inv_iff by blast
  have my: "myproc s = p" by (rule fd_inv_myproc [OF p])
  show ?thesis
  proof (cases "r = SysExited")
    case True
    then have "refs_bal (\<lambda>_. 0) (fd_out s')" "is_dead (fd_out s') p" "myproc s' = p"
      using syscall_ok [of p s e] p r by (simp_all add: call_ok_def myproc_fd_out)
    moreover have "is_dead (fd_out s') = dead s'" by (simp add: is_dead_def fd_out_def)
    ultimately show ?thesis using True my by (simp add: refs_ok_def)
  next
    case False
    then have "fd_inv p (fd_out s')" using syscall_ok [of p s e] p r by (simp add: call_ok_def)
    moreover from this have "refs_ok s' \<and> cur_live s'" using fd_inv_iff by blast
    ultimately show ?thesis using False my fd_inv_myproc by simp
  qed
qed

text \<open>\<open>dup\<close> of a descriptor.\<close>

theorem syscall_keeps_refs_witness:
  "\<exists>(s :: cstate) s'. refs_ok s \<and> f_ref (ftable s 0) = 1 \<and> syscall (undefined :: env) s = Ret (SysRet 1, s')
     \<and> refs_ok s' \<and> f_ref (ftable s' 0) = 2"
proof -
  define q :: "nat \<Rightarrow> proc" where "q p = (undefined :: proc)\<lparr>p_state := if p = 0 then RUNNING else UNUSED, p_trapframe := 0x87000000,
     p_ofile := (if p = 0 then Some 0 else None) # replicate 15 None\<rparr>" for p
  define s0 :: cstate where "s0 = (undefined :: cstate)\<lparr>cur := Some 0, procs := q, ftable := \<lambda>f. (undefined :: file_struct)\<lparr>f_ref := if f = 0 then 1 else 0\<rparr>\<rparr>"
  define s where "s = tf_set 0 TF_A7 10 (tf_set 0 TF_A0 0 s0)"
  have fd: "fd_out s = fd_out s0" by (simp add: s_def)
  have my: "myproc s = 0" "cur s = Some 0" by (simp_all add: s_def s0_def myproc_def tf_set_def)
  have d: "dead s p \<longleftrightarrow> p \<noteq> 0" for p by (simp add: dead_def s_def s0_def q_def tf_set_def)
  have cnt: "fd_count (\<lambda>p. p_ofile (q p)) f = (if f = 0 then 1 else 0)" for f
    by (auto simp: fd_count_def q_def NPROC_def if_distrib [of "\<lambda>x. count x _"] sum.If_cases cong: if_cong)
  have l: "cur_live s" using my d by (simp add: cur_live_def NPROC_def)
  have ok: "refs_ok s" unfolding refs_ok_def fd
    by (auto simp: refs_bal_def fd_out_def cnt s0_def NOFILE_def NFILE_def) (auto simp: q_def dead_def nth_Cons split: nat.splits if_splits)
  have a7: "tf_get 0 TF_A7 s = 10" "tf_get 0 TF_A0 s = 0" by (simp_all add: s_def apart_def)
  have me0: "p_ofile (procs s 0) = Some 0 # replicate 15 None" by (simp add: s_def s0_def q_def tf_set_def)
  have ft: "f_ref (ftable s 0) = 1" by (simp add: s_def s0_def tf_set_def)
  have "find (\<lambda>fd. (Some (0::nat) # replicate 15 None) ! fd = None) [0..<16] = Some 1" by code_simp
  then have al: "fdalloc 0 s = (1, upd_proc 0 (\<lambda>x. x\<lparr>p_ofile := (p_ofile x)[1 := Some 0]\<rparr>) s)"
    by (simp add: fdalloc_def my me0 NOFILE_def)
  have "argfd 0 s = Ret (Some (0, 0))" by (simp add: argfd_def argint_def argraw_def my a7 me0 NOFILE_def)
  then obtain s1 where "sys_dup s = Ret (1, s1)" "f_ref (ftable s1 0) = 2"
    by (simp add: sys_dup_def al filedup_def upd_file_def ft)
  then obtain s' where r: "syscall (undefined :: env) s = Ret (SysRet 1, s')" "f_ref (ftable s' 0) = 2"
    by (simp add: syscall_def syscalls_def my a7 ret_int_def Let_def tf_set_def)
  show ?thesis using ok r syscall_keeps_refs [OF ok l r(1)] using ft by blast
qed

end
