(* ===== verification/Sched_Fair.thy ===== *)
theory Sched_Fair
  imports File_Refs "HOL-Library.Sublist"
begin

text \<open>
  The scheduler (\<^verbatim>\<open>kernel/proc.c\<close>) leaves no runnable process out. What it relies on is the
  locale \<open>fair_run\<close>: a process that runs does not take another process out of the state \<open>RUNNABLE\<close>.
  It is interpreted on processes that make system calls, any number of any of them, which is a second use of
  the frame of theory \<open>Kernel_Frame\<close>.
\<close>

section \<open>The contract\<close>

locale fair_run =
  fixes run :: "nat \<Rightarrow> 'a kstate_scheme \<Rightarrow> 'a kstate_scheme res"
  assumes others_stay: "run p s = Ret s' \<Longrightarrow> cur s = Some p \<Longrightarrow> q \<noteq> p \<Longrightarrow> p_state (procs s q) = RUNNABLE \<Longrightarrow>
      p_state (procs s' q) = RUNNABLE"
begin

lemma visit_other:
  assumes "scheduler_visit run p (rn, s) = Ret (rn', s')" "q \<noteq> p" "p_state (procs s q) = RUNNABLE"
  shows "p_state (procs s' q) = RUNNABLE"
proof (cases "p_state (procs s p) = RUNNABLE")
  case True
  then obtain t where t: "run p (enter p s) = Ret t" "s' = t\<lparr>cur := None\<rparr>" using assms(1) by (auto simp: scheduler_visit_def seq_Ret_iff)
  have "p_state (procs t q) = RUNNABLE"
    by (rule others_stay [OF t(1), of q]) (use assms in \<open>simp_all add: enter_def Let_def\<close>)
  then show ?thesis using t(2) by simp
qed (use assms in \<open>simp add: scheduler_visit_def\<close>)

lemma visit_ran:
  "scheduler_visit run p (rn, s) = Ret (rn', s') \<Longrightarrow> rn' = rn @ (if p_state (procs s p) = RUNNABLE then [p] else [])"
  by (auto simp: scheduler_visit_def seq_Ret_iff split: if_splits)

lemma pass_runs:
  "foldM (scheduler_visit run) ps (rn, s) = Ret (rn', s') \<Longrightarrow> distinct ps \<Longrightarrow>
   \<exists>l. rn' = rn @ l \<and> subseq l ps \<and> (\<forall>q\<in>set ps. p_state (procs s q) = RUNNABLE \<longrightarrow> q \<in> set l)"
proof (induction ps arbitrary: rn s)
  case (Cons p ps)
  obtain rn1 s1 where v: "scheduler_visit run p (rn, s) = Ret (rn1, s1)" and f: "foldM (scheduler_visit run) ps (rn1, s1) = Ret (rn', s')"
    using Cons.prems(1) by (auto simp: seq_Ret_iff)
  obtain l where l: "rn' = rn1 @ l" "subseq l ps" "\<forall>q\<in>set ps. p_state (procs s1 q) = RUNNABLE \<longrightarrow> q \<in> set l"
    using Cons.IH [OF f] Cons.prems(2) by auto
  have "q \<in> set l" if "q \<in> set ps" "p_state (procs s q) = RUNNABLE" for q
    using that l(3) visit_other [OF v, of q] Cons.prems(2) by (cases "q = p") auto
  then show ?case using l(1,2) visit_ran [OF v] Cons.prems(2)
    by (intro exI [of _ "(if p_state (procs s p) = RUNNABLE then [p] else []) @ l"]) auto
qed simp

lemma pass_fair:
  assumes "scheduler_pass run s = Ret (rn, s')"
  shows "subseq rn [0..<NPROC] \<and> (\<forall>q<NPROC. p_state (procs s q) = RUNNABLE \<longrightarrow> q \<in> set rn)"
  using pass_runs [of "[0..<NPROC]" "[]" s rn s'] assms by (auto simp: scheduler_pass_def)

end

section \<open>Processes that make system calls\<close>

text \<open>Process \<open>c\<close> runs, and the processes in \<open>R\<close> are runnable.\<close>

definition others :: "nat \<Rightarrow> nat set \<Rightarrow> 'a kstate_scheme \<Rightarrow> bool" where
  "others c R s \<longleftrightarrow> cur s = Some c \<and> c \<notin> R \<and> (\<forall>q\<in>R. p_state (procs s q) = RUNNABLE)"

lemma others_upd_file [simp]: "others c R (upd_file f g s) = others c R s"
  by (simp add: others_def upd_file_def)

lemma others_upd_proc: "(\<And>x. p_state (h x) = p_state x) \<Longrightarrow> others c R s \<Longrightarrow> others c R (upd_proc p h s)"
  by (auto simp: others_def)

lemma others_upd_other: "p \<notin> R \<Longrightarrow> others c R s \<Longrightarrow> others c R (upd_proc p h s)"
  by (auto simp: others_def)

lemma others_myproc: "others c R s \<Longrightarrow> myproc s = c \<and> c \<notin> R"
  by (simp add: others_def myproc_def)

interpretation ok: kernel_frame "others c R :: 'a kstate_scheme \<Rightarrow> bool" for c R
proof
  fix s s' :: "'a kstate_scheme"
  assume "others c R s" "fs_out s' = fs_out s"
  then show "others c R s'" by (auto simp: others_def dest!: fs_out_kstate)
next
  fix s :: "'a kstate_scheme" and p and h :: "proc \<Rightarrow> proc"
  assume "\<And>x. p_ofile (h x) = p_ofile x \<and> p_state (h x) = UNUSED" "dead s p" "others c R s"
  then show "others c R (upd_proc p h s)" by (auto simp: others_def dead_def)
qed (auto simp: others_def upd_pipe_def upd_file_def emit_def sleep_def myproc_def)

interpretation okc: console_frame "others c R :: 'a cstate_scheme \<Rightarrow> bool" for c R
  by unfold_locales (auto simp: others_def)

subsection \<open>Calls that change descriptors and processes\<close>

lemma ok_seq:
  "kept True (others c R) m1 \<Longrightarrow> (\<And>x. others c R x \<Longrightarrow> kept True f (k1 x)) \<Longrightarrow> kept True f (seq m1 k1)"
  "kept True (\<lambda>x. others c R (snd x)) m2 \<Longrightarrow> (\<And>x. others c R (snd x) \<Longrightarrow> kept True f (k2 x)) \<Longrightarrow> kept True f (seq m2 k2)"
  by (rule ok.k_seq; assumption)+

lemma ok_pipeclose_page: "others c R s \<Longrightarrow> kept True (others c R) (pipeclose_page pi w s)"
  unfolding pipeclose_page_def by ((rule kept_rules ok_seq [where c = c and R = R] kept_seq0 | simp add: ok.P_simps)+)

lemma ok_fileclose: "others c R s \<Longrightarrow> kept True (others c R) (fileclose f s)"
  unfolding fileclose_def by ((rule kept_rules ok_seq [where c = c and R = R] kept_seq0 ok_pipeclose_page | (rule ok.k_fs, rule kept_fs, rule refl) | simp add: ok.P_simps)+)

lemma ok_filealloc: "others c R s \<Longrightarrow> filealloc s = (x, s') \<Longrightarrow> others c R s'"
  by (auto simp: filealloc_def split: option.splits)

lemma ok_fdalloc: "others c R s \<Longrightarrow> fdalloc f s = (x, s') \<Longrightarrow> others c R s'"
  by (auto simp: fdalloc_def others_upd_proc split: option.splits)

lemma ok_filedup: "others c R s \<Longrightarrow> kept True (\<lambda>x. others c R (snd x)) (filedup f s)"
  unfolding filedup_def by ((rule kept_rules ok_seq [where c = c and R = R] kept_seq0 | simp)+)

lemma ok_clear_fd: "others c R s \<Longrightarrow> others c R (clear_fd fd s)"
  by (simp add: clear_fd_def others_upd_proc)

lemma ok_sys_dup: "others c R s \<Longrightarrow> kept True (\<lambda>x. others c R (snd x)) (sys_dup s)"
  unfolding sys_dup_def by ((rule kept_rules ok_seq [where c = c and R = R] kept_seq0 ok_filedup | (erule ok_fdalloc [rotated]) | simp)+)

lemma ok_sys_close: "others c R s \<Longrightarrow> kept True (\<lambda>x. others c R (snd x)) (sys_close s)"
  unfolding sys_close_def by ((rule kept_rules ok_seq [where c = c and R = R] kept_seq0 ok_fileclose | simp add: ok_clear_fd)+)

lemma ok_open_bad: "others c R s \<Longrightarrow> kept True (\<lambda>x. others c R (snd x)) (open_bad ip s)"
  unfolding open_bad_def by ((rule kept_rules ok_seq [where c = c and R = R] kept_seq0 ok.k_end_op_ret | (rule ok.k_fs, rule kept_fs, rule refl) | simp)+)

lemma ok_open_file: "others c R s \<Longrightarrow> kept True (\<lambda>x. others c R (snd x)) (open_file ip om s)"
  unfolding open_file_def
  by ((rule kept_rules ok_seq [where c = c and R = R] kept_seq0 ok_open_bad ok_fileclose ok.k_end_op_ret | (erule ok_filealloc [rotated]) | (erule ok_fdalloc [rotated])
      | (rule ok.k_fs, rule kept_fs, rule refl) | simp)+)

lemma ok_sys_open: "others c R s \<Longrightarrow> kept True (\<lambda>x. others c R (snd x)) (sys_open s)"
  unfolding sys_open_def
  by ((rule kept_rules ok_seq [where c = c and R = R] kept_seq0 ok_open_bad ok_open_file | (rule ok.k_fs, rule kept_fs kept_open_inode, rule refl) | simp)+)

lemma ok_pipealloc: "others c R s \<Longrightarrow> kept True (\<lambda>x. others c R (snd x)) (pipealloc s)"
  unfolding pipealloc_def pipealloc_bad_def
  by ((rule kept_rules ok_seq [where c = c and R = R] kept_seq0 ok_fileclose ok.P_km ok.P_pipe | (erule ok_filealloc [rotated]) | simp)+)

lemma ok_close_both: "others c R s \<Longrightarrow> kept True (\<lambda>x. others c R (snd x)) (close_both f0 f1 s)"
  unfolding close_both_def by ((rule kept_rules ok_seq [where c = c and R = R] ok_fileclose | simp)+)

lemma ok_sys_pipe: "others c R s \<Longrightarrow> kept True (\<lambda>x. others c R (snd x)) (sys_pipe s)"
  unfolding sys_pipe_def
  by ((rule kept_rules ok_seq [where c = c and R = R] kept_seq0 ok_pipealloc ok_close_both ok.P_km ok_clear_fd | (erule ok_fdalloc [rotated])
      | simp)+)

text \<open>\<open>fork\<close> takes an unused entry of the table, which is none of \<open>R\<close>.\<close>

lemma ok_freeproc: "p \<notin> R \<Longrightarrow> others c R s \<Longrightarrow> kept True (others c R) (freeproc p s)"
  unfolding freeproc_def by ((rule kept_rules kept_seq0 | simp add: others_upd_other ok.P_simps)+)

lemma ok_allocproc:
  assumes "others c R s"
  shows "kept True (\<lambda>x. others c R (snd x) \<and> (\<forall>p. fst x = Some p \<longrightarrow> p \<notin> R)) (allocproc tr fr s)"
proof (cases "find (\<lambda>p. p_state (procs s p) = UNUSED) [0..<NPROC]")
  case (Some np)
  then have "p_state (procs s np) = UNUSED" by (auto simp: find_Some_iff)
  then have np: "np \<notin> R" using assms by (auto simp: others_def)
  have pid: "others c R (s\<lparr>nextpid := n\<rparr>)" for n using assms by (simp add: others_def)
  show ?thesis unfolding allocproc_def Some option.case allocpid_def
    by ((rule kept_rules ok_seq(1) [where c = c and R = R] kept_seq0 ok_freeproc | simp add: np others_upd_other pid ok.P_simps)+)
qed (use assms in \<open>simp add: allocproc_def kept_def\<close>)

lemma ok_foldM:
  "(\<And>i s. others c R s \<Longrightarrow> kept True (others c R) (f i s)) \<Longrightarrow> others c R s \<Longrightarrow> kept True (others c R) (foldM f is s)"
  using foldM_invariant [of f "is" s _ "others c R"] by (auto simp: kept_def)

lemma ok_dup_files: "np \<notin> R \<Longrightarrow> others c R s \<Longrightarrow> kept True (others c R) (dup_files np s)"
  unfolding dup_files_def
  by ((rule ok_foldM kept_rules ok_seq(2) [where c = c and R = R] ok_filedup others_upd_other | simp)+)

lemma ok_idup: "others c R s \<Longrightarrow> idup ip s = (x, s') \<Longrightarrow> others c R s'"
  by (auto simp: idup_def ok.P_simps)

lemma kept_bind: "kept True Q m \<Longrightarrow> (\<And>x. Q x \<Longrightarrow> kept True f (kk x)) \<Longrightarrow> kept True f (seq m kk)"
  by (auto simp: kept_def seq_Ret_iff)

lemma ok_fork:
  assumes "others c R s"
  shows "kept True (\<lambda>x. others c R (snd x)) (fork tr fr s)"
  unfolding fork_def
proof (rule kept_bind [OF ok_allocproc [OF assms]])
qed ((rule kept_rules ok_seq(1) [where c = c and R = R] kept_seq0 ok_freeproc ok_dup_files others_upd_other | (erule ok_idup [rotated])
      | simp add: others_upd_other ok.P_simps)+)

lemma ok_close_files: "others c R s \<Longrightarrow> kept True (others c R) (close_files p s)"
  unfolding close_files_def
  by ((rule ok_foldM kept_rules ok_seq(1) [where c = c and R = R] ok_fileclose others_upd_proc | simp)+)

lemma ok_exit_zombie:
  assumes "others c R s"
  shows "others c R (exit_zombie st s)"
proof -
  have "others c R (fold (reparent_one p) ps s)" for p ps
    using assms by (induction ps arbitrary: s) (simp_all add: reparent_one_def others_upd_proc ok.P_wakeup)
  then show ?thesis using others_myproc [OF assms] by (simp add: exit_zombie_def reparent_def Let_def others_upd_other ok.P_wakeup)
qed

lemma ok_exit: "others c R s \<Longrightarrow> kept True (others c R) (exit st s)"
  unfolding exit_def
  by ((rule kept_rules ok_seq(1) [where c = c and R = R] ok_close_files ok_exit_zombie | (rule ok.k_fs, rule kept_fs, rule refl)
      | simp add: others_upd_proc)+)

subsection \<open>Every call\<close>

lemma ok_ret:
  "kept True (\<lambda>x. others c R (snd x)) m \<Longrightarrow> kept True (\<lambda>x. others c R (snd x)) (ret_int m)"
  "kept True (\<lambda>x. others c R (snd x)) m' \<Longrightarrow> kept True (\<lambda>x. others c R (snd x)) (ret_fres m')"
  by (auto simp: kept_def ret_int_def ret_fres_def seq_Ret_iff)

lemma ok_syscalls:
  assumes "others c R s"
  shows "\<forall>h\<in>set (syscalls e). kept True (\<lambda>x. others c R (snd x)) (h s)"
proof -
  note framed = ok.k_sys_small ok.k_sys_exec ok.k_sys_fstat ok.k_sys_mk ok.k_sys_sbrk ok.k_sys_link ok.k_sys_unlink
    ok.k_sys_wait ok.k_sys_rw(1) [OF okc.k_console(1)] ok.k_sys_rw(2) [OF okc.k_console(2)]
    ok_sys_dup ok_sys_close ok_sys_open ok_sys_pipe ok_fork [folded sys_fork_def]
  have ex: "kept True (\<lambda>x. others c R (snd x)) (seq (sys_exit s) (\<lambda>s. Ret (SysExited, s)))"
    unfolding sys_exit_def using assms by - ((rule kept_rules ok_seq(1) [where c = c and R = R] kept_seq0 ok_exit | simp)+)
  have mem: "kept True (\<lambda>x. others c R (snd x)) (case sys_getmem s of None \<Rightarrow> Blocked | Some mb \<Rightarrow> Ret (SysRet (of_int mb), s))"
    using assms by - ((rule kept_rules | simp)+)
  show ?thesis unfolding syscalls_def list.set ball_simps
    by (intro conjI TrueI; (rule ex mem | (rule ok_ret, rule framed, rule assms) | (rule kept_Ret, simp add: assms)))
qed

lemma ok_syscall:
  assumes s: "others c R s" and r: "syscall e s = Ret (r, s')"
  shows "others c R s'"
  using r
proof (cases rule: syscall_step)
  case (1 h s1)
  then have "others c R s1" using ok_syscalls [OF s, of e] by (auto simp: kept_def)
  then show ?thesis using 1(3) by (cases r) (simp_all add: ok.P_simps)
qed (use s in \<open>simp add: ok.P_simps\<close>)

section \<open>The property\<close>

text \<open>
  A process that makes up to \<open>n\<close> system calls and then gives up the processor with \<open>yield\<close>, unless it
  exits or goes to sleep before; \<open>user\<close> is what its own code does to memory, trapframe included, before a call.
\<close>

fun run_calls :: "env \<Rightarrow> (nat \<Rightarrow> 'a cstate_scheme \<Rightarrow> kmem) \<Rightarrow> nat \<Rightarrow> 'a cstate_scheme \<Rightarrow> 'a cstate_scheme res" where
  "run_calls e user 0 s = Ret (yield s)"
| "run_calls e user (Suc n) s =
     seq (syscall e (s\<lparr>km := user n s\<rparr>)) (\<lambda>(r, s). case r of SysRet v \<Rightarrow> run_calls e user n s | _ \<Rightarrow> Ret s)"

lemma run_calls_others: "others c R s \<Longrightarrow> run_calls e user n s = Ret s' \<Longrightarrow> \<forall>q\<in>R. p_state (procs s' q) = RUNNABLE"
proof (induction n arbitrary: s)
  case 0
  then show ?case using others_myproc [OF 0(1)] by (auto simp: yield_def others_def)
next
  case (Suc n)
  obtain r s1 where c: "syscall e (s\<lparr>km := user n s\<rparr>) = Ret (r, s1)" and rest: "(case r of SysRet v \<Rightarrow> run_calls e user n s1 | _ \<Rightarrow> Ret s1) = Ret s'"
    using Suc.prems(2) unfolding run_calls.simps seq_Ret_iff by (metis (mono_tags, lifting) case_prod_conv surj_pair)
  have o: "others c R s1" by (rule ok_syscall [OF _ c]) (simp add: ok.P_simps Suc.prems)
  show ?case
  proof (cases r)
    case (SysRet v)
    then show ?thesis using rest by (intro Suc.IH [OF o]) simp
  qed (use o rest in \<open>simp_all add: others_def\<close>)
qed

interpretation calls: fair_run "\<lambda>p. run_calls (e p) (user p) (n p) :: 'a cstate_scheme \<Rightarrow> _" for e user n
proof
  fix p q and s s' :: "'a cstate_scheme"
  assume r: "run_calls (e p) (user p) (n p) s = Ret s'" and "cur s = Some p" "q \<noteq> p" "p_state (procs s q) = RUNNABLE"
  then have "others p {q} s" by (simp add: others_def)
  from run_calls_others [OF this r] show "p_state (procs s' q) = RUNNABLE" by simp
qed

text \<open>
  C8. No starvation: one pass of the scheduler over the table runs every process that is runnable
  when the pass starts, each at most once and in the order of the table, whatever system calls the processes
  that come before it make and whatever they do to their memory (unless the machine panics meanwhile, or a
  call has to wait for a lock of the file system).
\<close>

theorem scheduler_runs_every_runnable:
  assumes "scheduler_pass (\<lambda>p. run_calls (e p) (user p) (n p)) s = Ret (rn, s')"
  shows "(\<forall>q<NPROC. p_state (procs s q) = RUNNABLE \<longrightarrow> q \<in> set rn) \<and> subseq rn [0..<NPROC]"
  using calls.pass_fair [OF assms] by blast

text \<open>Two processes that ask for their number and then yield.\<close>

theorem scheduler_runs_every_runnable_witness:
  "\<exists>(s :: cstate) rn s'. p_state (procs s 3) = RUNNABLE \<and> p_state (procs s 5) = RUNNABLE
     \<and> scheduler_pass (\<lambda>p. run_calls (undefined :: env) (\<lambda>_ s. km (tf_set (myproc s) TF_A7 11 s)) 1) s = Ret (rn, s')
     \<and> 3 \<in> set rn \<and> 5 \<in> set rn"
proof -
  let ?run = "\<lambda>p. run_calls (undefined :: env) (\<lambda>_ s. km (tf_set (myproc s) TF_A7 11 s)) 1 :: cstate \<Rightarrow> cstate res"
  have one: "\<exists>s'. ?run p s = Ret s'" for p s
  proof -
    have e: "s\<lparr>km := km (tf_set (myproc s) TF_A7 11 s)\<rparr> = tf_set (myproc s) TF_A7 11 s" by (simp add: tf_set_def)
    have "tf_get (myproc s) TF_A7 (tf_set (myproc s) TF_A7 11 s) = 11" by simp
    then show ?thesis by (simp add: e syscall_def syscalls_def Let_def)
  qed
  have "\<exists>y. foldM (scheduler_visit run) ps x = Ret y" if "\<And>p s. \<exists>s'. run p s = Ret s'" for run :: "nat \<Rightarrow> cstate \<Rightarrow> cstate res" and ps x
  proof (induction ps arbitrary: x)
    case (Cons p ps)
    obtain rn s where x: "x = (rn, s)" by (cases x)
    have "\<exists>y. scheduler_visit run p (rn, s) = Ret y"
      using that [of p "enter p s"] by (cases "p_state (procs s p) = RUNNABLE") (auto simp: scheduler_visit_def)
    then show ?case using Cons unfolding x by (metis foldM.simps(2) seq.simps(1))
  qed simp
  from this [of ?run] one have "\<exists>y. foldM (scheduler_visit ?run) ps x = Ret y" for ps x by blast
  then have all: "\<exists>rn s'. scheduler_pass ?run s = Ret (rn, s')" for s :: cstate unfolding scheduler_pass_def by (metis surj_pair)
  define s :: cstate where "s = (undefined :: cstate)\<lparr>procs := \<lambda>_. (undefined :: proc)\<lparr>p_state := RUNNABLE\<rparr>\<rparr>"
  obtain rn s' where r: "scheduler_pass ?run s = Ret (rn, s')" using all by blast
  have st: "p_state (procs s q) = RUNNABLE" for q by (simp add: s_def)
  from scheduler_runs_every_runnable [OF r] st have "3 \<in> set rn" "5 \<in> set rn" by (simp_all add: NPROC_def)
  then show ?thesis using r st by blast
qed

end
