(* ===== verification/Exit_Wait.thy ===== *)
theory Exit_Wait
  imports Kernel_Frame
begin

text \<open>
  \<open>exit\<close> and \<open>wait\<close> of \<^verbatim>\<open>kernel/proc.c\<close> together: the wake-up of a parent that sleeps in \<open>wait\<close>
  is not lost, and the children of a process that exits go to the initial process.
\<close>

section \<open>Up to the wake-up\<close>

text \<open>Process \<open>p\<close> runs, process \<open>q\<close> sleeps in \<open>wait\<close>, and \<open>par\<close> are the parents.\<close>

definition parent_waits :: "nat \<Rightarrow> nat \<Rightarrow> (nat \<Rightarrow> nat option) \<Rightarrow> nat \<Rightarrow> 'a kstate_scheme \<Rightarrow> bool" where
  "parent_waits p q par i s \<longleftrightarrow> cur s = Some p \<and> initproc s = i \<and> (\<forall>c. p_parent (procs s c) = par c) \<and>
     p_state (procs s q) = SLEEPING \<and> p_chan (procs s q) = Some (ChProc q)"

lemma pw_upd [simp]:
  "parent_waits p q par i (s\<lparr>km := kk\<rparr>) = parent_waits p q par i s" "parent_waits p q par i (upd_pipe a pi s) = parent_waits p q par i s"
  "parent_waits p q par i (upd_file f g s) = parent_waits p q par i s"
  by (simp_all add: parent_waits_def upd_pipe_def upd_file_def)

lemma pw_upd_proc:
  "(\<And>x. p_parent (h x) = p_parent x \<and> p_state (h x) = p_state x \<and> p_chan (h x) = p_chan x) \<Longrightarrow> parent_waits p q par i s \<Longrightarrow>
   parent_waits p q par i (upd_proc r h s)"
  by (auto simp: parent_waits_def)

lemma pw_wakeup: "c \<noteq> Some (ChProc q) \<Longrightarrow> parent_waits p q par i s \<Longrightarrow> parent_waits p q par i (wakeup c s)"
  by (auto simp: parent_waits_def wakeup_eq)

lemma pw_fs: "kept (fs_out s) out1 m \<Longrightarrow> parent_waits p q par i s \<Longrightarrow> kept True (parent_waits p q par i) m"
  by (auto simp: kept_def parent_waits_def dest!: fs_out_kstate)

lemma pw_seq: "kept True (parent_waits p q par i) m \<Longrightarrow> (\<And>x. parent_waits p q par i x \<Longrightarrow> kept True f (kk x)) \<Longrightarrow> kept True f (seq m kk)"
  by (auto simp: kept_def seq_Ret_iff)

lemma pw_fileclose: "parent_waits p q par i s \<Longrightarrow> kept True (parent_waits p q par i) (fileclose f s)"
  unfolding fileclose_def pipeclose_page_def
  by ((rule kept_rules pw_seq [where p = p and q = q and par = par and i = i] kept_seq0 | (rule pw_fs, rule kept_fs, rule refl) | simp add: pw_wakeup)+)

lemma pw_foldM:
  "(\<And>j s. parent_waits p q par i s \<Longrightarrow> kept True (parent_waits p q par i) (f j s)) \<Longrightarrow> parent_waits p q par i s \<Longrightarrow>
   kept True (parent_waits p q par i) (foldM f js s)"
  using foldM_invariant [of f js s _ "parent_waits p q par i"] by (auto simp: kept_def)

lemma pw_close_files: "parent_waits p q par i s \<Longrightarrow> kept True (parent_waits p q par i) (close_files r s)"
  unfolding close_files_def
  by ((rule pw_foldM kept_rules pw_seq [where p = p and q = q and par = par and i = i] pw_fileclose pw_upd_proc | simp)+)

section \<open>The wake-up\<close>

text \<open>\<open>reparent\<close>: a sleeper may be woken on the way, when it is the initial process.\<close>

lemma reparent_fold:
  "distinct cs \<Longrightarrow> s1 = fold (reparent_one p) cs s \<Longrightarrow> myproc s \<noteq> q \<Longrightarrow>
   p_state (procs s q) = RUNNABLE \<or> p_state (procs s q) = SLEEPING \<and> p_chan (procs s q) = Some (ChProc q) \<Longrightarrow>
   initproc s1 = initproc s \<and> cur s1 = cur s \<and>
   (p_state (procs s1 q) = RUNNABLE \<or> p_state (procs s1 q) = SLEEPING \<and> p_chan (procs s1 q) = Some (ChProc q)) \<and>
   (\<forall>c. p_parent (procs s1 c) = (if c \<in> set cs \<and> p_parent (procs s c) = Some p then Some (initproc s) else p_parent (procs s c)))"
proof (induction cs arbitrary: s)
  case (Cons c cs)
  let ?t = "reparent_one p c s"
  have t: "initproc ?t = initproc s" "cur ?t = cur s" "myproc ?t = myproc s"
    "p_state (procs ?t q) = RUNNABLE \<or> p_state (procs ?t q) = SLEEPING \<and> p_chan (procs ?t q) = Some (ChProc q)"
    "\<And>d. p_parent (procs ?t d) = (if d = c \<and> p_parent (procs s c) = Some p then Some (initproc s) else p_parent (procs s d))"
    using Cons.prems by (auto simp: reparent_one_def wakeup_eq myproc_def)
  have "initproc s1 = initproc ?t \<and> cur s1 = cur ?t \<and>
    (p_state (procs s1 q) = RUNNABLE \<or> p_state (procs s1 q) = SLEEPING \<and> p_chan (procs s1 q) = Some (ChProc q)) \<and>
    (\<forall>d. p_parent (procs s1 d) = (if d \<in> set cs \<and> p_parent (procs ?t d) = Some p then Some (initproc ?t) else p_parent (procs ?t d)))"
    by (rule Cons.IH) (use Cons.prems t in auto)
  then show ?case using t Cons.prems(1) by auto
qed simp

lemma exit_zombie_wakes:
  assumes s: "parent_waits p q par i s" and p: "p < NPROC" "par p = Some q" and q: "q < NPROC" "q \<noteq> p"
  shows "p_state (procs (exit_zombie st s) p) = ZOMBIE \<and> p_xstate (procs (exit_zombie st s) p) = st \<and>
    p_state (procs (exit_zombie st s) q) = RUNNABLE \<and>
    (\<forall>c. p_parent (procs (exit_zombie st s) c) = (if c < NPROC \<and> par c = Some p then Some i else par c))"
proof -
  define s1 where "s1 = fold (reparent_one p) [0..<NPROC] s"
  have my: "myproc s = p" using s by (simp add: parent_waits_def myproc_def)
  have s1: "initproc s1 = i" "cur s1 = Some p"
    "p_state (procs s1 q) = RUNNABLE \<or> p_state (procs s1 q) = SLEEPING \<and> p_chan (procs s1 q) = Some (ChProc q)"
    "\<forall>c. p_parent (procs s1 c) = (if c < NPROC \<and> par c = Some p then Some i else par c)"
    using reparent_fold [OF _ s1_def, of q] s my q by (auto simp: parent_waits_def)
  have m1: "myproc s1 = p" using s1(2) by (simp add: myproc_def)
  have "p_parent (procs s1 p) = Some q" using s1(4) p q by auto
  then have "exit_zombie st s = upd_proc p (\<lambda>x. x\<lparr>p_xstate := st, p_state := ZOMBIE\<rparr>) (wakeup (Some (ChProc q)) s1)"
    by (simp add: exit_zombie_def reparent_def my Let_def s1_def)
  then show ?thesis using s1 m1 q by (auto simp: wakeup_eq)
qed

lemma wait_returns_zombie:
  assumes "myproc s = q" "z < NPROC" "p_parent (procs s z) = Some q" "p_state (procs s z) = ZOMBIE" and w: "wait 0 s = Ret (r, s')"
  shows "\<exists>z<NPROC. p_parent (procs s z) = Some q \<and> p_state (procs s z) = ZOMBIE \<and> r = Returned (p_pid (procs s z)) \<and> p_state (procs s' z) = UNUSED"
proof -
  let ?kids = "filter (\<lambda>pp. p_parent (procs s pp) = Some q) [0..<NPROC]"
  have "find (\<lambda>pp. p_state (procs s pp) = ZOMBIE) ?kids \<noteq> None" using assms(2-4) by (auto simp: find_None_iff)
  then obtain y where f: "find (\<lambda>pp. p_state (procs s pp) = ZOMBIE) ?kids = Some y" by auto
  then have "y \<in> set ?kids" "p_state (procs s y) = ZOMBIE" unfolding find_Some_iff by (metis nth_mem)+
  then have y: "y < NPROC" "p_parent (procs s y) = Some q" "p_state (procs s y) = ZOMBIE" by auto
  have "seq (freeproc y s) (\<lambda>s1. Ret (Returned (p_pid (procs s y)), s1)) = Ret (r, s')"
    using f assms(1) w by (simp add: wait_def wait_scan_def Let_def)
  then have "r = Returned (p_pid (procs s y)) \<and> p_state (procs s' y) = UNUSED"
    by (auto simp: seq_Ret_iff freeproc_def)
  then show ?thesis using y by blast
qed

section \<open>The property\<close>

text \<open>
  C9. No lost wake-up between \<open>exit\<close> and \<open>wait\<close>: when a process exits while its parent sleeps in \<open>wait\<close>, the
  parent is made runnable, the process is a zombie with its exit status, its own children belong to the
  initial process; and when the parent runs again, \<open>wait\<close> finds a zombie: if it returns, it returns the number of a
  zombie child and has freed the child's entry; it does not go back to sleep.
\<close>

theorem exit_wakes_waiting_parent:
  assumes e: "exit st s = Ret s'" and p: "cur s = Some p" "p < NPROC" "p_parent (procs s p) = Some q"
    and q: "q < NPROC" "q \<noteq> p" "p_state (procs s q) = SLEEPING" "p_chan (procs s q) = Some (ChProc q)"
  shows "p_state (procs s' p) = ZOMBIE \<and> p_xstate (procs s' p) = st \<and> p_state (procs s' q) = RUNNABLE
    \<and> (\<forall>c<NPROC. p_parent (procs s c) = Some p \<longrightarrow> p_parent (procs s' c) = Some (initproc s))
    \<and> (\<forall>r t. wait 0 (sleep_return (enter q s')) = Ret (r, t) \<longrightarrow>
        (\<exists>z<NPROC. p_parent (procs s' z) = Some q \<and> p_state (procs s' z) = ZOMBIE
           \<and> r = Returned (p_pid (procs s' z)) \<and> p_state (procs t z) = UNUSED))"
proof -
  define par where "par c = p_parent (procs s c)" for c
  have par: "par p = Some q" using p by (simp add: par_def)
  let ?J = "parent_waits p q par (initproc s)"
  have J: "?J s" using p q by (simp add: parent_waits_def par_def)
  let ?Q = "\<lambda>s'. p_state (procs s' p) = ZOMBIE \<and> p_xstate (procs s' p) = st \<and> p_state (procs s' q) = RUNNABLE
    \<and> (\<forall>c. p_parent (procs s' c) = (if c < NPROC \<and> par c = Some p then Some (initproc s) else par c))"
  have my: "myproc s = p" using p by (simp add: myproc_def)
  have fin: "?Q (exit_zombie st (upd_proc p (p_cwd_update (\<lambda>_. None)) s1))" if "?J s1" for s1
    by (rule exit_zombie_wakes) (use that p q par in \<open>auto intro!: pw_upd_proc\<close>)
  have "kept True ?Q (exit st s)" unfolding exit_def Let_def my
    by ((rule kept_rules pw_seq [where p = p and q = q and par = par and i = "initproc s"] pw_close_files | (rule pw_fs, rule kept_fs, rule refl)
        | simp add: J fin)+)
  then have Q: "?Q s'" using e by (simp add: kept_def)
  let ?t = "sleep_return (enter q s')"
  have t: "p_parent (procs ?t c) = p_parent (procs s' c)" "c \<noteq> q \<Longrightarrow> procs ?t c = procs s' c" "p_pid (procs ?t c) = p_pid (procs s' c)"
    "p_state (procs ?t q) = RUNNING" "myproc ?t = q" for c
    by (auto simp: sleep_return_def enter_def Let_def myproc_def)
  have "\<exists>z<NPROC. p_parent (procs s' z) = Some q \<and> p_state (procs s' z) = ZOMBIE \<and> r = Returned (p_pid (procs s' z)) \<and> p_state (procs u z) = UNUSED"
    if w: "wait 0 ?t = Ret (r, u)" for r u
  proof -
    have pz: "p_parent (procs ?t p) = Some q" "p_state (procs ?t p) = ZOMBIE" using Q t q p by (auto simp: par_def)
    obtain z where "z < NPROC" "p_parent (procs ?t z) = Some q" "p_state (procs ?t z) = ZOMBIE" "r = Returned (p_pid (procs ?t z))" "p_state (procs u z) = UNUSED"
      using wait_returns_zombie [OF t(5) p(2) pz w] by blast
    moreover have "z \<noteq> q" using calculation(3) t(4) by auto
    ultimately show ?thesis using t by auto
  qed
  then show ?thesis using Q by (simp add: par_def)
qed

text \<open>Process 2 exits with status 3 while the initial process, its parent, waits.\<close>

theorem exit_wakes_waiting_parent_witness:
  "\<exists>(s :: kstate) s'. p_state (procs s 1) = SLEEPING \<and> exit 3 s = Ret s' \<and> p_state (procs s' 2) = ZOMBIE
     \<and> p_xstate (procs s' 2) = 3 \<and> p_state (procs s' 1) = RUNNABLE"
proof -
  define q :: "nat \<Rightarrow> proc" where "q p = (if p = 1 then (undefined :: proc)\<lparr>p_state := SLEEPING, p_chan := Some (ChProc 1), p_parent := None\<rparr>
     else (undefined :: proc)\<lparr>p_parent := Some 1, p_ofile := replicate NOFILE None\<rparr>)" for p
  define s :: kstate where "s = (undefined :: kstate)\<lparr>cur := Some 2, initproc := 1, committing := False, lh_n := 0, outstanding := 0,
     cwd := 0, itable := \<lambda>_. (undefined :: inode)\<lparr>i_ref := 2\<rparr>, procs := q\<rparr>"
  have "foldM (\<lambda>fd s. case p_ofile (procs s 2) ! fd of None \<Rightarrow> Ret s
       | Some f \<Rightarrow> seq (fileclose f s) (\<lambda>s. Ret (upd_proc 2 (\<lambda>x. x\<lparr>p_ofile := (p_ofile x)[fd := None]\<rparr>) s))) ks s = Ret s"
    if "\<forall>i\<in>set ks. i < NOFILE" for ks
    using that by (induction ks) (simp_all add: s_def q_def)
  then have c: "close_files 2 s = Ret s" by (simp add: close_files_def)
  have "\<exists>s'. exit 3 s = Ret s'"
    by (simp add: exit_def myproc_def s_def [THEN arg_cong [where f = cur]] s_def [THEN arg_cong [where f = initproc]] c)
      (simp add: s_def begin_op_def MAXOPBLOCKS_def LOGSIZE_def iput_def upd_ip_def end_op_def commit_def)
  then obtain s' where e: "exit 3 s = Ret s'" by blast
  have "p_state (procs s' 2) = ZOMBIE \<and> p_xstate (procs s' 2) = 3 \<and> p_state (procs s' 1) = RUNNABLE"
    using exit_wakes_waiting_parent [OF e, of 2 1] by (simp add: s_def q_def NPROC_def)
  then show ?thesis using e by (intro exI [of _ s] exI [of _ s']) (simp add: s_def q_def)
qed

end
