(* ===== verification/Grep.thy ===== *)
theory Grep
  imports Kernel_Prelude
begin

text \<open>
  \<^verbatim>\<open>user/grep.c\<close>. A string is the list of its bytes without the terminating zero, so that the end
  of the list is the byte \<open>'\0'\<close> of the source. What \<open>read\<close> returns is a list of pieces; a piece that is longer than
  what is asked for is returned in parts, and the end of the list is the end of the file.
\<close>

section \<open>The matcher\<close>

abbreviation (input) HAT :: uint8 where "HAT \<equiv> 0x5E"
abbreviation (input) DOLLAR :: uint8 where "DOLLAR \<equiv> 0x24"
abbreviation (input) DOT :: uint8 where "DOT \<equiv> 0x2E"
abbreviation (input) STAR :: uint8 where "STAR \<equiv> 0x2A"
abbreviation (input) NL :: uint8 where "NL \<equiv> 0x0A"

function matchhere :: "uint8 list \<Rightarrow> uint8 list \<Rightarrow> bool" and matchstar :: "uint8 \<Rightarrow> uint8 list \<Rightarrow> uint8 list \<Rightarrow> bool" where
  "matchhere re text =
     (if re = [] then True
      else if tl re \<noteq> [] \<and> re ! 1 = STAR then matchstar (re ! 0) (drop 2 re) text
      else if re ! 0 = DOLLAR \<and> tl re = [] then text = []
      else if text \<noteq> [] \<and> (re ! 0 = DOT \<or> re ! 0 = text ! 0) then matchhere (drop 1 re) (drop 1 text)
      else False)"
| "matchstar c re text =
     (if matchhere re text then True
      else if text \<noteq> [] \<and> (text ! 0 = c \<or> c = DOT) then matchstar c re (drop 1 text)
      else False)"
  by pat_completeness auto
termination
  by (relation "measure (\<lambda>x. case x of Inl (re, text) \<Rightarrow> 2 * length re + 2 * length text | Inr (c, re, text) \<Rightarrow> 2 * length re + 2 * length text + 1)")
    (auto simp: length_greater_0_conv [symmetric] simp del: length_greater_0_conv)

declare matchhere.simps [simp del] matchstar.simps [simp del]

fun match_from :: "uint8 list \<Rightarrow> uint8 list \<Rightarrow> bool" where
  "match_from re [] = matchhere re []"
| "match_from re (t # text) = (if matchhere re (t # text) then True else match_from re text)"

definition match :: "uint8 list \<Rightarrow> uint8 list \<Rightarrow> bool" where
  "match re text = (if re \<noteq> [] \<and> re ! 0 = HAT then matchhere (drop 1 re) text else match_from re text)"

section \<open>Lines\<close>

text \<open>The inner loop: the output, and the bytes from \<open>p\<close> on. \<open>strchr\<close> stops at a zero byte.\<close>

definition strchr_nl :: "uint8 list \<Rightarrow> nat option" where
  "strchr_nl s = find (\<lambda>i. s ! i = NL) [0..<length (takeWhile (\<lambda>b. b \<noteq> 0) s)]"

lemma strchr_nl_bound: "strchr_nl s = Some i \<Longrightarrow> i < length s"
proof -
  assume "strchr_nl s = Some i"
  then have "i < length (takeWhile (\<lambda>b. b \<noteq> 0) s)" by (auto simp: strchr_nl_def find_Some_iff)
  then show ?thesis using length_takeWhile_le order_less_le_trans by blast
qed

function grep_lines :: "uint8 list \<Rightarrow> uint8 list \<Rightarrow> uint8 list \<times> uint8 list" where
  "grep_lines pattern p =
     (case strchr_nl p of
        None \<Rightarrow> ([], p)
      | Some q \<Rightarrow>
          (case grep_lines pattern (drop (q + 1) p) of (out, rest) \<Rightarrow>
             ((if match pattern (take q p) then take (q + 1) p else []) @ out, rest)))"
  by pat_completeness auto
termination
  by (relation "measure (\<lambda>(pattern, p). length p)") (auto dest!: strchr_nl_bound)

declare grep_lines.simps [simp del]

definition read_piece :: "nat \<Rightarrow> uint8 list list \<Rightarrow> uint8 list \<times> uint8 list list" where
  "read_piece n input = (case input of [] \<Rightarrow> ([], []) | c # cs \<Rightarrow> (take n c, if length c \<le> n then cs else drop n c # cs))"

lemma read_piece_less: "read_piece n input = (got, rest) \<Longrightarrow> got \<noteq> [] \<Longrightarrow> length (concat rest) < length (concat input)"
  by (auto simp: read_piece_def split: list.splits if_splits)

definition GREP_BUF :: nat where "GREP_BUF = 1024"

text \<open>The outer loop, with the bytes that are in the buffer.\<close>

function grep_loop :: "uint8 list \<Rightarrow> uint8 list \<Rightarrow> uint8 list list \<Rightarrow> uint8 list" where
  "grep_loop pattern buf input =
     (let (got, input') = read_piece (GREP_BUF - length buf - 1) input in
      if got = [] then []
      else case grep_lines pattern (buf @ got) of (out, buf) \<Rightarrow> out @ grep_loop pattern buf input')"
  by pat_completeness auto
termination
  by (relation "measure (\<lambda>(pattern, buf, input). length (concat input))") (auto dest: read_piece_less [OF sym])

declare grep_loop.simps [simp del]

definition grep :: "uint8 list \<Rightarrow> uint8 list list \<Rightarrow> uint8 list" where
  "grep pattern input = grep_loop pattern [] input"

text \<open>\<open>main\<close>: the exit status, what goes to standard output and what to standard error; \<open>op\<close> is the file a name opens.\<close>

fun grep_files :: "(uint8 list \<Rightarrow> uint8 list list option) \<Rightarrow> uint8 list \<Rightarrow> uint8 list list \<Rightarrow> int \<times> uint8 list" where
  "grep_files op pattern [] = (0, [])"
| "grep_files op pattern (f # fs) =
     (case op f of
        None \<Rightarrow> (1, bytes_of ''grep: cannot open '' @ f @ [NL])
      | Some input \<Rightarrow> (case grep_files op pattern fs of (r, out) \<Rightarrow> (r, grep pattern input @ out)))"

definition grep_main :: "(uint8 list \<Rightarrow> uint8 list list option) \<Rightarrow> uint8 list list \<Rightarrow> uint8 list list \<Rightarrow> int \<times> uint8 list \<times> uint8 list" where
  "grep_main op stdin argv =
     (if length argv \<le> 1 then (1, [], bytes_of ''usage: grep pattern [file ...]'' @ [NL])
      else let pattern = argv ! 1 in
      if length argv \<le> 2 then (0, grep pattern stdin, [])
      else case grep_files op pattern (drop 2 argv) of (r, out) \<Rightarrow> (r, out, []))"

section \<open>The meaning of a pattern\<close>

text \<open>
  A pattern is a sequence of items: a byte or any byte, repeated or not, and possibly the end of the
  text. \<open>lang\<close> is the set of texts a sequence of items describes; \<open>ends\<close> says that nothing may follow.
\<close>

datatype item = One uint8 | Star uint8

fun items :: "uint8 list \<Rightarrow> item list" where
  "items (c # d # re) = (if d = STAR then Star c # items re else One c # items (d # re))"
| "items [c] = (if c = DOLLAR then [] else [One c])"
| "items [] = []"

fun ends :: "uint8 list \<Rightarrow> bool" where
  "ends (c # d # re) = (if d = STAR then ends re else ends (d # re))"
| "ends [c] = (c = DOLLAR)"
| "ends [] = False"

definition fits :: "uint8 \<Rightarrow> uint8 set" where
  "fits c = (if c = DOT then UNIV else {c})"

fun lang :: "item list \<Rightarrow> uint8 list set" where
  "lang [] = {[]}"
| "lang (One c # is) = {t # u |t u. t \<in> fits c \<and> u \<in> lang is}"
| "lang (Star c # is) = {v @ u |v u. set v \<subseteq> fits c \<and> u \<in> lang is}"

text \<open>The pattern describes a part of the text, which is a prefix when the pattern starts with \<open>^\<close>, and a suffix when it ends with \<open>$\<close>.\<close>

definition describes_prefix :: "uint8 list \<Rightarrow> uint8 list \<Rightarrow> bool" where
  "describes_prefix re text \<longleftrightarrow> (\<exists>u v. text = u @ v \<and> u \<in> lang (items re) \<and> (ends re \<longrightarrow> v = []))"

definition describes :: "uint8 list \<Rightarrow> uint8 list \<Rightarrow> bool" where
  "describes re text \<longleftrightarrow>
     (case re of c # re' \<Rightarrow> if c = HAT then describes_prefix re' text else \<exists>w rest. text = w @ rest \<and> describes_prefix re rest
      | [] \<Rightarrow> True)"

section \<open>The matcher decides it\<close>

lemma describes_prefix_Nil: "describes_prefix [] text"
  by (simp add: describes_prefix_def)

lemma describes_prefix_One:
  assumes "items re = One c # items re'" "ends re = ends re'"
  shows "describes_prefix re text \<longleftrightarrow> (\<exists>t ts. text = t # ts \<and> t \<in> fits c \<and> describes_prefix re' ts)"
proof
  assume "describes_prefix re text"
  then obtain u v where "text = u @ v" "ends re' \<longrightarrow> v = []" "u \<in> lang (One c # items re')"
    unfolding describes_prefix_def assms by blast
  moreover from this obtain t u' where "u = t # u'" "t \<in> fits c" "u' \<in> lang (items re')" by auto
  ultimately show "\<exists>t ts. text = t # ts \<and> t \<in> fits c \<and> describes_prefix re' ts"
    unfolding describes_prefix_def by (intro exI [of _ t] exI [of _ "u' @ v"]) auto
next
  assume "\<exists>t ts. text = t # ts \<and> t \<in> fits c \<and> describes_prefix re' ts"
  then obtain t u v where "text = (t # u) @ v" "t # u \<in> lang (One c # items re')" "ends re' \<longrightarrow> v = []"
    unfolding describes_prefix_def by auto
  then show "describes_prefix re text" unfolding describes_prefix_def assms by blast
qed

lemma describes_prefix_Star:
  assumes "items re = Star c # items re'" "ends re = ends re'"
  shows "describes_prefix re text \<longleftrightarrow> (\<exists>v rest. text = v @ rest \<and> set v \<subseteq> fits c \<and> describes_prefix re' rest)"
proof
  assume "describes_prefix re text"
  then obtain u w where "text = u @ w" "ends re' \<longrightarrow> w = []" "u \<in> lang (Star c # items re')"
    unfolding describes_prefix_def assms by blast
  moreover from this obtain v u' where "u = v @ u'" "set v \<subseteq> fits c" "u' \<in> lang (items re')" by auto
  ultimately show "\<exists>v rest. text = v @ rest \<and> set v \<subseteq> fits c \<and> describes_prefix re' rest"
    unfolding describes_prefix_def by (intro exI [of _ v] exI [of _ "u' @ w"]) auto
next
  assume "\<exists>v rest. text = v @ rest \<and> set v \<subseteq> fits c \<and> describes_prefix re' rest"
  then obtain v u w where u: "text = (v @ u) @ w" "set v \<subseteq> fits c" "u \<in> lang (items re')" "ends re' \<longrightarrow> w = []"
    unfolding describes_prefix_def by (metis append.assoc)
  moreover from u have "v @ u \<in> lang (Star c # items re')" by auto
  ultimately show "describes_prefix re text" unfolding describes_prefix_def assms by blast
qed

lemma split_Cons: "(\<exists>v rest. t # tx = v @ rest \<and> Q v rest) \<longleftrightarrow> Q [] (t # tx) \<or> (\<exists>v rest. tx = v @ rest \<and> Q (t # v) rest)"
proof
  assume "\<exists>v rest. t # tx = v @ rest \<and> Q v rest"
  then obtain v rest where "t # tx = v @ rest" "Q v rest" by blast
  then show "Q [] (t # tx) \<or> (\<exists>v rest. tx = v @ rest \<and> Q (t # v) rest)" by (cases v) auto
next
  assume "Q [] (t # tx) \<or> (\<exists>v rest. tx = v @ rest \<and> Q (t # v) rest)"
  then show "\<exists>v rest. t # tx = v @ rest \<and> Q v rest" by (metis append_Cons append_Nil)
qed

lemma matchstar_iff:
  assumes "\<And>text. matchhere re text = describes_prefix re text"
  shows "matchstar c re text \<longleftrightarrow> (\<exists>v rest. text = v @ rest \<and> set v \<subseteq> fits c \<and> describes_prefix re rest)"
proof (induction "text")
  case Nil
  then show ?case using assms by (simp add: matchstar.simps)
next
  case (Cons t tx)
  have "(\<exists>v rest. t # tx = v @ rest \<and> set v \<subseteq> fits c \<and> describes_prefix re rest) \<longleftrightarrow>
    describes_prefix re (t # tx) \<or> t \<in> fits c \<and> (\<exists>v rest. tx = v @ rest \<and> set v \<subseteq> fits c \<and> describes_prefix re rest)"
    by (subst split_Cons) auto
  then show ?case using Cons assms by (auto simp: matchstar.simps [of c re "t # tx"] fits_def)
qed

lemma matchhere_cases:
  "matchhere [] text = True"
  "matchhere (c # STAR # re) text = matchstar c re text"
  "matchhere [DOLLAR] text = (text = [])"
  "(case re of [] \<Rightarrow> c \<noteq> DOLLAR | d # _ \<Rightarrow> d \<noteq> STAR) \<Longrightarrow>
   matchhere (c # re) text = (\<exists>t ts. text = t # ts \<and> t \<in> fits c \<and> matchhere re ts)"
  by (simp_all add: matchhere.simps [of _ "text"] fits_def split: list.splits) (cases "text"; auto)+

lemma matchhere_iff: "matchhere re text \<longleftrightarrow> describes_prefix re text"
proof (induction re arbitrary: "text" rule: items.induct)
  case (1 c d re)
  show ?case
  proof (cases "d = STAR")
    case True
    then show ?thesis using 1(1) [OF True] describes_prefix_Star [of "c # d # re" c re "text"] matchstar_iff [of re c "text"]
      by (simp add: matchhere_cases)
  next
    case False
    then show ?thesis using 1(2) [OF False] describes_prefix_One [of "c # d # re" c "d # re" "text"]
      by (simp add: matchhere_cases)
  qed
next
  case (2 c)
  show ?case
  proof (cases "c = DOLLAR")
    case True
    then show ?thesis by (simp add: matchhere_cases describes_prefix_def)
  next
    case False
    then show ?thesis using describes_prefix_One [of "[c]" c "[]" "text"]
      by (simp add: matchhere_cases describes_prefix_Nil)
  qed
qed (simp add: matchhere_cases describes_prefix_Nil)

lemma match_from_iff: "match_from re text \<longleftrightarrow> (\<exists>w rest. text = w @ rest \<and> describes_prefix re rest)"
proof (induction "text")
  case (Cons t tx)
  have "(\<exists>w rest. t # tx = w @ rest \<and> describes_prefix re rest) \<longleftrightarrow> describes_prefix re (t # tx) \<or> (\<exists>w rest. tx = w @ rest \<and> describes_prefix re rest)"
    by (subst split_Cons) auto
  then show ?case using Cons by (simp add: matchhere_iff)
qed (simp add: matchhere_iff)

lemma match_iff: "match re text \<longleftrightarrow> describes re text"
  by (cases re) (auto simp: match_def describes_def matchhere_iff match_from_iff describes_prefix_Nil)

section \<open>Lines through the buffer\<close>

text \<open>The lines of a text that end with a newline, and what follows the last one.\<close>

fun split_nl :: "uint8 list \<Rightarrow> uint8 list list \<times> uint8 list" where
  "split_nl [] = ([], [])"
| "split_nl (b # bs) =
     (case split_nl bs of (ls, r) \<Rightarrow>
        if b = NL then ([] # ls, r) else (case ls of [] \<Rightarrow> ([], b # r) | l # ls' \<Rightarrow> ((b # l) # ls', r)))"

definition grep_spec :: "uint8 list \<Rightarrow> uint8 list list \<Rightarrow> uint8 list" where
  "grep_spec re ls = concat (map (\<lambda>l. l @ [NL]) (filter (describes re) ls))"

definition short_lines :: "nat \<Rightarrow> uint8 list \<Rightarrow> bool" where
  "short_lines n s \<longleftrightarrow> (\<forall>l\<in>set (fst (split_nl s)). length l \<le> n) \<and> length (snd (split_nl s)) \<le> n"

lemma split_nl_prefix:
  "NL \<notin> set r \<Longrightarrow> split_nl (r @ b) = (case fst (split_nl b) of [] \<Rightarrow> ([], r @ snd (split_nl b)) | l # ls \<Rightarrow> ((r @ l) # ls, snd (split_nl b)))"
  by (cases "split_nl b", induction r) (auto split: list.splits prod.splits)

lemma split_nl_line: "NL \<notin> set l \<Longrightarrow> split_nl (l @ NL # r) = (l # fst (split_nl r), snd (split_nl r))"
  by (auto simp: split_nl_prefix split: prod.splits)

lemma split_nl_none: "NL \<notin> set l \<Longrightarrow> split_nl l = ([], l)"
  using split_nl_prefix [of l "[]"] by simp

lemma split_nl_rest: "NL \<notin> set (snd (split_nl s)) \<and> set (snd (split_nl s)) \<subseteq> set s"
  by (induction s) (auto split: list.splits prod.splits)

lemma split_nl_append:
  "split_nl (a @ b) = (fst (split_nl a) @ fst (split_nl (snd (split_nl a) @ b)), snd (split_nl (snd (split_nl a) @ b)))"
  by (induction a) (auto simp: split_nl_rest split: list.splits prod.splits)

lemma short_lines_rest: "short_lines n (a @ b) \<Longrightarrow> short_lines n (snd (split_nl a) @ b)"
  by (simp add: short_lines_def split_nl_append [of a b])

lemma short_lines_buf: "short_lines n (r @ b) \<Longrightarrow> NL \<notin> set r \<Longrightarrow> length r \<le> n"
  by (auto simp: short_lines_def split_nl_prefix split: list.splits)

lemma strchr_nl_line:
  assumes "0 \<notin> set s"
  shows "strchr_nl s = None \<Longrightarrow> NL \<notin> set s"
    "strchr_nl s = Some q \<Longrightarrow> s = take q s @ NL # drop (q + 1) s \<and> NL \<notin> set (take q s)"
proof -
  have t: "takeWhile (\<lambda>b. b \<noteq> 0) s = s" using assms by (auto simp: takeWhile_eq_all_conv)
  show "strchr_nl s = None \<Longrightarrow> NL \<notin> set s" by (auto simp: strchr_nl_def t find_None_iff in_set_conv_nth)
  assume "strchr_nl s = Some q"
  then have q: "q < length s" "s ! q = NL" "\<forall>i<q. s ! i \<noteq> NL" by (auto simp: strchr_nl_def t find_Some_iff)
  then show "s = take q s @ NL # drop (q + 1) s \<and> NL \<notin> set (take q s)"
    using id_take_nth_drop [OF q(1)] by (auto simp: in_set_conv_nth)
qed

lemma grep_lines_split: "0 \<notin> set s \<Longrightarrow> grep_lines re s = (grep_spec re (fst (split_nl s)), snd (split_nl s))"
proof (induction "length s" arbitrary: s rule: less_induct)
  case less
  show ?case
  proof (cases "strchr_nl s")
    case None
    then have "NL \<notin> set s" using strchr_nl_line less.prems by blast
    then show ?thesis using None by (simp add: grep_lines.simps [of re s] split_nl_none grep_spec_def)
  next
    case (Some q)
    then have q: "s = take q s @ NL # drop (q + 1) s" "NL \<notin> set (take q s)" using strchr_nl_line less.prems by blast+
    have tk: "take (q + 1) s = take q s @ [NL]"
      by (subst q(1)) (use strchr_nl_bound [OF Some] in \<open>simp add: min_def\<close>)
    have d: "0 \<notin> set (drop (q + 1) s)" using less.prems in_set_dropD by fastforce
    have IH: "grep_lines re (drop (q + 1) s) = (grep_spec re (fst (split_nl (drop (q + 1) s))), snd (split_nl (drop (q + 1) s)))"
      by (rule less.hyps) (use strchr_nl_bound [OF Some] d in auto)
    have "split_nl s = (take q s # fst (split_nl (drop (q + 1) s)), snd (split_nl (drop (q + 1) s)))"
      by (subst q(1)) (rule split_nl_line [OF q(2)])
    then show ?thesis using Some IH tk by (simp add: grep_lines.simps [of re s] grep_spec_def match_iff)
  qed
qed

lemma read_piece_concat:
  "0 < n \<Longrightarrow> input \<noteq> [] \<Longrightarrow> [] \<notin> set input \<Longrightarrow> read_piece n input = (got, rest) \<Longrightarrow>
   got \<noteq> [] \<and> concat input = got @ concat rest \<and> [] \<notin> set rest"
  by (auto simp: read_piece_def split: list.splits if_splits)

lemma grep_loop_split:
  "NL \<notin> set buf \<Longrightarrow> 0 \<notin> set (buf @ concat input) \<Longrightarrow> [] \<notin> set input \<Longrightarrow> short_lines (GREP_BUF - 2) (buf @ concat input) \<Longrightarrow>
   grep_loop re buf input = grep_spec re (fst (split_nl (buf @ concat input)))"
proof (induction "length (concat input)" arbitrary: buf input rule: less_induct)
  case less
  obtain got rest where r: "read_piece (GREP_BUF - length buf - 1) input = (got, rest)" by (cases "read_piece (GREP_BUF - length buf - 1) input")
  have len: "length buf \<le> GREP_BUF - 2" using short_lines_buf [OF less.prems(4,1)] .
  show ?case
  proof (cases "input = []")
    case True
    then show ?thesis using less.prems(1) by (simp add: grep_loop.simps [of re buf] read_piece_def split_nl_none grep_spec_def)
  next
    case False
    have g: "got \<noteq> []" "concat input = got @ concat rest" "[] \<notin> set rest"
      using read_piece_concat [OF _ False less.prems(3) r] len by (auto simp: GREP_BUF_def)
    define buf' where "buf' = snd (split_nl (buf @ got))"
    have b: "NL \<notin> set buf'" "set buf' \<subseteq> set (buf @ got)" using split_nl_rest [of "buf @ got"] by (auto simp: buf'_def)
    have IH: "grep_loop re buf' rest = grep_spec re (fst (split_nl (buf' @ concat rest)))"
    proof (rule less.hyps)
      show "length (concat rest) < length (concat input)" by (rule read_piece_less [OF r g(1)])
      show "0 \<notin> set (buf' @ concat rest)" using b(2) less.prems(2) g(2) by auto
      show "short_lines (GREP_BUF - 2) (buf' @ concat rest)"
        unfolding buf'_def by (rule short_lines_rest) (use less.prems(4) g(2) in simp)
    qed (use b g in auto)
    have "grep_lines re (buf @ got) = (grep_spec re (fst (split_nl (buf @ got))), buf')"
      unfolding buf'_def by (rule grep_lines_split) (use less.prems(2) g(2) in auto)
    then show ?thesis using IH g r split_nl_append [of "buf @ got" "concat rest"]
      by (simp add: grep_loop.simps [of re buf input] buf'_def grep_spec_def)
  qed
qed

text \<open>A line that does not fit the buffer ends the search, whatever follows.\<close>

lemma grep_loop_stops:
  "length buf \<le> GREP_BUF - 1 \<Longrightarrow> NL \<notin> set (take (GREP_BUF - 1) (buf @ concat input)) \<Longrightarrow> 0 \<notin> set (take (GREP_BUF - 1) (buf @ concat input)) \<Longrightarrow>
   grep_loop re buf input = []"
proof (induction "length (concat input)" arbitrary: buf input rule: less_induct)
  case less
  obtain got rest where r: "read_piece (GREP_BUF - length buf - 1) input = (got, rest)" by (cases "read_piece (GREP_BUF - length buf - 1) input")
  show ?case
  proof (cases "got = []")
    case False
    then have g: "concat input = got @ concat rest" "length got \<le> GREP_BUF - length buf - 1"
      using r by (auto simp: read_piece_def split: list.splits if_splits)
    then have tk: "take (GREP_BUF - 1) (buf @ concat input) = (buf @ got) @ take (GREP_BUF - 1 - length (buf @ got)) (concat rest)"
      using less.prems(1) by (simp add: diff_diff_left)
    then have n: "NL \<notin> set (buf @ got)" "0 \<notin> set (buf @ got)" using less.prems(2,3) by auto
    then have "grep_lines re (buf @ got) = ([], buf @ got)" by (simp add: grep_lines_split split_nl_none grep_spec_def)
    moreover have "grep_loop re (buf @ got) rest = []"
      by (rule less.hyps) (use read_piece_less [OF r False] less.prems g in \<open>auto simp: GREP_BUF_def\<close>)
    ultimately show ?thesis using r by (simp add: grep_loop.simps [of re buf input])
  qed (use r in \<open>simp add: grep_loop.simps [of re buf input]\<close>)
qed

section \<open>The property\<close>

text \<open>
  C14. \<open>grep\<close> prints exactly the terminated lines that contain a match of the pattern, each with its newline and in
  their order, however \<open>read\<close> cuts the file into pieces: for every file without zero bytes whose lines have at
  most 1022 bytes. A line matches when the regular expression, read as a set of texts, describes a part of it,
  from its beginning when the pattern starts with \<open>^\<close> and to its end when it ends with \<open>$\<close>. A file that
  starts with a longer line is not searched at all.
\<close>

theorem grep_prints_matching_lines:
  assumes "[] \<notin> set input" "0 \<notin> set (concat input)"
  shows "(short_lines 1022 (concat input) \<longrightarrow> grep re input = grep_spec re (fst (split_nl (concat input)))) \<and>
    (1023 \<le> length (concat input) \<longrightarrow> NL \<notin> set (take 1023 (concat input)) \<longrightarrow> grep re input = [])"
proof -
  have "0 \<notin> set (take 1023 (concat input))" using assms(2) by (auto dest: in_set_takeD)
  then show ?thesis using grep_loop_split [of "[]" input re] grep_loop_stops [of "[]" input re] assms
    by (simp add: grep_def GREP_BUF_def)
qed

text \<open>The pattern \<open>a.*c$\<close> on two lines that come in three pieces, and a line that is not terminated.\<close>

theorem grep_prints_matching_lines_witness:
  "grep (bytes_of ''a.*c$'') [bytes_of ''xab'', bytes_of ''bc'' @ [NL] @ bytes_of ''a'', bytes_of ''cd'' @ [NL] @ bytes_of ''ac'']
     = bytes_of ''xabbc'' @ [NL]"
proof -
  let ?in = "[bytes_of ''xab'', bytes_of ''bc'' @ [NL] @ bytes_of ''a'', bytes_of ''cd'' @ [NL] @ bytes_of ''ac'']"
  have 1: "[] \<notin> set ?in" "0 \<notin> set (concat ?in)" "short_lines 1022 (concat ?in)"
    "fst (split_nl (concat ?in)) = [bytes_of ''xabbc'', bytes_of ''acd'']" by code_simp+
  have "match (bytes_of ''a.*c$'') (bytes_of ''xabbc'')" "\<not> match (bytes_of ''a.*c$'') (bytes_of ''acd'')" by code_simp+
  then show ?thesis using grep_prints_matching_lines [OF 1(1,2)] 1(3,4) by (simp add: grep_spec_def match_iff)
qed

end
