(* ===== verification/Spec2Isabelle.thy ===== *)
theory Spec2Isabelle
  imports Vm_Copy Sha256_Prog Fs_Dirs Console_Rings Sched_Fair Exit_Wait Grep
begin

text \<open>
  A verification library for a teaching kernel: xv6 for RISC-V, with a SHA-256 module that is used at boot,
  by a system call and by a user program. The sources are under \<^verbatim>\<open>src/\<close>: \<^verbatim>\<open>kernel/\<close>, \<^verbatim>\<open>user/\<close> and
  \<^verbatim>\<open>mkfs/\<close>. Every C function is one definition with the name it has there; loops and shared pieces of a
  function have definitions of their own, named after it. Numbers keep their width
  (\<open>uint8\<close> to \<open>uint64\<close> are words), pointers into tables are indices, and a pointer that may be null is an option.

  \<^bold>\<open>Outcomes and state.\<close> A kernel function returns (\<open>Ret\<close>), panics with its message (\<open>Panic\<close>), or has to wait for
  another thread in a place from which the model does not continue (\<open>Blocked\<close>: a sleep lock, room in the
  log). Calls on pipes, the console and \<open>wait\<close> that sleep return \<open>Waiting\<close> in the state in which they
  sleep, with the progress they have made. The state is an extensible record that grows with the layers: buffer cache (\<open>bstate\<close>), log
  (\<open>lstate\<close>), file system and memory (\<open>fsstate\<close>), open files, pipes and processes (\<open>kstate\<close>), console and
  serial port (\<open>cstate\<close>), disk driver (\<open>vstate\<close>). A function is defined on the layer it needs and
  applies to all above.

  \<^bold>\<open>Parts and theories.\<close>
  \<^item> \<open>Kernel_Prelude\<close>: integers, byte memory, outcomes. \<open>Cstring\<close>: \<^verbatim>\<open>kernel/string.c\<close>. \<open>Disk_Bytes\<close>: byte layout of blocks.
  \<^item> \<open>Kalloc\<close>: \<^verbatim>\<open>kalloc.c\<close>, with the free list in the pages themselves; the locale \<open>page_allocator\<close> is its contract. A
    page that is allocated leaves the list, is not used elsewhere, and can be given back; without the lock that is
    commented out, two concurrent \<open>kfree\<close> lose a page.
  \<^item> \<open>Vm\<close>, \<open>Vm_Tables\<close>, \<open>Vm_Maps\<close>, \<open>Vm_Copy\<close>: \<^verbatim>\<open>vm.c\<close>. \<open>Vm_Tables\<close> gives the three-level table its shape and its meaning as
    a map from pages to entries; \<open>Vm_Maps\<close> shows that \<open>mappages\<close> and \<open>uvmunmap\<close> change that map as they should;
    \<open>Vm_Copy\<close> that the copy functions move exactly the user's bytes and reject exactly the bad ranges.
  \<^item> \<open>Sha256\<close>, \<open>Sha256_Prog\<close>: \<^verbatim>\<open>sha256.c\<close> and its callers. The streaming implementation computes the function of the standard,
    whose round constants are computed from the cube roots of primes; the program \<^verbatim>\<open>user/sha256.c\<close> hashes only the last piece it has read.
  \<^item> \<open>Locks\<close>: spin locks and sleep locks; mutual exclusion for every interleaving of the statements of \<open>acquire\<close> and \<open>release\<close>
    of any number of processors, as an invariant of a step relation.
  \<^item> \<open>Bio\<close>, \<open>Log\<close>, \<open>Log_Tx\<close>: block cache and write-ahead log. The cache shows the disk's contents; a crash at
    any write of a commit leaves all of the transaction or nothing after recovery.
  \<^item> \<open>Fs\<close>, \<open>Fs_Blocks\<close>, \<open>Fs_Inodes\<close>, \<open>Fs_Paths\<close>, \<open>Fs_Dirs\<close>, \<open>Fs_Frame\<close>: \<^verbatim>\<open>fs.c\<close>. Allocation of blocks; the inode table;
    what \<open>ilock\<close> loads after \<open>iupdate\<close>, what \<open>readi\<close> returns after \<open>writei\<close>, what \<open>dirlookup\<close> finds after \<open>dirlink\<close>, all
    inside a transaction; paths; and what the file system leaves alone.
  \<^item> \<open>Ring_Fifo\<close> is the contract of a bounded queue. \<open>Pipe\<close> (\<^verbatim>\<open>pipe.c\<close>) and \<open>Console_Rings\<close> (\<^verbatim>\<open>uart.c\<close>) are its two instances,
    with counters that wrap. \<open>Console\<close> is \<^verbatim>\<open>console.c\<close> and \<^verbatim>\<open>uart.c\<close>, whose line editor refines a list specification. \<open>Printf\<close>: \<^verbatim>\<open>printf.c\<close>.
  \<^item> \<open>Kstate\<close>, \<open>File\<close>, \<open>Proc\<close>, \<open>Sysargs\<close>, \<open>Exec\<close>, \<open>Sysfile\<close>, \<open>Sysproc\<close>: open files, processes, \<open>exec\<close> and the system
    calls, each with its error paths, and the dispatch \<open>syscall\<close>.
  \<^item> \<open>Virtio\<close>, \<open>Trap\<close>: the disk driver and the trap handlers. Writes to device registers are recorded in order. A request is entered in the
    available ring, notified, and gives all its descriptors back; a system call comes back after its \<open>ecall\<close>, and an unknown
    one is reported; the timer interrupt never returns.
  \<^item> \<open>Kernel_Frame\<close> has the locale \<open>kernel_frame\<close> of state properties that survive the steps system calls are made of. It
    is used twice: \<open>File_Refs\<close> shows that every system call keeps the reference counts of open files exact, and \<open>Sched_Fair\<close>
    that the scheduler reaches every runnable process, whatever calls the others make (locale \<open>fair_run\<close>).
    \<open>Exit_Wait\<close> shows that the wake-up from \<open>exit\<close> to \<open>wait\<close> is not lost.
  \<^item> \<open>Grep\<close>: \<^verbatim>\<open>user/grep.c\<close>, whose matcher decides the language of the pattern, through a buffer of 1024 bytes.

  \<^bold>\<open>Loops and bounds.\<close> A loop that ends is a terminating function on its own measure. \<open>strlen\<close>, \<open>countpages\<close>, the scan of the
  buffer ring and \<open>clockintr\<close> may run for ever and are partial functions, where \<open>None\<close> is that they do not return; for the ring of a
  well-formed cache the scan is shown to end. Two functions count their rounds: \<open>freewalk\<close> has the depth of the recursion,
  3 for the three levels of a table, and \<open>fetch_argv\<close> the entries left of \<open>argv\<close>, which has \<open>MAXARG\<close> of them in the source.

  \<^bold>\<open>What comes from outside.\<close> What the devices do between two steps of the driver, what a process does in user
  mode, the time register, the addresses the linker chooses, and the contents of
  uninitialised stack memory are arguments. Where a property needs something of them it is a named hypothesis, such as \<open>device_completes\<close> of the disk.

  \<^bold>\<open>Not modelled.\<close> The assembly (\<^verbatim>\<open>entry.S\<close>, \<^verbatim>\<open>swtch.S\<close>, \<^verbatim>\<open>trampoline.S\<close>, \<^verbatim>\<open>kernelvec.S\<close>): registers are saved and restored there
  and nothing else happens. \<^verbatim>\<open>start.c\<close> and the order of calls in \<^verbatim>\<open>main.c\<close>: writes to machine registers and calls of functions that
  are modelled. \<open>kvminit\<close>, \<open>kvminithart\<close>, \<open>trapinithart\<close>, \<open>fileinit\<close>, \<open>printfinit\<close>: one assignment or one lock each. Spin locks are
  taken for granted outside \<open>Locks\<close> and \<open>Kalloc\<close>: the functions between two waits are atomic. Memory barriers. What is printed on the
  way to a panic, and the loops that hang after one: a panic ends the run. The messages of \<open>balloc\<close> and \<open>ialloc\<close> when nothing is left. Overflow of \<open>noff\<close>
  and of reference counts, which are unbounded integers. The shell, the user library and the
  small user programs: they act through the system calls, which are modelled. The test programs, and \<^verbatim>\<open>mkfs.c\<close>, which runs on
  the host.
\<close>

end
